theory Spec2Isabelle
  imports Main "HOL-Library.Monad_Syntax" "HOL-Library.Sublist"
begin

section \<open>The Sudoku solver of src/sudoku.js, with boards as values\<close>

text \<open>
  The functions of \<^verbatim>\<open>src/sudoku.js\<close> are embedded as HOL functions on immutable
  boards. A function that mutates its argument returns the mutated board next to its
  JavaScript return value. A read of \<^verbatim>\<open>undefined\<close> followed by a property access
  throws a TypeError in JavaScript; here every function returns an \<open>option\<close> and
  \<open>None\<close> stands for "no value is returned".

  Parameters called \<^verbatim>\<open>squares\<close>, \<^verbatim>\<open>row\<close> and \<^verbatim>\<open>col\<close> in the source are
  written \<open>sqs\<close>, \<open>rw\<close> and \<open>cl\<close>, since the record fields carry the source's names.
\<close>

subsection \<open>Squares and boards\<close>

record Square =
  row :: int
  col :: int
  "value" :: int
  domain :: "int list"

type_synonym board = "Square list list"

record SudokuCSP =
  squares :: board
  failure :: bool

text \<open>\<^verbatim>\<open>xs[i]\<close>: \<open>None\<close> is JavaScript's \<^verbatim>\<open>undefined\<close>.\<close>

definition js_index :: "'a list \<Rightarrow> int \<Rightarrow> 'a option" where
  "js_index xs i = (if 0 \<le> i \<and> i < int (length xs) then Some (xs ! nat i) else None)"

text \<open>\<^verbatim>\<open>squares[i][j]\<close> read as an object whose property is accessed next.\<close>

definition get_sq :: "board \<Rightarrow> int \<Rightarrow> int \<Rightarrow> Square option" where
  "get_sq sqs i j = do { r \<leftarrow> js_index sqs i; js_index r j }"

text \<open>A write to a property of \<^verbatim>\<open>squares[i][j]\<close>.\<close>

definition modify_sq :: "board \<Rightarrow> int \<Rightarrow> int \<Rightarrow> (Square \<Rightarrow> Square) \<Rightarrow> board option" where
  "modify_sq sqs i j f =
     do { r \<leftarrow> js_index sqs i; s \<leftarrow> js_index r j;
          Some (sqs[nat i := r[nat j := f s]]) }"

text \<open>The loop variable of \<^verbatim>\<open>for(i = 0; i < squares.length; i++)\<close>.\<close>

definition indices :: "board \<Rightarrow> int list" where
  "indices sqs = map int [0..<length sqs]"

text \<open>
  The pairs \<open>(i, j)\<close> of the nested loops over \<^verbatim>\<open>squares.length\<close>, in the order the
  loops visit them.
\<close>

definition cells :: "board \<Rightarrow> (int \<times> int) list" where
  "cells sqs = List.product (indices sqs) (indices sqs)"

text \<open>\<^verbatim>\<open>xs.indexOf(v)\<close>: the first position of \<open>v\<close>, or \<open>-1\<close>.\<close>

fun indexOf :: "int list \<Rightarrow> int \<Rightarrow> int" where
  "indexOf [] v = -1"
| "indexOf (x # xs) v =
     (if x = v then 0 else (let k = indexOf xs v in if k = -1 then -1 else k + 1))"

text \<open>\<^verbatim>\<open>xs.splice(index, 1)\<close> for a position \<open>index \<ge> 0\<close> (the only use in the source).\<close>

definition splice1 :: "int list \<Rightarrow> int \<Rightarrow> int list" where
  "splice1 xs index = take (nat index) xs @ drop (Suc (nat index)) xs"

subsection \<open>isFull, getEmptySquare, copySquares\<close>

fun isFull_loop :: "board \<Rightarrow> (int \<times> int) list \<Rightarrow> bool option" where
  "isFull_loop sqs [] = Some True"
| "isFull_loop sqs ((i, j) # ps) =
     do { s \<leftarrow> get_sq sqs i j;
          if value s = 0 then Some False else isFull_loop sqs ps }"

definition isFull :: "board \<Rightarrow> bool option" where
  "isFull sqs = isFull_loop sqs (cells sqs)"

fun getEmptySquare_loop :: "board \<Rightarrow> (int \<times> int) list \<Rightarrow> Square option" where
  "getEmptySquare_loop sqs [] = Some \<lparr>row = -1, col = -1, value = -1, domain = []\<rparr>"
| "getEmptySquare_loop sqs ((i, j) # ps) =
     do { s \<leftarrow> get_sq sqs i j;
          if value s = 0 then Some s else getEmptySquare_loop sqs ps }"

definition getEmptySquare :: "board \<Rightarrow> Square option" where
  "getEmptySquare sqs = getEmptySquare_loop sqs (cells sqs)"

text \<open>
  \<^verbatim>\<open>copySquares\<close>: the inner loop also runs to \<^verbatim>\<open>squares.length\<close>, so a row is
  read at the positions \<open>0 .. length sqs - 1\<close> whatever its own length.
\<close>

fun copySquares_row :: "board \<Rightarrow> int \<Rightarrow> int list \<Rightarrow> Square list option" where
  "copySquares_row sqs i [] = Some []"
| "copySquares_row sqs i (j # js) =
     do { s \<leftarrow> get_sq sqs i j;
          rest \<leftarrow> copySquares_row sqs i js;
          Some (\<lparr>row = row s, col = col s, value = value s, domain = domain s\<rparr> # rest) }"

fun copySquares_rows :: "board \<Rightarrow> int list \<Rightarrow> board option" where
  "copySquares_rows sqs [] = Some []"
| "copySquares_rows sqs (i # is) =
     do { r \<leftarrow> copySquares_row sqs i (indices sqs);
          rest \<leftarrow> copySquares_rows sqs is;
          Some (r # rest) }"

definition copySquares :: "board \<Rightarrow> board option" where
  "copySquares sqs = copySquares_rows sqs (indices sqs)"

text \<open>The constructor \<^verbatim>\<open>new SudokuCSP(squares, failure)\<close> copies the squares.\<close>

definition new_SudokuCSP :: "board \<Rightarrow> bool \<Rightarrow> SudokuCSP option" where
  "new_SudokuCSP sqs f =
     do { c \<leftarrow> copySquares sqs; Some \<lparr>squares = c, failure = f\<rparr> }"

subsection \<open>updateDomains and updateAllDomains\<close>

text \<open>
  The fragment that occurs three times in \<^verbatim>\<open>updateDomains\<close>:
  \<^verbatim>\<open>index = squares[i][j].domain.indexOf(newValue);
  if(index != -1 && !skip) squares[i][j].domain.splice(index, 1);\<close>
  where \<open>skip\<close> says that \<open>(i, j)\<close> is the changed square itself.
\<close>

definition prune :: "board \<Rightarrow> int \<Rightarrow> int \<Rightarrow> int \<Rightarrow> bool \<Rightarrow> board option" where
  "prune sqs i j newValue skip =
     do { s \<leftarrow> get_sq sqs i j;
          let index = indexOf (domain s) newValue;
          if index \<noteq> -1 \<and> \<not> skip
          then modify_sq sqs i j (\<lambda>s. s\<lparr>domain := splice1 (domain s) index\<rparr>)
          else Some sqs }"

text \<open>
  The row and column loop (lines 188-209). The boolean is \<open>False\<close> when the loop left
  the function by \<^verbatim>\<open>return false\<close>, \<open>True\<close> when it ran to its end.
\<close>

fun updateDomains_rowcol ::
  "board \<Rightarrow> int \<Rightarrow> int \<Rightarrow> int \<Rightarrow> int list \<Rightarrow> (bool \<times> board) option" where
  "updateDomains_rowcol sqs rw cl newValue [] = Some (True, sqs)"
| "updateDomains_rowcol sqs rw cl newValue (i # is) =
     do { sqs1 \<leftarrow> prune sqs rw i newValue (i = cl);
          sqs2 \<leftarrow> prune sqs1 i cl newValue (i = rw);
          a \<leftarrow> get_sq sqs2 rw i;
          b \<leftarrow> get_sq sqs2 i cl;
          if length (domain a) = 0 \<or> length (domain b) = 0 then Some (False, sqs2)
          else updateDomains_rowcol sqs2 rw cl newValue is }"

text \<open>The start of the 3x3 box of a row or column index (lines 213-221).\<close>

definition box_start :: "int \<Rightarrow> int" where
  "box_start rw =
     (let r = 0;
          r = (if rw \<ge> 0 \<and> rw \<le> 2 then 0 else r);
          r = (if rw \<ge> 3 \<and> rw \<le> 5 then 3 else r);
          r = (if rw \<ge> 6 \<and> rw \<le> 8 then 6 else r)
      in r)"

text \<open>The box loop (lines 223-234), over the pairs \<open>(i, j)\<close> in the order of the nested loops.\<close>

fun updateDomains_box ::
  "board \<Rightarrow> int \<Rightarrow> int \<Rightarrow> int \<Rightarrow> (int \<times> int) list \<Rightarrow> (bool \<times> board) option" where
  "updateDomains_box sqs rw cl newValue [] = Some (True, sqs)"
| "updateDomains_box sqs rw cl newValue ((i, j) # ps) =
     do { sqs1 \<leftarrow> prune sqs i j newValue (i = rw \<and> j = cl);
          a \<leftarrow> get_sq sqs1 i j;
          if length (domain a) = 0 then Some (False, sqs1)
          else updateDomains_box sqs1 rw cl newValue ps }"

definition updateDomains :: "board \<Rightarrow> int \<Rightarrow> int \<Rightarrow> (bool \<times> board) option" where
  "updateDomains sqs rw cl =
     do { s \<leftarrow> get_sq sqs rw cl;
          let newValue = value s;
          if newValue = 0 then Some (True, sqs)
          else do {
            sqs1 \<leftarrow> modify_sq sqs rw cl (\<lambda>s. s\<lparr>domain := [newValue]\<rparr>);
            (continue, sqs2) \<leftarrow> updateDomains_rowcol sqs1 rw cl newValue (indices sqs1);
            if \<not> continue then Some (False, sqs2)
            else (let r = box_start rw; c = box_start cl
                  in updateDomains_box sqs2 rw cl newValue
                       (List.product [r, r + 1, r + 2] [c, c + 1, c + 2])) } }"

fun updateAllDomains_loop :: "board \<Rightarrow> (int \<times> int) list \<Rightarrow> (bool \<times> board) option" where
  "updateAllDomains_loop sqs [] = Some (True, sqs)"
| "updateAllDomains_loop sqs ((i, j) # ps) =
     do { (valid, sqs1) \<leftarrow> updateDomains sqs i j;
          if \<not> valid then Some (False, sqs1) else updateAllDomains_loop sqs1 ps }"

definition updateAllDomains :: "board \<Rightarrow> (bool \<times> board) option" where
  "updateAllDomains sqs = updateAllDomains_loop sqs (cells sqs)"

subsection \<open>backtrack and solve\<close>

text \<open>
  The first three statements of the loop body of \<^verbatim>\<open>backtrack\<close> (lines 73-85): copy
  the squares, write the candidate into the copy, update the domains of the copy.
\<close>

definition trial :: "board \<Rightarrow> Square \<Rightarrow> int \<Rightarrow> (bool \<times> board) option" where
  "trial sqs square v =
     do { newSquares \<leftarrow> copySquares sqs;
          newSquares1 \<leftarrow> modify_sq newSquares (row square) (col square) (\<lambda>s. s\<lparr>value := v\<rparr>);
          updateDomains newSquares1 (row square) (col square) }"

text \<open>
  \<^verbatim>\<open>backtrack\<close> recurses on a board it has just built, so the model carries fuel:
  the first argument bounds the depth of the recursion, and \<open>None\<close> is also the
  value when the fuel runs out. \<open>backtrack_loop\<close> is the \<^verbatim>\<open>for\<close> loop over
  \<^verbatim>\<open>square.domain\<close>; its last argument holds the candidates not yet tried.
  The loop body works on a copy, so \<^verbatim>\<open>sudoku.squares\<close> and \<^verbatim>\<open>square.domain\<close>
  are the same in every iteration.
\<close>

fun backtrack :: "nat \<Rightarrow> SudokuCSP \<Rightarrow> SudokuCSP option"
and backtrack_loop :: "nat \<Rightarrow> SudokuCSP \<Rightarrow> Square \<Rightarrow> int list \<Rightarrow> SudokuCSP option" where
  "backtrack 0 sudoku = None"
| "backtrack (Suc n) sudoku =
     do { full \<leftarrow> isFull (squares sudoku);
          if full then Some sudoku
          else do { square \<leftarrow> getEmptySquare (squares sudoku);
                    backtrack_loop n sudoku square (domain square) } }"
| "backtrack_loop n sudoku square [] = new_SudokuCSP (squares sudoku) True"
| "backtrack_loop n sudoku square (v # vs) =
     do { (success, newSquares) \<leftarrow> trial (squares sudoku) square v;
          if success
          then do { next \<leftarrow> new_SudokuCSP newSquares False;
                    result \<leftarrow> backtrack n next;
                    if \<not> failure result then Some result
                    else backtrack_loop n sudoku square vs }
          else backtrack_loop n sudoku square vs }"

definition solve :: "nat \<Rightarrow> board \<Rightarrow> SudokuCSP option" where
  "solve fuel sqs =
     do { newSquares \<leftarrow> copySquares sqs;
          (valid, newSquares1) \<leftarrow> updateAllDomains newSquares;
          start \<leftarrow> new_SudokuCSP newSquares1 False;
          backtrack fuel start }"

subsection \<open>The caller's grid (src/controller.js)\<close>

text \<open>
  \<^verbatim>\<open>controller.js\<close> builds \<^verbatim>\<open>squares[i][j] = new Square(i, j, 0, [1..9])\<close> and
  writes the digit of each input field into \<^verbatim>\<open>value\<close> before it calls \<^verbatim>\<open>solve\<close>.
\<close>

definition squares_of_row :: "nat \<Rightarrow> int list \<Rightarrow> Square list" where
  "squares_of_row i vs =
     map (\<lambda>(j, v). \<lparr>row = int i, col = int j, value = v, domain = [1, 2, 3, 4, 5, 6, 7, 8, 9]\<rparr>)
       (enumerate 0 vs)"

definition squares_of_grid :: "int list list \<Rightarrow> board" where
  "squares_of_grid g = map (\<lambda>(i, vs). squares_of_row i vs) (enumerate 0 g)"


section \<open>The program on a heap\<close>

text \<open>
  The functions above treat a board as a value. In the program a board is an array of
  arrays of references to \<^verbatim>\<open>Square\<close> objects, and the \<^verbatim>\<open>domain\<close> of a square is a
  reference to an array of numbers; \<^verbatim>\<open>splice\<close> and the assignments to \<^verbatim>\<open>value\<close> and
  \<^verbatim>\<open>domain\<close> change these objects in place. The claims about copies and about what a
  caller can observe need this sharing, so the same functions are modelled a second
  time over an explicit store. An address is an index into one of three lists: the
  arrays of references (a board and each of its rows), the \<^verbatim>\<open>Square\<close> objects, and the
  arrays of numbers. \<^verbatim>\<open>new\<close>, \<^verbatim>\<open>[]\<close> and \<^verbatim>\<open>slice\<close> append to a list; the address of
  the new object is the length of the list before. Every function returns the store it
  leaves; \<open>None\<close> is a \<^verbatim>\<open>TypeError\<close> (a property of \<^verbatim>\<open>undefined\<close>), a dangling
  address, or, for \<open>backtrack_h\<close>, the end of the fuel.
\<close>

record Square_h =
  row_h :: int
  col_h :: int
  value_h :: int
  domain_h :: nat

record heap =
  arrays :: "nat list list"
  objects :: "Square_h list"
  numbers :: "int list list"

record SudokuCSP_h =
  squares_h :: nat
  failure_h :: bool

definition deref :: "'a list \<Rightarrow> nat \<Rightarrow> 'a option" where
  "deref store a = (if a < length store then Some (store ! a) else None)"

text \<open>\<^verbatim>\<open>squares[i][j]\<close>, a reference to a \<^verbatim>\<open>Square\<close>, for the board at address \<open>a\<close>.\<close>

definition get_sq_h :: "heap \<Rightarrow> nat \<Rightarrow> int \<Rightarrow> int \<Rightarrow> nat option" where
  "get_sq_h h a i j =
     do { outer \<leftarrow> deref (arrays h) a; r \<leftarrow> js_index outer i;
          inner \<leftarrow> deref (arrays h) r; js_index inner j }"

text \<open>The object \<^verbatim>\<open>squares[i][j]\<close> and the contents of its \<^verbatim>\<open>domain\<close> array.\<close>

definition read_sq_h :: "heap \<Rightarrow> nat \<Rightarrow> int \<Rightarrow> int \<Rightarrow> (Square_h \<times> int list) option" where
  "read_sq_h h a i j =
     do { q \<leftarrow> get_sq_h h a i j; s \<leftarrow> deref (objects h) q;
          d \<leftarrow> deref (numbers h) (domain_h s); Some (s, d) }"

text \<open>The values of the loop variable of \<^verbatim>\<open>for(i = 0; i < squares.length; i++)\<close>.\<close>

definition length_h :: "heap \<Rightarrow> nat \<Rightarrow> int list option" where
  "length_h h a = do { outer \<leftarrow> deref (arrays h) a; Some (map int [0..<length outer]) }"

text \<open>\<^verbatim>\<open>isFull\<close> (lines 113-123); it reads only.\<close>

fun isFull_loop_h :: "heap \<Rightarrow> nat \<Rightarrow> (int \<times> int) list \<Rightarrow> bool option" where
  "isFull_loop_h h a [] = Some True"
| "isFull_loop_h h a ((i, j) # ps) =
     do { q \<leftarrow> get_sq_h h a i j; s \<leftarrow> deref (objects h) q;
          if value_h s = 0 then Some False else isFull_loop_h h a ps }"

definition isFull_h :: "heap \<Rightarrow> nat \<Rightarrow> bool option" where
  "isFull_h h a = do { is \<leftarrow> length_h h a; isFull_loop_h h a (List.product is is) }"

text \<open>
  \<^verbatim>\<open>getEmptySquare\<close> (lines 131-141) returns a reference to a square of the board
  itself, not a copy; only the sentinel \<^verbatim>\<open>new Square(-1, -1, -1, [])\<close> of line 140 is
  allocated.
\<close>

fun getEmptySquare_loop_h :: "heap \<Rightarrow> nat \<Rightarrow> (int \<times> int) list \<Rightarrow> (nat \<times> heap) option" where
  "getEmptySquare_loop_h h a [] =
     Some (length (objects h),
           h\<lparr>numbers := numbers h @ [[]],
             objects := objects h @
               [\<lparr>row_h = -1, col_h = -1, value_h = -1, domain_h = length (numbers h)\<rparr>]\<rparr>)"
| "getEmptySquare_loop_h h a ((i, j) # ps) =
     do { q \<leftarrow> get_sq_h h a i j; s \<leftarrow> deref (objects h) q;
          if value_h s = 0 then Some (q, h) else getEmptySquare_loop_h h a ps }"

definition getEmptySquare_h :: "heap \<Rightarrow> nat \<Rightarrow> (nat \<times> heap) option" where
  "getEmptySquare_h h a = do { is \<leftarrow> length_h h a; getEmptySquare_loop_h h a (List.product is is) }"

text \<open>
  \<^verbatim>\<open>copySquares\<close> (lines 149-161). \<open>copySquares_row_h\<close> is the inner loop for the row
  array at address \<open>r\<close>: \<^verbatim>\<open>s.domain.slice(0)\<close> allocates an array of numbers with the
  contents of the domain of \<open>s\<close>, \<^verbatim>\<open>new Square\<close> allocates an object that refers to it,
  and \<^verbatim>\<open>newSquares[i][j] = ...\<close> appends the reference to the row (\<open>j\<close> is the length
  of the row at that moment). \<open>copySquares_rows_h\<close> is the outer loop for the new board
  at address \<open>n\<close>: \<^verbatim>\<open>newSquares[i] = []\<close> allocates a row and appends its address.
  \<open>copySquares_h\<close> allocates \<^verbatim>\<open>newSquares = []\<close> and returns its address.
\<close>

fun copySquares_row_h :: "heap \<Rightarrow> nat \<Rightarrow> int \<Rightarrow> nat \<Rightarrow> int list \<Rightarrow> heap option" where
  "copySquares_row_h h a i r [] = Some h"
| "copySquares_row_h h a i r (j # js) =
     do { (s, d) \<leftarrow> read_sq_h h a i j;
          inner \<leftarrow> deref (arrays h) r;
          copySquares_row_h
            (h\<lparr>numbers := numbers h @ [d],
               objects := objects h @
                 [\<lparr>row_h = row_h s, col_h = col_h s, value_h = value_h s,
                   domain_h = length (numbers h)\<rparr>],
               arrays := (arrays h)[r := inner @ [length (objects h)]]\<rparr>)
            a i r js }"

fun copySquares_rows_h :: "heap \<Rightarrow> nat \<Rightarrow> nat \<Rightarrow> int list \<Rightarrow> int list \<Rightarrow> heap option" where
  "copySquares_rows_h h a n [] js = Some h"
| "copySquares_rows_h h a n (i # is) js =
     do { outer \<leftarrow> deref (arrays h) n;
          h1 \<leftarrow> copySquares_row_h
                 (h\<lparr>arrays := (arrays h @ [[]])[n := outer @ [length (arrays h)]]\<rparr>)
                 a i (length (arrays h)) js;
          copySquares_rows_h h1 a n is js }"

definition copySquares_h :: "heap \<Rightarrow> nat \<Rightarrow> (nat \<times> heap) option" where
  "copySquares_h h a =
     do { is \<leftarrow> length_h h a;
          h1 \<leftarrow> copySquares_rows_h (h\<lparr>arrays := arrays h @ [[]]\<rparr>) a (length (arrays h)) is is;
          Some (length (arrays h), h1) }"

text \<open>
  \<^verbatim>\<open>new SudokuCSP(squares, failure)\<close> (lines 27-30) stores a copy of the squares. The
  program never writes to a \<^verbatim>\<open>SudokuCSP\<close> object after that, so the object is a value
  here: the address of its squares and its flag.
\<close>

definition new_SudokuCSP_h :: "heap \<Rightarrow> nat \<Rightarrow> bool \<Rightarrow> (SudokuCSP_h \<times> heap) option" where
  "new_SudokuCSP_h h a f =
     do { (c, h1) \<leftarrow> copySquares_h h a; Some (\<lparr>squares_h = c, failure_h = f\<rparr>, h1) }"

text \<open>
  \<^verbatim>\<open>updateDomains\<close> (lines 171-239). \<^verbatim>\<open>splice\<close> changes the array of numbers in
  place (\<open>prune_h\<close>); \<^verbatim>\<open>squares[row][col].domain = [newValue]\<close> (line 184) allocates
  an array and stores its address in the object.
\<close>

definition prune_h :: "heap \<Rightarrow> nat \<Rightarrow> int \<Rightarrow> int \<Rightarrow> int \<Rightarrow> bool \<Rightarrow> heap option" where
  "prune_h h a i j newValue skip =
     do { (s, d) \<leftarrow> read_sq_h h a i j;
          let index = indexOf d newValue;
          if index \<noteq> -1 \<and> \<not> skip
          then Some (h\<lparr>numbers := (numbers h)[domain_h s := splice1 d index]\<rparr>)
          else Some h }"

fun updateDomains_rowcol_h ::
  "heap \<Rightarrow> nat \<Rightarrow> int \<Rightarrow> int \<Rightarrow> int \<Rightarrow> int list \<Rightarrow> (bool \<times> heap) option" where
  "updateDomains_rowcol_h h a rw cl newValue [] = Some (True, h)"
| "updateDomains_rowcol_h h a rw cl newValue (i # is) =
     do { h1 \<leftarrow> prune_h h a rw i newValue (i = cl);
          h2 \<leftarrow> prune_h h1 a i cl newValue (i = rw);
          (s1, d1) \<leftarrow> read_sq_h h2 a rw i;
          (s2, d2) \<leftarrow> read_sq_h h2 a i cl;
          if length d1 = 0 \<or> length d2 = 0 then Some (False, h2)
          else updateDomains_rowcol_h h2 a rw cl newValue is }"

fun updateDomains_box_h ::
  "heap \<Rightarrow> nat \<Rightarrow> int \<Rightarrow> int \<Rightarrow> int \<Rightarrow> (int \<times> int) list \<Rightarrow> (bool \<times> heap) option" where
  "updateDomains_box_h h a rw cl newValue [] = Some (True, h)"
| "updateDomains_box_h h a rw cl newValue ((i, j) # ps) =
     do { h1 \<leftarrow> prune_h h a i j newValue (i = rw \<and> j = cl);
          (s, d) \<leftarrow> read_sq_h h1 a i j;
          if length d = 0 then Some (False, h1)
          else updateDomains_box_h h1 a rw cl newValue ps }"

definition updateDomains_h :: "heap \<Rightarrow> nat \<Rightarrow> int \<Rightarrow> int \<Rightarrow> (bool \<times> heap) option" where
  "updateDomains_h h a rw cl =
     do { q \<leftarrow> get_sq_h h a rw cl; s \<leftarrow> deref (objects h) q;
          let newValue = value_h s;
          if newValue = 0 then Some (True, h)
          else do {
            let h1 = h\<lparr>numbers := numbers h @ [[newValue]],
                       objects := (objects h)[q := s\<lparr>domain_h := length (numbers h)\<rparr>]\<rparr>;
            is \<leftarrow> length_h h1 a;
            (continue, h2) \<leftarrow> updateDomains_rowcol_h h1 a rw cl newValue is;
            if \<not> continue then Some (False, h2)
            else (let r = box_start rw; c = box_start cl
                  in updateDomains_box_h h2 a rw cl newValue
                       (List.product [r, r + 1, r + 2] [c, c + 1, c + 2])) } }"

fun updateAllDomains_loop_h :: "heap \<Rightarrow> nat \<Rightarrow> (int \<times> int) list \<Rightarrow> (bool \<times> heap) option" where
  "updateAllDomains_loop_h h a [] = Some (True, h)"
| "updateAllDomains_loop_h h a ((i, j) # ps) =
     do { (valid, h1) \<leftarrow> updateDomains_h h a i j;
          if \<not> valid then Some (False, h1) else updateAllDomains_loop_h h1 a ps }"

definition updateAllDomains_h :: "heap \<Rightarrow> nat \<Rightarrow> (bool \<times> heap) option" where
  "updateAllDomains_h h a =
     do { is \<leftarrow> length_h h a; updateAllDomains_loop_h h a (List.product is is) }"

text \<open>
  The loop body of \<^verbatim>\<open>backtrack\<close> up to \<^verbatim>\<open>updateDomains\<close> (lines 73-85), for the board
  at address \<open>a\<close>, the chosen square (an object of that board) and the index \<open>i\<close>:
  the copy (line 73); \<^verbatim>\<open>value = square.domain[i]\<close> (line 77), read from the store
  after the copy; the write \<^verbatim>\<open>newSquares[square.row][square.col].value = value\<close>
  (line 81); and \<^verbatim>\<open>updateDomains\<close> with \<^verbatim>\<open>square.row\<close> and \<^verbatim>\<open>square.col\<close> read
  once more (line 85). The loop condition has found \<open>i\<close> inside the array; an index
  outside it gives \<open>None\<close>.
\<close>

definition trial_h :: "heap \<Rightarrow> nat \<Rightarrow> nat \<Rightarrow> nat \<Rightarrow> (bool \<times> nat \<times> heap) option" where
  "trial_h h a square i =
     do { (newSquares, h1) \<leftarrow> copySquares_h h a;
          sq \<leftarrow> deref (objects h1) square;
          d \<leftarrow> deref (numbers h1) (domain_h sq);
          v \<leftarrow> (if i < length d then Some (d ! i) else None);
          q \<leftarrow> get_sq_h h1 newSquares (row_h sq) (col_h sq);
          s \<leftarrow> deref (objects h1) q;
          let h2 = h1\<lparr>objects := (objects h1)[q := s\<lparr>value_h := v\<rparr>]\<rparr>;
          sq2 \<leftarrow> deref (objects h2) square;
          (success, h3) \<leftarrow> updateDomains_h h2 newSquares (row_h sq2) (col_h sq2);
          Some (success, newSquares, h3) }"

text \<open>
  \<^verbatim>\<open>backtrack\<close> (lines 57-105). The fuel counts the calls of \<open>backtrack_h\<close> and the
  iterations of the loop. \<open>backtrack_loop_h\<close> is the \<^verbatim>\<open>for\<close> loop at the index \<open>i\<close>:
  it reads \<^verbatim>\<open>square.domain\<close> from the store in every iteration, as the condition
  \<^verbatim>\<open>i < square.domain.length\<close> and line 77 do; after the last candidate it returns
  \<^verbatim>\<open>new SudokuCSP(sudoku.squares, true)\<close> (line 104).
\<close>

fun backtrack_h :: "nat \<Rightarrow> heap \<Rightarrow> SudokuCSP_h \<Rightarrow> (SudokuCSP_h \<times> heap) option"
and backtrack_loop_h ::
  "nat \<Rightarrow> heap \<Rightarrow> SudokuCSP_h \<Rightarrow> nat \<Rightarrow> nat \<Rightarrow> (SudokuCSP_h \<times> heap) option" where
  "backtrack_h 0 h sudoku = None"
| "backtrack_h (Suc n) h sudoku =
     do { full \<leftarrow> isFull_h h (squares_h sudoku);
          if full then Some (sudoku, h)
          else do { (square, h1) \<leftarrow> getEmptySquare_h h (squares_h sudoku);
                    backtrack_loop_h n h1 sudoku square 0 } }"
| "backtrack_loop_h 0 h sudoku square i = None"
| "backtrack_loop_h (Suc n) h sudoku square i =
     do { sq \<leftarrow> deref (objects h) square;
          d \<leftarrow> deref (numbers h) (domain_h sq);
          if i < length d
          then do { (success, newSquares, h1) \<leftarrow> trial_h h (squares_h sudoku) square i;
                    if success
                    then do { (next, h2) \<leftarrow> new_SudokuCSP_h h1 newSquares False;
                              (result, h3) \<leftarrow> backtrack_h n h2 next;
                              if \<not> failure_h result then Some (result, h3)
                              else backtrack_loop_h n h3 sudoku square (Suc i) }
                    else backtrack_loop_h n h1 sudoku square (Suc i) }
          else new_SudokuCSP_h h (squares_h sudoku) True }"

text \<open>\<^verbatim>\<open>solve\<close> (lines 38-47); the result of \<^verbatim>\<open>updateAllDomains\<close> is not used.\<close>

definition solve_h :: "nat \<Rightarrow> heap \<Rightarrow> nat \<Rightarrow> (SudokuCSP_h \<times> heap) option" where
  "solve_h fuel h a =
     do { (newSquares, h1) \<leftarrow> copySquares_h h a;
          (valid, h2) \<leftarrow> updateAllDomains_h h1 newSquares;
          (start, h3) \<leftarrow> new_SudokuCSP_h h2 newSquares False;
          backtrack_h fuel h3 start }"

subsection \<open>What a caller reads from the store\<close>

text \<open>
  The board that the nested loops over \<^verbatim>\<open>squares.length\<close> read at address \<open>a\<close>: the
  fields of every \<^verbatim>\<open>squares[i][j]\<close> and the contents of its domain array.
\<close>

definition view_sq_h :: "heap \<Rightarrow> nat \<Rightarrow> int \<Rightarrow> int \<Rightarrow> Square option" where
  "view_sq_h h a i j =
     map_option (\<lambda>(s, d). \<lparr>row = row_h s, col = col_h s, value = value_h s, domain = d\<rparr>)
       (read_sq_h h a i j)"

definition view_h :: "heap \<Rightarrow> nat \<Rightarrow> board option" where
  "view_h h a =
     do { is \<leftarrow> length_h h a;
          those (map (\<lambda>i. those (map (\<lambda>j. view_sq_h h a i j) is)) is) }"

text \<open>
  A store that holds the 9x9 board \<open>b\<close> and nothing else, with the shape of the grid
  that \<^verbatim>\<open>controller.js\<close> (lines 24-34) builds: one object and one domain array for
  every square (both at the address \<open>9 * i + j\<close> of their lists), the rows at the
  addresses \<open>0 .. 8\<close> and the board at the address 9.
\<close>

definition heap_of_board :: "board \<Rightarrow> heap" where
  "heap_of_board b =
     \<lparr>arrays = map (\<lambda>i. map (\<lambda>j. 9 * i + j) [0..<9]) [0..<9] @ [[0..<9]],
      objects = map (\<lambda>(k, s). \<lparr>row_h = row s, col_h = col s, value_h = value s, domain_h = k\<rparr>)
                  (enumerate 0 (concat b)),
      numbers = map domain (concat b)\<rparr>"


section \<open>Boards, peers and solved grids\<close>

subsection \<open>Well-formed boards\<close>

text \<open>A board of nine rows of nine squares.\<close>

definition shape9 :: "board \<Rightarrow> bool" where
  "shape9 sqs \<longleftrightarrow> length sqs = 9 \<and> list_all (\<lambda>r. length r = 9) sqs"

definition all_squares :: "(Square \<Rightarrow> bool) \<Rightarrow> board \<Rightarrow> bool" where
  "all_squares P sqs = list_all (list_all P) sqs"

text \<open>No domain lists a value twice.\<close>

definition distinct_domains :: "board \<Rightarrow> bool" where
  "distinct_domains sqs = all_squares (\<lambda>s. distinct (domain s)) sqs"

text \<open>The square at \<open>(i, j)\<close> carries \<open>row = i\<close> and \<open>col = j\<close>.\<close>

definition positions_ok :: "board \<Rightarrow> bool" where
  "positions_ok sqs =
     list_all (\<lambda>(i, r). list_all (\<lambda>(j, q). row q = int i \<and> col q = int j) (enumerate 0 r))
       (enumerate 0 sqs)"

text \<open>A value in \<open>[0, 9]\<close> and a domain of distinct digits \<open>1 .. 9\<close>.\<close>

definition wf_square :: "Square \<Rightarrow> bool" where
  "wf_square q \<longleftrightarrow> 0 \<le> value q \<and> value q \<le> 9 \<and> distinct (domain q)
     \<and> list_all (\<lambda>d. 1 \<le> d \<and> d \<le> 9) (domain q)"

definition wf_board :: "board \<Rightarrow> bool" where
  "wf_board sqs \<longleftrightarrow> shape9 sqs \<and> positions_ok sqs \<and> all_squares wf_square sqs"

text \<open>The squares as \<^verbatim>\<open>controller.js\<close> hands them to \<^verbatim>\<open>solve\<close>.\<close>

definition input_square :: "Square \<Rightarrow> bool" where
  "input_square q \<longleftrightarrow> 0 \<le> value q \<and> value q \<le> 9 \<and> domain q = [1, 2, 3, 4, 5, 6, 7, 8, 9]"

definition wf_input :: "board \<Rightarrow> bool" where
  "wf_input sqs \<longleftrightarrow> shape9 sqs \<and> positions_ok sqs \<and> all_squares input_square sqs"

definition values_of :: "board \<Rightarrow> int list list" where
  "values_of sqs = map (map value) sqs"

definition count_empty :: "board \<Rightarrow> nat" where
  "count_empty sqs = length (filter (\<lambda>q. value q = 0) (concat sqs))"

text \<open>Every square holds a digit: what \<^verbatim>\<open>isFull\<close> computes on a 9x9 board.\<close>

definition no_zero :: "board \<Rightarrow> bool" where
  "no_zero sqs = all_squares (\<lambda>q. value q \<noteq> 0) sqs"

text \<open>Every square that is nonzero in \<open>a\<close> holds the same value in \<open>b\<close>.\<close>

definition keeps_givens :: "board \<Rightarrow> board \<Rightarrow> bool" where
  "keeps_givens a b \<longleftrightarrow>
     list_all (\<lambda>(i, j). value (a ! i ! j) = 0 \<or> value (b ! i ! j) = value (a ! i ! j))
       (List.product [0..<9] [0..<9])"

subsection \<open>Peers\<close>

text \<open>The other squares of the row, the column and the 3x3 box of \<open>(rw, cl)\<close>.\<close>

definition peers :: "nat \<Rightarrow> nat \<Rightarrow> (nat \<times> nat) list" where
  "peers rw cl =
     filter (\<lambda>(i, j). (i, j) \<noteq> (rw, cl) \<and>
                      (i = rw \<or> j = cl \<or> (i div 3 = rw div 3 \<and> j div 3 = cl div 3)))
       (List.product [0..<9] [0..<9])"

text \<open>
  The board that the complete pruning for the square \<open>(rw, cl)\<close> with value \<open>v\<close>
  leaves when no \<^verbatim>\<open>return false\<close> cuts it short: the domain of \<open>(rw, cl)\<close> is
  \<open>[v]\<close>; the first loop takes \<open>v\<close> once out of the domain of every other square of
  the row and of the column, and the second loop takes it once more out of the domain of
  every other square of the box (\<open>remove1\<close> removes the first occurrence, as
  \<^verbatim>\<open>indexOf\<close> and \<^verbatim>\<open>splice\<close> do; in a domain that lists no value twice the second
  removal changes nothing).
\<close>

definition pruned :: "board \<Rightarrow> nat \<Rightarrow> nat \<Rightarrow> board" where
  "pruned sqs rw cl =
     (let v = value (sqs ! rw ! cl) in
      map (\<lambda>i. map (\<lambda>j.
        let q = sqs ! i ! j;
            d1 = (if i = rw \<or> j = cl then remove1 v (domain q) else domain q);
            d2 = (if i div 3 = rw div 3 \<and> j div 3 = cl div 3 then remove1 v d1 else d1)
        in if i = rw \<and> j = cl then q\<lparr>domain := [v]\<rparr> else q\<lparr>domain := d2\<rparr>) [0..<9]) [0..<9])"

subsection \<open>Solved grids\<close>

text \<open>A row, column or box that holds each digit \<open>1 .. 9\<close> exactly once.\<close>

definition complete_unit :: "int list \<Rightarrow> bool" where
  "complete_unit vs = list_all (\<lambda>d. count_list vs d = 1) [1, 2, 3, 4, 5, 6, 7, 8, 9]"

definition columns_of :: "int list list \<Rightarrow> int list list" where
  "columns_of g = map (\<lambda>j. map (\<lambda>i. g ! i ! j) [0..<9]) [0..<9]"

definition boxes_of :: "int list list \<Rightarrow> int list list" where
  "boxes_of g =
     map (\<lambda>(bi, bj). map (\<lambda>(i, j). g ! (3 * bi + i) ! (3 * bj + j)) (List.product [0..<3] [0..<3]))
       (List.product [0..<3] [0..<3])"

definition solved :: "int list list \<Rightarrow> bool" where
  "solved g \<longleftrightarrow> list_all complete_unit g \<and> list_all complete_unit (columns_of g)
     \<and> list_all complete_unit (boxes_of g)"

subsection \<open>Reading a result\<close>

definition returned :: "(bool \<times> board) option \<Rightarrow> bool option" where
  "returned r = map_option fst r"

definition domain_after :: "nat \<Rightarrow> nat \<Rightarrow> (bool \<times> board) option \<Rightarrow> int list option" where
  "domain_after i j r = map_option (\<lambda>(b, sqs). domain (sqs ! i ! j)) r"

definition result_failure :: "SudokuCSP option \<Rightarrow> bool option" where
  "result_failure r = map_option failure r"

definition result_values :: "SudokuCSP option \<Rightarrow> int list list option" where
  "result_values r = map_option (\<lambda>c. values_of (squares c)) r"

subsection \<open>Grids used as examples\<close>

text \<open>The scenario of the specification: row 0 starts with two fives.\<close>

definition grid_two_fives :: "int list list" where
  "grid_two_fives = [5, 5, 0, 0, 0, 0, 0, 0, 0] # replicate 8 (replicate 9 0)"

text \<open>
  A board with an emptied domain. Its row 0 is row 0 of the board that \<^verbatim>\<open>backtrack\<close>
  tries first for \<open>grid_two_fives\<close>: \<^verbatim>\<open>updateAllDomains\<close> has stopped at square
  \<open>(0, 1)\<close>, leaving square \<open>(0, 0)\<close> without a candidate, and the candidate 1 is
  written into the first empty square \<open>(0, 2)\<close>. In rows 1 to 8 every square has the
  full domain \<open>1 .. 9\<close> (on the board really reached, the squares of column 0 and of
  the first box have lost the 5).
\<close>

definition board_two_fives_trial :: "board" where
  "board_two_fives_trial =
     [ [\<lparr>row = 0, col = 0, value = 5, domain = []\<rparr>,
        \<lparr>row = 0, col = 1, value = 5, domain = [5]\<rparr>,
        \<lparr>row = 0, col = 2, value = 1, domain = [1, 2, 3, 4, 6, 7, 8, 9]\<rparr>,
        \<lparr>row = 0, col = 3, value = 0, domain = [1, 2, 3, 4, 6, 7, 8, 9]\<rparr>,
        \<lparr>row = 0, col = 4, value = 0, domain = [1, 2, 3, 4, 6, 7, 8, 9]\<rparr>,
        \<lparr>row = 0, col = 5, value = 0, domain = [1, 2, 3, 4, 6, 7, 8, 9]\<rparr>,
        \<lparr>row = 0, col = 6, value = 0, domain = [1, 2, 3, 4, 6, 7, 8, 9]\<rparr>,
        \<lparr>row = 0, col = 7, value = 0, domain = [1, 2, 3, 4, 6, 7, 8, 9]\<rparr>,
        \<lparr>row = 0, col = 8, value = 0, domain = [1, 2, 3, 4, 6, 7, 8, 9]\<rparr>],
       squares_of_row 1 [0, 0, 0, 0, 0, 0, 0, 0, 0],
       squares_of_row 2 [0, 0, 0, 0, 0, 0, 0, 0, 0],
       squares_of_row 3 [0, 0, 0, 0, 0, 0, 0, 0, 0],
       squares_of_row 4 [0, 0, 0, 0, 0, 0, 0, 0, 0],
       squares_of_row 5 [0, 0, 0, 0, 0, 0, 0, 0, 0],
       squares_of_row 6 [0, 0, 0, 0, 0, 0, 0, 0, 0],
       squares_of_row 7 [0, 0, 0, 0, 0, 0, 0, 0, 0],
       squares_of_row 8 [0, 0, 0, 0, 0, 0, 0, 0, 0] ]"

definition grid_all_ones :: "int list list" where
  "grid_all_ones = replicate 9 (replicate 9 1)"

text \<open>A solved grid, and the same grid with the 2 of square \<open>(0, 1)\<close> replaced by a second 1.\<close>

definition grid_solved :: "int list list" where
  "grid_solved =
     [[1, 2, 3, 4, 5, 6, 7, 8, 9], [4, 5, 6, 7, 8, 9, 1, 2, 3], [7, 8, 9, 1, 2, 3, 4, 5, 6],
      [2, 1, 4, 3, 6, 5, 8, 9, 7], [3, 6, 5, 8, 9, 7, 2, 1, 4], [8, 9, 7, 2, 1, 4, 3, 6, 5],
      [5, 3, 1, 6, 4, 2, 9, 7, 8], [6, 4, 2, 9, 7, 8, 5, 3, 1], [9, 7, 8, 5, 3, 1, 6, 4, 2]]"

definition grid_one_missing :: "int list list" where
  "grid_one_missing = grid_solved[0 := [0, 2, 3, 4, 5, 6, 7, 8, 9]]"

definition grid_row_duplicate :: "int list list" where
  "grid_row_duplicate = grid_solved[0 := [1, 1, 3, 4, 5, 6, 7, 8, 9]]"

subsection \<open>Boards in the store\<close>

text \<open>
  Everything that is in the store \<open>h\<close> is in \<open>h'\<close> at the same address and with the
  same contents: no array of references, no \<^verbatim>\<open>Square\<close> object and no array of numbers
  of \<open>h\<close> has been changed; \<open>h'\<close> may hold more objects.
\<close>

definition extends :: "heap \<Rightarrow> heap \<Rightarrow> bool" where
  "extends h h' \<longleftrightarrow> prefix (arrays h) (arrays h') \<and> prefix (objects h) (objects h')
     \<and> prefix (numbers h) (numbers h')"

text \<open>
  The address of the object \<^verbatim>\<open>squares[i][j]\<close> of the board at \<open>a\<close>, the address of
  its domain array, and the square that an object and its domain array hold.
\<close>

definition cell :: "heap \<Rightarrow> nat \<Rightarrow> nat \<Rightarrow> nat \<Rightarrow> nat" where
  "cell h a i j = arrays h ! (arrays h ! a ! i) ! j"

definition dref :: "heap \<Rightarrow> nat \<Rightarrow> nat \<Rightarrow> nat \<Rightarrow> nat" where
  "dref h a i j = domain_h (objects h ! cell h a i j)"

definition sq_of :: "heap \<Rightarrow> nat \<Rightarrow> Square" where
  "sq_of h q = \<lparr>row = row_h (objects h ! q), col = col_h (objects h ! q),
               value = value_h (objects h ! q),
               domain = numbers h ! domain_h (objects h ! q)\<rparr>"

text \<open>
  The store \<open>h\<close> holds the 9x9 board \<open>b\<close> at the address \<open>a\<close>: nine rows of nine
  references to objects in the store, whose fields and domain arrays are the squares of
  \<open>b\<close>; no two positions share an object or a domain array. This is how
  \<^verbatim>\<open>controller.js\<close> builds its grid and how \<^verbatim>\<open>copySquares\<close> builds every copy.
\<close>

definition repr :: "heap \<Rightarrow> nat \<Rightarrow> board \<Rightarrow> bool" where
  "repr h a b \<longleftrightarrow> shape9 b \<and> a < length (arrays h) \<and> length (arrays h ! a) = 9
     \<and> (\<forall>i<9. arrays h ! a ! i < length (arrays h) \<and> length (arrays h ! (arrays h ! a ! i)) = 9)
     \<and> (\<forall>i<9. \<forall>j<9. cell h a i j < length (objects h)
            \<and> domain_h (objects h ! cell h a i j) < length (numbers h)
            \<and> b ! i ! j = sq_of h (cell h a i j))
     \<and> (\<forall>i<9. \<forall>j<9. \<forall>i'<9. \<forall>j'<9.
            cell h a i j = cell h a i' j'
              \<or> domain_h (objects h ! cell h a i j) = domain_h (objects h ! cell h a i' j')
            \<longrightarrow> i = i' \<and> j = j')"

text \<open>
  The board at \<open>n\<close> in \<open>h'\<close> is made of objects that \<open>h\<close> does not have: the board
  array, its rows, its \<^verbatim>\<open>Square\<close> objects and their domain arrays all lie beyond the
  end of the lists of \<open>h\<close>.
\<close>

definition all_new :: "heap \<Rightarrow> heap \<Rightarrow> nat \<Rightarrow> bool" where
  "all_new h h' n \<longleftrightarrow> length (arrays h) \<le> n
     \<and> (\<forall>i<9. \<forall>j<9. length (arrays h) \<le> arrays h' ! n ! i
            \<and> length (objects h) \<le> cell h' n i j \<and> length (numbers h) \<le> dref h' n i j)"

text \<open>
  The boards at \<open>a\<close> and \<open>n\<close> have nothing in common: different board arrays,
  different rows, different \<^verbatim>\<open>Square\<close> objects, different domain arrays.
\<close>

definition separate :: "heap \<Rightarrow> nat \<Rightarrow> nat \<Rightarrow> bool" where
  "separate h a n \<longleftrightarrow> a \<noteq> n
     \<and> (\<forall>i<9. \<forall>i'<9. arrays h ! a ! i \<noteq> arrays h ! n ! i')
     \<and> (\<forall>i<9. \<forall>j<9. \<forall>i'<9. \<forall>j'<9.
           cell h a i j \<noteq> cell h n i' j' \<and> dref h a i j \<noteq> dref h n i' j')"

text \<open>
  The three writes of the program to a square of the board at \<open>a\<close>:
  \<^verbatim>\<open>squares[i][j].value = v\<close> (line 81, and \<^verbatim>\<open>controller.js\<close> lines 61 and 63); a
  change of the contents of the array \<^verbatim>\<open>squares[i][j].domain\<close> in place, to \<open>xs\<close>
  (\<^verbatim>\<open>splice\<close> in lines 194, 201 and 227, \<^verbatim>\<open>push\<close> in \<^verbatim>\<open>controller.js\<close> line 31); and
  \<^verbatim>\<open>squares[i][j].domain = xs\<close> with a new array (line 184).
\<close>

definition set_value_h :: "heap \<Rightarrow> nat \<Rightarrow> nat \<Rightarrow> nat \<Rightarrow> int \<Rightarrow> heap" where
  "set_value_h h a i j v =
     h\<lparr>objects := (objects h)[cell h a i j := (objects h ! cell h a i j)\<lparr>value_h := v\<rparr>]\<rparr>"

definition write_domain_h :: "heap \<Rightarrow> nat \<Rightarrow> nat \<Rightarrow> nat \<Rightarrow> int list \<Rightarrow> heap" where
  "write_domain_h h a i j xs = h\<lparr>numbers := (numbers h)[dref h a i j := xs]\<rparr>"

definition assign_domain_h :: "heap \<Rightarrow> nat \<Rightarrow> nat \<Rightarrow> nat \<Rightarrow> int list \<Rightarrow> heap" where
  "assign_domain_h h a i j xs =
     h\<lparr>numbers := numbers h @ [xs],
       objects := (objects h)[cell h a i j :=
                    (objects h ! cell h a i j)\<lparr>domain_h := length (numbers h)\<rparr>]\<rparr>"

text \<open>
  Whatever is written to a square of the board at \<open>w\<close>, the board at \<open>u\<close> is still
  \<open>b\<close>.
\<close>

definition unaffected :: "heap \<Rightarrow> nat \<Rightarrow> nat \<Rightarrow> board \<Rightarrow> bool" where
  "unaffected h w u b \<longleftrightarrow>
     (\<forall>i<9. \<forall>j<9. \<forall>v xs. repr (set_value_h h w i j v) u b
         \<and> repr (write_domain_h h w i j xs) u b \<and> repr (assign_domain_h h w i j xs) u b)"



section \<open>Auxiliary notions of the proofs\<close>

text \<open>Square \<open>(i, j)\<close> replaced by \<open>f\<close> of it.\<close>

definition upd_sq :: "board \<Rightarrow> nat \<Rightarrow> nat \<Rightarrow> (Square \<Rightarrow> Square) \<Rightarrow> board" where
  "upd_sq s i j f = s[i := (s ! i)[j := f (s ! i ! j)]]"

text \<open>The board with \<open>v\<close> removed from the domains of the squares in \<open>M\<close>.\<close>

definition prune_set :: "int \<Rightarrow> (nat \<times> nat) set \<Rightarrow> board \<Rightarrow> board" where
  "prune_set v M sqs =
     map (\<lambda>i. map (\<lambda>j. if (i, j) \<in> M
                         then (sqs ! i ! j)\<lparr>domain := remove1 v (domain (sqs ! i ! j))\<rparr>
                         else sqs ! i ! j) [0..<9]) [0..<9]"

definition assign_domain :: "board \<Rightarrow> nat \<Rightarrow> nat \<Rightarrow> int \<Rightarrow> board" where
  "assign_domain s rw cl v = upd_sq s rw cl (\<lambda>q. q\<lparr>domain := [v]\<rparr>)"

text \<open>The squares the row and column loop prunes while \<open>i\<close> runs through \<open>is\<close>.\<close>

definition rc_cells :: "nat \<Rightarrow> nat \<Rightarrow> nat list \<Rightarrow> (nat \<times> nat) set" where
  "rc_cells rw cl is = {(rw, i) | i. i \<in> set is \<and> i \<noteq> cl} \<union> {(i, cl) | i. i \<in> set is \<and> i \<noteq> rw}"

definition int_pair :: "nat \<times> nat \<Rightarrow> int \<times> int" where
  "int_pair p = (int (fst p), int (snd p))"

definition box_of :: "nat \<Rightarrow> nat \<Rightarrow> (nat \<times> nat) list" where
  "box_of rw cl =
     List.product [3 * (rw div 3), 3 * (rw div 3) + 1, 3 * (rw div 3) + 2]
                  [3 * (cl div 3), 3 * (cl div 3) + 1, 3 * (cl div 3) + 2]"

text \<open>What \<^verbatim>\<open>backtrack\<close> guarantees about the result \<open>r\<close> for a board \<open>s\<close>.\<close>

definition backtrack_post :: "board \<Rightarrow> SudokuCSP \<Rightarrow> bool" where
  "backtrack_post s r \<longleftrightarrow> shape9 (squares r) \<and> keeps_givens s (squares r)
     \<and> (if failure r then squares r = s else no_zero (squares r))"

subsection \<open>Invariants of the functions on the store\<close>

text \<open>
  Every square of the board at \<open>a\<close> is an object at an address from \<open>n\<close> on, with a
  domain array at an address from \<open>m\<close> on.
\<close>

definition fresh_board :: "nat \<Rightarrow> nat \<Rightarrow> heap \<Rightarrow> nat \<Rightarrow> bool" where
  "fresh_board n m h a \<longleftrightarrow>
     m \<le> length (numbers h) \<and>
     (\<forall>outer r inner q. deref (arrays h) a = Some outer \<longrightarrow> r \<in> set outer \<longrightarrow>
        deref (arrays h) r = Some inner \<longrightarrow> q \<in> set inner \<longrightarrow>
        n \<le> q \<and> (\<forall>s. deref (objects h) q = Some s \<longrightarrow> m \<le> domain_h s))"

text \<open>Only objects from \<open>n\<close> on and arrays of numbers from \<open>m\<close> on differ.\<close>

definition above :: "nat \<Rightarrow> nat \<Rightarrow> heap \<Rightarrow> heap \<Rightarrow> bool" where
  "above n m h h' \<longleftrightarrow> arrays h' = arrays h
     \<and> length (objects h) \<le> length (objects h') \<and> take n (objects h') = take n (objects h)
     \<and> length (numbers h) \<le> length (numbers h') \<and> take m (numbers h') = take m (numbers h)"

text \<open>The state of \<^verbatim>\<open>copySquares\<close> while it builds the board at \<open>n\<close>.\<close>

definition building :: "heap \<Rightarrow> nat \<Rightarrow> heap \<Rightarrow> bool" where
  "building h0 n h \<longleftrightarrow> extends h0 h \<and> length (arrays h0) \<le> n \<and> n < length (arrays h)
     \<and> (\<forall>r\<in>set (arrays h ! n). length (arrays h0) \<le> r \<and> r < length (arrays h) \<and> r \<noteq> n
           \<and> (\<forall>q\<in>set (arrays h ! r). length (objects h0) \<le> q \<and> q < length (objects h)
                 \<and> length (numbers h0) \<le> domain_h (objects h ! q)))"

definition obj_view :: "heap \<Rightarrow> nat \<Rightarrow> Square option" where
  "obj_view h q =
     do { s \<leftarrow> deref (objects h) q; d \<leftarrow> deref (numbers h) (domain_h s);
          Some \<lparr>row = row_h s, col = col_h s, value = value_h s, domain = d\<rparr> }"

definition in_range :: "int \<Rightarrow> int \<Rightarrow> bool" where
  "in_range i j \<longleftrightarrow> 0 \<le> i \<and> i < 9 \<and> 0 \<le> j \<and> j < 9"

text \<open>
  The relations between what a function on the store returns and what the function on
  boards returns.
\<close>

definition ret_rel :: "nat \<Rightarrow> bool \<times> heap \<Rightarrow> bool \<times> board \<Rightarrow> bool" where
  "ret_rel a x y \<longleftrightarrow> fst x = fst y \<and> repr (snd x) a (snd y)"

definition sq_rel :: "heap \<Rightarrow> nat \<Rightarrow> board \<Rightarrow> nat \<times> heap \<Rightarrow> Square \<Rightarrow> bool" where
  "sq_rel h a b x s \<longleftrightarrow> repr (snd x) a b \<and> extends h (snd x)
     \<and> fst x < length (objects (snd x))
     \<and> domain_h (objects (snd x) ! fst x) < length (numbers (snd x))
     \<and> sq_of (snd x) (fst x) = s"

definition trial_rel :: "heap \<Rightarrow> bool \<times> nat \<times> heap \<Rightarrow> bool \<times> board \<Rightarrow> bool" where
  "trial_rel h x y \<longleftrightarrow> fst x = fst y \<and> repr (snd (snd x)) (fst (snd x)) (snd y)
     \<and> extends h (snd (snd x))"

definition res_rel :: "heap \<Rightarrow> SudokuCSP_h \<times> heap \<Rightarrow> SudokuCSP \<Rightarrow> bool" where
  "res_rel h x r \<longleftrightarrow> repr (snd x) (squares_h (fst x)) (squares r)
     \<and> failure_h (fst x) = failure r \<and> extends h (snd x)"

text \<open>
  The inner loop of \<^verbatim>\<open>copySquares\<close> after \<open>J\<close> squares of row \<open>k\<close>, for the row array
  at \<open>r\<close> and the store \<open>hs\<close> at the start of the row; and the outer loop after \<open>K\<close>
  rows, for the store \<open>h0\<close> at the call. New objects get increasing addresses.
\<close>

definition row_inv :: "heap \<Rightarrow> board \<Rightarrow> nat \<Rightarrow> heap \<Rightarrow> nat \<Rightarrow> nat \<Rightarrow> bool" where
  "row_inv hs b k h r J \<longleftrightarrow>
     arrays h = (arrays hs)[r := arrays h ! r] \<and> length (arrays h ! r) = J
     \<and> prefix (objects hs) (objects h) \<and> prefix (numbers hs) (numbers h)
     \<and> (\<forall>j<J. length (objects hs) \<le> arrays h ! r ! j \<and> arrays h ! r ! j < length (objects h)
           \<and> length (numbers hs) \<le> domain_h (objects h ! (arrays h ! r ! j))
           \<and> domain_h (objects h ! (arrays h ! r ! j)) < length (numbers h)
           \<and> sq_of h (arrays h ! r ! j) = b ! k ! j)
     \<and> (\<forall>j<J. \<forall>j'<J. j < j' \<longrightarrow> arrays h ! r ! j < arrays h ! r ! j'
           \<and> domain_h (objects h ! (arrays h ! r ! j)) < domain_h (objects h ! (arrays h ! r ! j')))"

definition outside :: "heap \<Rightarrow> nat \<Rightarrow> nat \<Rightarrow> bool" where
  "outside h a r \<longleftrightarrow> r < length (arrays h) \<and> r \<noteq> a \<and> r \<notin> set (arrays h ! a)"

definition copy_inv :: "heap \<Rightarrow> board \<Rightarrow> nat \<Rightarrow> heap \<Rightarrow> nat \<Rightarrow> bool" where
  "copy_inv h0 b n h K \<longleftrightarrow>
     n < length (arrays h) \<and> length (arrays h ! n) = K
     \<and> prefix (arrays h0) (arrays h) \<and> prefix (objects h0) (objects h)
     \<and> prefix (numbers h0) (numbers h)
     \<and> (\<forall>k<K. n < arrays h ! n ! k \<and> arrays h ! n ! k < length (arrays h)
            \<and> length (arrays h ! (arrays h ! n ! k)) = 9)
     \<and> (\<forall>k<K. \<forall>j<9. length (objects h0) \<le> cell h n k j \<and> cell h n k j < length (objects h)
            \<and> length (numbers h0) \<le> dref h n k j \<and> dref h n k j < length (numbers h)
            \<and> sq_of h (cell h n k j) = b ! k ! j)
     \<and> (\<forall>k<K. \<forall>k'<K. \<forall>j<9. \<forall>j'<9. k < k' \<or> (k = k' \<and> j < j') \<longrightarrow>
            cell h n k j < cell h n k' j' \<and> dref h n k j < dref h n k' j')"

text \<open>\<open>y\<close> is the value of \<open>x\<close> if \<open>x\<close> has one: more fuel does not change a result.\<close>

definition ole :: "'a option \<Rightarrow> 'a option \<Rightarrow> bool" where
  "ole x y \<longleftrightarrow> (\<forall>v. x = Some v \<longrightarrow> y = Some v)"

text \<open>
  What a result \<open>r\<close> of \<^verbatim>\<open>backtrack\<close> is, for the board at \<open>a\<close> in the store \<open>h\<close> at
  the call: with \<open>failure = true\<close> its squares are that board; with \<open>failure = false\<close>
  its squares are full.
\<close>

definition fail_post :: "heap \<Rightarrow> nat \<Rightarrow> SudokuCSP_h \<Rightarrow> heap \<Rightarrow> bool" where
  "fail_post h a r h' \<longleftrightarrow>
     (failure_h r \<longrightarrow> (\<forall>b. repr h a b \<longrightarrow> repr h' (squares_h r) b))
     \<and> (\<not> failure_h r \<longrightarrow> isFull_h h' (squares_h r) = Some True)"


section \<open>Facts about the board functions\<close>

lemma all_squares_nth:
  "shape9 s \<Longrightarrow> all_squares P s \<longleftrightarrow> (\<forall>i<9. \<forall>j<9. P (s ! i ! j))"
  by (simp add: all_squares_def shape9_def list_all_length)

lemma distinct_domains_nth:
  "shape9 s \<Longrightarrow> distinct_domains s \<longleftrightarrow> (\<forall>i<9. \<forall>j<9. distinct (domain (s ! i ! j)))"
  by (simp add: distinct_domains_def all_squares_nth)

lemma shape9_nth: "shape9 s \<Longrightarrow> i < 9 \<Longrightarrow> length (s ! i) = 9"
  by (simp add: shape9_def list_all_length)

lemma shape9_length: "shape9 s \<Longrightarrow> length s = 9"
  by (simp add: shape9_def)

lemma board_eqI:
  assumes "shape9 a" "shape9 b" "\<And>i j. i < 9 \<Longrightarrow> j < 9 \<Longrightarrow> a ! i ! j = b ! i ! j"
  shows "a = b"
proof (rule nth_equalityI)
  show "length a = length b" using assms by (simp add: shape9_def)
next
  fix i assume "i < length a"
  then have i: "i < 9" using assms(1) by (simp add: shape9_def)
  show "a ! i = b ! i"
    by (rule nth_equalityI) (use i assms in \<open>simp_all add: shape9_nth\<close>)
qed

lemma shape9_upd_sq [simp]: "shape9 s \<Longrightarrow> shape9 (upd_sq s i j f)"
  by (cases "i < 9") (auto simp: shape9_def upd_sq_def list_all_length nth_list_update)

lemma upd_sq_nth [simp]:
  "shape9 s \<Longrightarrow> i < 9 \<Longrightarrow> j < 9 \<Longrightarrow> i' < 9 \<Longrightarrow> j' < 9 \<Longrightarrow>
   upd_sq s i j f ! i' ! j' = (if i' = i \<and> j' = j then f (s ! i ! j) else s ! i' ! j')"
  by (auto simp: upd_sq_def shape9_length shape9_nth nth_list_update)

lemma modify_sq_nat:
  "shape9 s \<Longrightarrow> i < 9 \<Longrightarrow> j < 9 \<Longrightarrow> modify_sq s (int i) (int j) f = Some (upd_sq s i j f)"
  by (simp add: modify_sq_def js_index_def upd_sq_def shape9_length shape9_nth)

lemma shape9_prune_set [simp]: "shape9 (prune_set v M s)"
  by (simp add: shape9_def prune_set_def list_all_length)

lemma prune_set_nth [simp]:
  "i < 9 \<Longrightarrow> j < 9 \<Longrightarrow>
   prune_set v M s ! i ! j =
     (if (i, j) \<in> M then (s ! i ! j)\<lparr>domain := remove1 v (domain (s ! i ! j))\<rparr> else s ! i ! j)"
  by (simp add: prune_set_def)

lemma prune_set_empty [simp]: "shape9 s \<Longrightarrow> prune_set v {} s = s"
  by (rule board_eqI) simp_all

lemma remove1_twice: "distinct d \<Longrightarrow> remove1 v (remove1 v d) = remove1 v d"
  by (simp add: remove1_idem)

lemma prune_set_twice:
  "shape9 s \<Longrightarrow> distinct_domains s \<Longrightarrow>
   prune_set v N (prune_set v M s) = prune_set v (M \<union> N) s"
  by (rule board_eqI) (auto simp: distinct_domains_nth remove1_twice)

lemma prune_set_disjoint:
  "shape9 s \<Longrightarrow> M \<inter> N = {} \<Longrightarrow> prune_set v N (prune_set v M s) = prune_set v (M \<union> N) s"
  by (rule board_eqI) auto

lemma distinct_domains_prune_set [simp]:
  "shape9 s \<Longrightarrow> distinct_domains s \<Longrightarrow> distinct_domains (prune_set v M s)"
  by (auto simp: distinct_domains_nth)

lemma get_sq_nat [simp]:
  "shape9 s \<Longrightarrow> i < 9 \<Longrightarrow> j < 9 \<Longrightarrow> get_sq s (int i) (int j) = Some (s ! i ! j)"
  by (simp add: get_sq_def js_index_def shape9_length shape9_nth)

lemma indexOf_ge: "indexOf xs v \<ge> -1"
  by (induction xs) (auto simp: Let_def)

lemma indexOf_notin: "indexOf xs v = -1 \<longleftrightarrow> v \<notin> set xs"
proof (induction xs)
  case Nil then show ?case by simp
next
  case (Cons x xs)
  with indexOf_ge [of xs v] show ?case by (auto simp: Let_def)
qed

lemma splice1_indexOf: "v \<in> set xs \<Longrightarrow> splice1 xs (indexOf xs v) = remove1 v xs"
proof (induction xs)
  case Nil then show ?case by simp
next
  case (Cons x xs)
  show ?case
  proof (cases "x = v")
    case True then show ?thesis by (simp add: splice1_def)
  next
    case False
    with Cons.prems have in_xs: "v \<in> set xs" by simp
    then have ne: "indexOf xs v \<noteq> -1" by (simp add: indexOf_notin)
    with indexOf_ge [of xs v] have ge: "0 \<le> indexOf xs v" by linarith
    have "nat (indexOf xs v + 1) = Suc (nat (indexOf xs v))" using ge by simp
    with Cons.IH [OF in_xs] False ne show ?thesis
      by (simp add: splice1_def Let_def)
  qed
qed

lemma prune_nat:
  assumes "shape9 s" "i < 9" "j < 9"
  shows "prune s (int i) (int j) v skip = Some (prune_set v (if skip then {} else {(i, j)}) s)"
proof (cases "v \<in> set (domain (s ! i ! j)) \<and> \<not> skip")
  case True
  have "upd_sq s i j (\<lambda>q. q\<lparr>domain := splice1 (domain q) (indexOf (domain (s ! i ! j)) v)\<rparr>)
        = prune_set v {(i, j)} s"
    using assms True by (intro board_eqI) (auto simp: splice1_indexOf)
  with True assms show ?thesis
    by (simp add: prune_def modify_sq_nat indexOf_notin splice1_indexOf)
next
  case False
  have "prune_set v {(i, j)} s = s" if "v \<notin> set (domain (s ! i ! j))"
    using assms that by (intro board_eqI) (auto simp: remove1_idem)
  with False assms show ?thesis
    by (auto simp: prune_def indexOf_notin)
qed

lemma rc_cells_Cons:
  "rc_cells rw cl (i # is) =
     (if i = cl then {} else {(rw, i)}) \<union> (if i = rw then {} else {(i, cl)}) \<union> rc_cells rw cl is"
  by (auto simp: rc_cells_def)

lemma rc_cells_row: "(rw, i) \<in> rc_cells rw cl is \<Longrightarrow> i \<noteq> cl"
  by (auto simp: rc_cells_def)

lemma rc_cells_col: "(i, cl) \<in> rc_cells rw cl is \<Longrightarrow> i \<noteq> rw"
  by (auto simp: rc_cells_def)

lemma updateDomains_rowcol_char:
  assumes "shape9 s" "distinct is" "rw < 9" "cl < 9" "\<forall>i\<in>set is. i < 9"
  shows "\<exists>b M. updateDomains_rowcol s (int rw) (int cl) v (map int is) = Some (b, prune_set v M s)
           \<and> M \<subseteq> rc_cells rw cl is \<and> (b \<longrightarrow> M = rc_cells rw cl is)
           \<and> (b \<longleftrightarrow> (\<forall>i\<in>set is. domain (prune_set v M s ! rw ! i) \<noteq> []
                              \<and> domain (prune_set v M s ! i ! cl) \<noteq> []))"
  using assms
proof (induction "is" arbitrary: s)
  case Nil
  then show ?case by (auto simp: rc_cells_def intro!: exI [of _ "{}"])
next
  case (Cons i "is")
  define M1 where "M1 = (if i = cl then {} else {(rw, i)})"
  define M2 where "M2 = (if i = rw then {} else {(i, cl)})"
  define M0 where "M0 = M1 \<union> M2"
  define s2 where "s2 = prune_set v M0 s"
  have i: "i < 9" using Cons.prems by simp
  have sh2: "shape9 s2"
    by (simp add: s2_def)
  have new: "i \<notin> set is" and dis: "distinct is" using Cons.prems(2) by simp_all
  have d12: "M1 \<inter> M2 = {}" by (auto simp: M1_def M2_def)
  have step: "updateDomains_rowcol s (int rw) (int cl) v (map int (i # is)) =
      (if domain (s2 ! rw ! i) = [] \<or> domain (s2 ! i ! cl) = [] then Some (False, s2)
       else updateDomains_rowcol s2 (int rw) (int cl) v (map int is))"
  proof -
    have p1: "prune s (int rw) (int i) v (int i = int cl) = Some (prune_set v M1 s)"
      using Cons.prems(1,3) i by (simp add: prune_nat M1_def)
    have p2: "prune (prune_set v M1 s) (int i) (int cl) v (int i = int rw) = Some s2"
    proof -
      have "prune (prune_set v M1 s) (int i) (int cl) v (int i = int rw)
          = Some (prune_set v M2 (prune_set v M1 s))"
        using Cons.prems(4) i by (simp add: prune_nat M2_def)
      also have "prune_set v M2 (prune_set v M1 s) = s2"
        using Cons.prems(1) d12 by (simp only: s2_def M0_def prune_set_disjoint)
      finally show ?thesis .
    qed
    have g1: "get_sq s2 (int rw) (int i) = Some (s2 ! rw ! i)"
      and g2: "get_sq s2 (int i) (int cl) = Some (s2 ! i ! cl)"
      using sh2 i Cons.prems(3,4) by (simp_all only: get_sq_nat)
    show ?thesis
      by (simp only: list.map updateDomains_rowcol.simps p1 p2 g1 g2 bind.bind_lunit
          length_0_conv)
  qed
  show ?case
  proof (cases "domain (s2 ! rw ! i) = [] \<or> domain (s2 ! i ! cl) = []")
    case True
    have res: "updateDomains_rowcol s (int rw) (int cl) v (map int (i # is))
          = Some (False, prune_set v M0 s)"
      using True by (simp only: step if_True s2_def)
    have sub: "M0 \<subseteq> rc_cells rw cl (i # is)"
      by (auto simp: M0_def M1_def M2_def rc_cells_Cons)
    have "\<not> (\<forall>i\<in>set (i # is). domain (prune_set v M0 s ! rw ! i) \<noteq> []
                              \<and> domain (prune_set v M0 s ! i ! cl) \<noteq> [])"
      using True unfolding s2_def by (auto simp del: prune_set_nth)
    with res sub show ?thesis
      by (intro exI [of _ False] exI [of _ M0]) (simp del: prune_set_nth)
  next
    case False
    have "\<forall>i\<in>set is. i < 9" using Cons.prems by simp
    from Cons.IH [OF sh2 dis \<open>rw < 9\<close> \<open>cl < 9\<close> this]
    obtain b M' where r: "updateDomains_rowcol s2 (int rw) (int cl) v (map int is)
          = Some (b, prune_set v M' s2)"
      and sub: "M' \<subseteq> rc_cells rw cl is" and full: "b \<longrightarrow> M' = rc_cells rw cl is"
      and chk: "b \<longleftrightarrow> (\<forall>i\<in>set is. domain (prune_set v M' s2 ! rw ! i) \<noteq> []
                              \<and> domain (prune_set v M' s2 ! i ! cl) \<noteq> [])"
      by blast
    have "M0 \<inter> M' = {}"
      using sub new by (auto simp: M0_def M1_def M2_def rc_cells_def)
    with Cons.prems(1) have fin: "prune_set v M' s2 = prune_set v (M0 \<union> M') s"
      by (simp only: s2_def prune_set_disjoint)
    have res: "updateDomains_rowcol s (int rw) (int cl) v (map int (i # is))
          = Some (b, prune_set v (M0 \<union> M') s)"
      using False by (simp only: step if_False r fin)
    have a: "(rw, i) \<in> M0 \<union> M' \<longleftrightarrow> (rw, i) \<in> M0"
      using sub rc_cells_row [of rw i cl "is"] by (auto simp: M0_def M1_def M2_def)
    have b: "(i, cl) \<in> M0 \<union> M' \<longleftrightarrow> (i, cl) \<in> M0"
      using sub rc_cells_col [of i cl rw "is"] by (auto simp: M0_def M1_def M2_def)
    have keep: "domain (prune_set v (M0 \<union> M') s ! rw ! i) = domain (s2 ! rw ! i)"
               "domain (prune_set v (M0 \<union> M') s ! i ! cl) = domain (s2 ! i ! cl)"
      using i \<open>rw < 9\<close> \<open>cl < 9\<close> a b by (simp_all add: s2_def)
    have c1: "M0 \<union> M' \<subseteq> rc_cells rw cl (i # is)"
      using sub by (auto simp: M0_def M1_def M2_def rc_cells_Cons)
    have c2: "b \<longrightarrow> M0 \<union> M' = rc_cells rw cl (i # is)"
      using full by (auto simp: M0_def M1_def M2_def rc_cells_Cons)
    have c3: "b \<longleftrightarrow> (\<forall>i\<in>set (i # is). domain (prune_set v (M0 \<union> M') s ! rw ! i) \<noteq> []
                              \<and> domain (prune_set v (M0 \<union> M') s ! i ! cl) \<noteq> [])"
      using chk False keep unfolding fin by (simp del: prune_set_nth)
    from res c1 c2 c3 show ?thesis
      by (intro exI [of _ b] exI [of _ "M0 \<union> M'"]) blast
  qed
qed

lemma updateDomains_box_char:
  assumes "shape9 s" "distinct ps" "\<forall>p\<in>set ps. fst p < 9 \<and> snd p < 9"
  shows "\<exists>b M. updateDomains_box s (int rw) (int cl) v (map int_pair ps) = Some (b, prune_set v M s)
           \<and> M \<subseteq> set ps - {(rw, cl)} \<and> (b \<longrightarrow> M = set ps - {(rw, cl)})
           \<and> (b \<longleftrightarrow> (\<forall>p\<in>set ps. domain (prune_set v M s ! fst p ! snd p) \<noteq> []))"
  using assms
proof (induction ps arbitrary: s)
  case Nil
  then show ?case by (auto intro!: exI [of _ "{}"])
next
  case (Cons p ps)
  obtain i j where p: "p = (i, j)" by (cases p)
  define M0 where "M0 = (if i = rw \<and> j = cl then {} else {(i, j)})"
  define s1 where "s1 = prune_set v M0 s"
  have ij: "i < 9" "j < 9" using Cons.prems p by simp_all
  have sh1: "shape9 s1"
    by (simp add: s1_def)
  have new: "p \<notin> set ps" and dis: "distinct ps" using Cons.prems(2) by simp_all
  have step: "updateDomains_box s (int rw) (int cl) v (map int_pair (p # ps)) =
      (if domain (s1 ! i ! j) = [] then Some (False, s1)
       else updateDomains_box s1 (int rw) (int cl) v (map int_pair ps))"
  proof -
    have p1: "prune s (int i) (int j) v (int i = int rw \<and> int j = int cl) = Some s1"
      using Cons.prems(1) ij by (simp add: prune_nat M0_def s1_def)
    have g1: "get_sq s1 (int i) (int j) = Some (s1 ! i ! j)"
      using sh1 ij by (simp only: get_sq_nat)
    have "map int_pair (p # ps) = (int i, int j) # map int_pair ps"
      by (simp add: p int_pair_def)
    then show ?thesis
      by (simp only: updateDomains_box.simps p1 g1 bind.bind_lunit length_0_conv)
  qed
  show ?case
  proof (cases "domain (s1 ! i ! j) = []")
    case True
    have res: "updateDomains_box s (int rw) (int cl) v (map int_pair (p # ps))
          = Some (False, prune_set v M0 s)"
      using True by (simp only: step if_True s1_def refl)
    have sub: "M0 \<subseteq> set (p # ps) - {(rw, cl)}"
      by (auto simp: M0_def p)
    have "\<not> (\<forall>p\<in>set (p # ps). domain (prune_set v M0 s ! fst p ! snd p) \<noteq> [])"
      using True unfolding s1_def p by (auto simp del: prune_set_nth)
    with res sub show ?thesis
      by (intro exI [of _ False] exI [of _ M0]) (simp del: prune_set_nth)
  next
    case False
    have "\<forall>p\<in>set ps. fst p < 9 \<and> snd p < 9" using Cons.prems by simp
    from Cons.IH [OF sh1 dis this]
    obtain b M' where r: "updateDomains_box s1 (int rw) (int cl) v (map int_pair ps)
          = Some (b, prune_set v M' s1)"
      and sub: "M' \<subseteq> set ps - {(rw, cl)}" and full: "b \<longrightarrow> M' = set ps - {(rw, cl)}"
      and chk: "b \<longleftrightarrow> (\<forall>p\<in>set ps. domain (prune_set v M' s1 ! fst p ! snd p) \<noteq> [])"
      by blast
    have "M0 \<inter> M' = {}"
      using sub new by (auto simp: M0_def p)
    with Cons.prems(1) have fin: "prune_set v M' s1 = prune_set v (M0 \<union> M') s"
      by (simp only: s1_def prune_set_disjoint)
    have res: "updateDomains_box s (int rw) (int cl) v (map int_pair (p # ps))
          = Some (b, prune_set v (M0 \<union> M') s)"
      using False by (simp only: step if_False r fin)
    have a: "(i, j) \<in> M0 \<union> M' \<longleftrightarrow> (i, j) \<in> M0"
      using sub by (auto simp: M0_def)
    have keep: "domain (prune_set v (M0 \<union> M') s ! i ! j) = domain (s1 ! i ! j)"
      using ij a by (simp add: s1_def)
    have c1: "M0 \<union> M' \<subseteq> set (p # ps) - {(rw, cl)}"
      using sub by (auto simp: M0_def p)
    have c2: "b \<longrightarrow> M0 \<union> M' = set (p # ps) - {(rw, cl)}"
      using full by (auto simp: M0_def p)
    have c3: "b \<longleftrightarrow> (\<forall>p\<in>set (p # ps). domain (prune_set v (M0 \<union> M') s ! fst p ! snd p) \<noteq> [])"
      using chk False keep unfolding fin p by (simp del: prune_set_nth)
    from res c1 c2 c3 show ?thesis
      by (intro exI [of _ b] exI [of _ "M0 \<union> M'"]) blast
  qed
qed

lemma lt9: "(rw::nat) < 9 \<Longrightarrow> rw \<in> {0, 1, 2, 3, 4, 5, 6, 7, 8}"
  by auto

lemma box_start_nat: "rw < 9 \<Longrightarrow> box_start (int rw) = int (3 * (rw div 3))"
  by (drule lt9) (auto simp: box_start_def)

lemma div3_bound: "i div 3 = rw div 3 \<Longrightarrow> rw < 9 \<Longrightarrow> i < (9::nat)"
  by (drule lt9) auto

lemma box_list:
  assumes "rw < 9" "cl < 9"
  shows "(let r = box_start (int rw); c = box_start (int cl)
          in List.product [r, r + 1, r + 2] [c, c + 1, c + 2]) = map int_pair (box_of rw cl)"
  by (simp add: box_start_nat assms box_of_def int_pair_def Let_def)

lemma triple_set: "set [3 * k, 3 * k + 1, 3 * k + 2] = {i::nat. i div 3 = k}"
  by auto

lemma set_box_of: "set (box_of rw cl) = {(i, j). i div 3 = rw div 3 \<and> j div 3 = cl div 3}"
  unfolding box_of_def set_product triple_set by auto

lemma box_of_bound:
  assumes "rw < 9" "cl < 9"
  shows "\<forall>p\<in>set (box_of rw cl). fst p < 9 \<and> snd p < 9"
  using assms unfolding set_box_of by (auto intro: div3_bound)

lemma set_peers:
  "set (peers rw cl) = {(i, j). i < 9 \<and> j < 9 \<and> (i, j) \<noteq> (rw, cl) \<and>
       (i = rw \<or> j = cl \<or> (i div 3 = rw div 3 \<and> j div 3 = cl div 3))}"
  by (auto simp: peers_def)

lemma peers_split:
  assumes "rw < 9" "cl < 9"
  shows "rc_cells rw cl [0..<9] \<union> (set (box_of rw cl) - {(rw, cl)}) = set (peers rw cl)"
proof -
  have "p \<in> set (box_of rw cl) \<Longrightarrow> fst p < 9 \<and> snd p < 9" for p
    using box_of_bound [OF assms] by blast
  then have box: "(i, j) \<in> set (box_of rw cl) \<longleftrightarrow>
      i < 9 \<and> j < 9 \<and> i div 3 = rw div 3 \<and> j div 3 = cl div 3" for i j
    by (auto simp: set_box_of)
  have rc: "(i, j) \<in> rc_cells rw cl [0..<9] \<longleftrightarrow>
      i < 9 \<and> j < 9 \<and> (i, j) \<noteq> (rw, cl) \<and> (i = rw \<or> j = cl)" for i j
    using assms by (auto simp: rc_cells_def)
  show ?thesis
  proof (rule set_eqI)
    fix p :: "nat \<times> nat"
    obtain i j where p: "p = (i, j)" by (cases p)
    show "p \<in> rc_cells rw cl [0..<9] \<union> (set (box_of rw cl) - {(rw, cl)})
       \<longleftrightarrow> p \<in> set (peers rw cl)"
      unfolding p Un_iff Diff_iff rc box set_peers by auto
  qed
qed

lemma shape9_assign_domain [simp]: "shape9 s \<Longrightarrow> shape9 (assign_domain s rw cl v)"
  by (simp add: assign_domain_def)

lemma assign_domain_nth [simp]:
  "shape9 s \<Longrightarrow> rw < 9 \<Longrightarrow> cl < 9 \<Longrightarrow> i < 9 \<Longrightarrow> j < 9 \<Longrightarrow>
   assign_domain s rw cl v ! i ! j =
     (if i = rw \<and> j = cl then (s ! rw ! cl)\<lparr>domain := [v]\<rparr> else s ! i ! j)"
  by (simp add: assign_domain_def)

lemma distinct_domains_assign_domain [simp]:
  "shape9 s \<Longrightarrow> distinct_domains s \<Longrightarrow> rw < 9 \<Longrightarrow> cl < 9 \<Longrightarrow>
   distinct_domains (assign_domain s rw cl v)"
  by (simp add: distinct_domains_nth)

lemma indices_shape9: "shape9 s \<Longrightarrow> indices s = map int [0..<9]"
  by (simp add: indices_def shape9_length)

lemma updateDomains_zero:
  "shape9 s \<Longrightarrow> rw < 9 \<Longrightarrow> cl < 9 \<Longrightarrow> value (s ! rw ! cl) = 0 \<Longrightarrow>
   updateDomains s (int rw) (int cl) = Some (True, s)"
  by (simp add: updateDomains_def)

lemma distinct_box_of: "distinct (box_of rw cl)"
  unfolding box_of_def by (intro distinct_product) simp_all

lemma updateDomains_char2:
  assumes sh: "shape9 s" and rw: "rw < 9" and cl: "cl < 9"
    and nz: "value (s ! rw ! cl) \<noteq> 0"
  defines "v \<equiv> value (s ! rw ! cl)"
  defines "s1 \<equiv> assign_domain s rw cl v"
  shows "\<exists>b M1 M2. updateDomains s (int rw) (int cl) = Some (b, prune_set v M2 (prune_set v M1 s1))
           \<and> M1 \<subseteq> rc_cells rw cl [0..<9] \<and> M2 \<subseteq> set (box_of rw cl) - {(rw, cl)}
           \<and> (b \<longrightarrow> M1 = rc_cells rw cl [0..<9] \<and> M2 = set (box_of rw cl) - {(rw, cl)})
           \<and> (b \<longleftrightarrow> (\<forall>p\<in>set (peers rw cl).
                  domain (prune_set v M2 (prune_set v M1 s1) ! fst p ! snd p) \<noteq> []))"
proof -
  have sh1: "shape9 s1"
    using sh rw cl by (simp_all add: s1_def)
  have own: "domain (prune_set v N (prune_set v M s1) ! rw ! cl) = [v]"
    if "(rw, cl) \<notin> M" "(rw, cl) \<notin> N" for M N
    using that sh rw cl by (simp add: s1_def)
  have notpeer: "(rw, cl) \<notin> set (peers rw cl)" by (simp add: set_peers)
  have bound9: "\<forall>i\<in>set [0..<9]. i < 9" by simp
  from updateDomains_rowcol_char [OF sh1 distinct_upt rw cl bound9, of v]
  obtain b1 M1 where r1: "updateDomains_rowcol s1 (int rw) (int cl) v (map int [0..<9])
        = Some (b1, prune_set v M1 s1)"
    and sub1: "M1 \<subseteq> rc_cells rw cl [0..<9]" and full1: "b1 \<longrightarrow> M1 = rc_cells rw cl [0..<9]"
    and chk1: "b1 \<longleftrightarrow> (\<forall>i\<in>set [0..<9]. domain (prune_set v M1 s1 ! rw ! i) \<noteq> []
                              \<and> domain (prune_set v M1 s1 ! i ! cl) \<noteq> [])"
    by blast
  define s2 where "s2 = prune_set v M1 s1"
  have sh2: "shape9 s2"
    by (simp add: s2_def)
  have unfold: "updateDomains s (int rw) (int cl) =
      (if \<not> b1 then Some (False, s2)
       else updateDomains_box s2 (int rw) (int cl) v (map int_pair (box_of rw cl)))"
  proof -
    have g: "get_sq s (int rw) (int cl) = Some (s ! rw ! cl)"
      using sh rw cl by (simp only: get_sq_nat)
    have m: "modify_sq s (int rw) (int cl) (\<lambda>q. q\<lparr>domain := [v]\<rparr>) = Some s1"
      using sh rw cl by (simp only: modify_sq_nat s1_def assign_domain_def)
    have i1: "indices s1 = map int [0..<9]" using sh1 by (rule indices_shape9)
    show ?thesis
      unfolding updateDomains_def g bind.bind_lunit Let_def v_def [symmetric]
      using nz by (simp only: v_def [symmetric] if_False m bind.bind_lunit i1 r1 s2_def
          prod.case box_list [OF rw cl, unfolded Let_def])
  qed
  have sub_rc: "rc_cells rw cl [0..<9] \<subseteq> set (peers rw cl)"
    using peers_split [OF rw cl] by blast
  have notM1: "(rw, cl) \<notin> M1" using sub1 sub_rc notpeer by blast
  show ?thesis
  proof (cases b1)
    case False
    have e2: "prune_set v {} s2 = s2" using sh2 by simp
    have res: "updateDomains s (int rw) (int cl) = Some (False, prune_set v {} (prune_set v M1 s1))"
      using False e2 by (simp only: unfold s2_def not_False_eq_True if_True)
    from False chk1 have "\<exists>i\<in>set [0..<9]. domain (s2 ! rw ! i) = [] \<or> domain (s2 ! i ! cl) = []"
      unfolding s2_def by blast
    then obtain i where i: "i < 9"
      and e: "domain (s2 ! rw ! i) = [] \<or> domain (s2 ! i ! cl) = []"
      unfolding set_upt by auto
    have o: "domain (s2 ! rw ! cl) = [v]"
      using own [OF notM1, of "{}"] e2 by (simp add: s2_def del: prune_set_nth)
    from e have "\<exists>p\<in>set (peers rw cl). domain (s2 ! fst p ! snd p) = []"
    proof
      assume a: "domain (s2 ! rw ! i) = []"
      with o have "i \<noteq> cl" by auto
      then have "(rw, i) \<in> set (peers rw cl)" using i rw by (simp add: set_peers)
      with a show ?thesis by (intro bexI [of _ "(rw, i)"]) simp_all
    next
      assume a: "domain (s2 ! i ! cl) = []"
      with o have "i \<noteq> rw" by auto
      then have "(i, cl) \<in> set (peers rw cl)" using i cl by (simp add: set_peers)
      with a show ?thesis by (intro bexI [of _ "(i, cl)"]) simp_all
    qed
    then have "\<not> (\<forall>p\<in>set (peers rw cl).
        domain (prune_set v {} (prune_set v M1 s1) ! fst p ! snd p) \<noteq> [])"
      using e2 unfolding s2_def by (simp del: prune_set_nth)
    with res sub1 show ?thesis
      by (intro exI [of _ False] exI [of _ M1] exI [of _ "{}"]) (simp del: prune_set_nth)
  next
    case True
    with full1 have M1: "M1 = rc_cells rw cl [0..<9]" by simp
    from updateDomains_box_char [OF sh2 distinct_box_of box_of_bound [OF rw cl], of rw cl v]
    obtain b2 M2 where r2: "updateDomains_box s2 (int rw) (int cl) v (map int_pair (box_of rw cl))
          = Some (b2, prune_set v M2 s2)"
      and sub2: "M2 \<subseteq> set (box_of rw cl) - {(rw, cl)}"
      and full2: "b2 \<longrightarrow> M2 = set (box_of rw cl) - {(rw, cl)}"
      and chk2: "b2 \<longleftrightarrow> (\<forall>p\<in>set (box_of rw cl). domain (prune_set v M2 s2 ! fst p ! snd p) \<noteq> [])"
      by blast
    have "updateDomains s (int rw) (int cl) = Some (b2, prune_set v M2 s2)"
      using True by (simp only: unfold not_True_eq_False if_False r2)
    then have res: "updateDomains s (int rw) (int cl)
        = Some (b2, prune_set v M2 (prune_set v M1 s1))"
      by (simp only: s2_def)
    have notM2: "(rw, cl) \<notin> M2" using sub2 by blast
    have o: "domain (prune_set v M2 s2 ! rw ! cl) = [v]"
      using own [OF notM1 notM2] by (simp only: s2_def)
    have c3: "b2 \<longleftrightarrow> (\<forall>p\<in>set (peers rw cl). domain (prune_set v M2 s2 ! fst p ! snd p) \<noteq> [])"
    proof
      assume b2
      with chk2 have box: "\<forall>p\<in>set (box_of rw cl).
          domain (prune_set v M2 s2 ! fst p ! snd p) \<noteq> []" by simp
      show "\<forall>p\<in>set (peers rw cl). domain (prune_set v M2 s2 ! fst p ! snd p) \<noteq> []"
      proof
        fix p assume p: "p \<in> set (peers rw cl)"
        show "domain (prune_set v M2 s2 ! fst p ! snd p) \<noteq> []"
        proof (cases "p \<in> set (box_of rw cl)")
          case True
          with box show ?thesis by blast
        next
          case False
          with p have rc: "p \<in> rc_cells rw cl [0..<9]"
            using peers_split [OF rw cl] by blast
          obtain i j where ij: "p = (i, j)" by (cases p)
          from p ij have b: "i < 9" "j < 9" by (simp_all add: set_peers)
          from False sub2 have "p \<notin> M2" by blast
          then have same: "domain (prune_set v M2 s2 ! i ! j) = domain (s2 ! i ! j)"
            using b ij by simp
          from rc ij have "(i = rw \<and> j < 9) \<or> (j = cl \<and> i < 9)"
            by (auto simp: rc_cells_def)
          with chk1 \<open>b1\<close> have "domain (s2 ! i ! j) \<noteq> []"
            unfolding s2_def by auto
          with same ij show ?thesis by simp
        qed
      qed
    next
      assume all: "\<forall>p\<in>set (peers rw cl). domain (prune_set v M2 s2 ! fst p ! snd p) \<noteq> []"
      have "\<forall>p\<in>set (box_of rw cl). domain (prune_set v M2 s2 ! fst p ! snd p) \<noteq> []"
      proof
        fix p assume p: "p \<in> set (box_of rw cl)"
        show "domain (prune_set v M2 s2 ! fst p ! snd p) \<noteq> []"
        proof (cases "p = (rw, cl)")
          case True
          with o show ?thesis by simp
        next
          case False
          with p have "p \<in> set (peers rw cl)" using peers_split [OF rw cl] by blast
          with all show ?thesis by blast
        qed
      qed
      with chk2 show b2 by simp
    qed
    from res sub1 sub2 full1 full2 c3 True show ?thesis
      unfolding s2_def by (intro exI [of _ b2] exI [of _ M1] exI [of _ M2]) blast
  qed
qed

lemma updateDomains_char:
  assumes sh: "shape9 s" and dd: "distinct_domains s" and rw: "rw < 9" and cl: "cl < 9"
    and nz: "value (s ! rw ! cl) \<noteq> 0"
  defines "v \<equiv> value (s ! rw ! cl)"
  defines "s1 \<equiv> assign_domain s rw cl v"
  shows "\<exists>b M. updateDomains s (int rw) (int cl) = Some (b, prune_set v M s1)
           \<and> M \<subseteq> set (peers rw cl) \<and> (b \<longrightarrow> M = set (peers rw cl))
           \<and> (b \<longleftrightarrow> (\<forall>p\<in>set (peers rw cl). domain (prune_set v M s1 ! fst p ! snd p) \<noteq> []))"
proof -
  have sh1: "shape9 s1" and dd1: "distinct_domains s1"
    using sh dd rw cl by (simp_all add: s1_def)
  from updateDomains_char2 [OF sh rw cl nz, folded v_def, folded s1_def]
  obtain b M1 M2 where
    r: "updateDomains s (int rw) (int cl) = Some (b, prune_set v M2 (prune_set v M1 s1))"
    and sub: "M1 \<subseteq> rc_cells rw cl [0..<9]" "M2 \<subseteq> set (box_of rw cl) - {(rw, cl)}"
    and full: "b \<longrightarrow> M1 = rc_cells rw cl [0..<9] \<and> M2 = set (box_of rw cl) - {(rw, cl)}"
    and chk: "b \<longleftrightarrow> (\<forall>p\<in>set (peers rw cl).
                  domain (prune_set v M2 (prune_set v M1 s1) ! fst p ! snd p) \<noteq> [])"
    by blast
  have fin: "prune_set v M2 (prune_set v M1 s1) = prune_set v (M1 \<union> M2) s1"
    using sh1 dd1 by (rule prune_set_twice)
  have c1: "M1 \<union> M2 \<subseteq> set (peers rw cl)"
    using sub peers_split [OF rw cl] by blast
  have c2: "b \<longrightarrow> M1 \<union> M2 = set (peers rw cl)"
    using full peers_split [OF rw cl] by blast
  from r chk c1 c2 show ?thesis
    unfolding fin by (intro exI [of _ b] exI [of _ "M1 \<union> M2"]) blast
qed

lemma shape9_pruned [simp]: "shape9 (pruned s rw cl)"
  by (simp add: pruned_def shape9_def list_all_length Let_def)

lemma rc_cells_upt:
  "rw < 9 \<Longrightarrow> cl < 9 \<Longrightarrow> i < 9 \<Longrightarrow> j < 9 \<Longrightarrow>
   (i, j) \<in> rc_cells rw cl [0..<9] \<longleftrightarrow> (i, j) \<noteq> (rw, cl) \<and> (i = rw \<or> j = cl)"
  by (auto simp: rc_cells_def)

lemma pruned_char:
  assumes "shape9 s" "rw < 9" "cl < 9"
  shows "pruned s rw cl =
     prune_set (value (s ! rw ! cl)) (set (box_of rw cl) - {(rw, cl)})
       (prune_set (value (s ! rw ! cl)) (rc_cells rw cl [0..<9])
          (assign_domain s rw cl (value (s ! rw ! cl))))"
proof (rule board_eqI)
  fix i j :: nat assume b: "i < 9" "j < 9"
  have l: "pruned s rw cl ! i ! j =
      (let v = value (s ! rw ! cl); q = s ! i ! j;
           d1 = (if i = rw \<or> j = cl then remove1 v (domain q) else domain q);
           d2 = (if i div 3 = rw div 3 \<and> j div 3 = cl div 3 then remove1 v d1 else d1)
       in if i = rw \<and> j = cl then q\<lparr>domain := [v]\<rparr> else q\<lparr>domain := d2\<rparr>)"
    using b by (simp add: pruned_def Let_def)
  show "pruned s rw cl ! i ! j =
     prune_set (value (s ! rw ! cl)) (set (box_of rw cl) - {(rw, cl)})
       (prune_set (value (s ! rw ! cl)) (rc_cells rw cl [0..<9])
          (assign_domain s rw cl (value (s ! rw ! cl)))) ! i ! j"
    unfolding l using assms b
    by (simp add: rc_cells_upt set_box_of Let_def)
qed simp_all

lemma prune_set_more_empty:
  assumes "M1 \<subseteq> A" "M2 \<subseteq> B" "i < 9" "j < 9"
    and "domain (prune_set v M2 (prune_set v M1 s) ! i ! j) = []"
  shows "domain (prune_set v B (prune_set v A s) ! i ! j) = []"
  using assms by (auto split: if_splits)

lemma positions_ok_nth:
  "shape9 s \<Longrightarrow> positions_ok s \<longleftrightarrow>
     (\<forall>i<9. \<forall>j<9. row (s ! i ! j) = int i \<and> col (s ! i ! j) = int j)"
  by (simp add: positions_ok_def list_all_length nth_enumerate_eq shape9_length shape9_nth)

lemma wf_board_nth:
  "wf_board s \<longleftrightarrow> shape9 s \<and>
     (\<forall>i<9. \<forall>j<9. row (s ! i ! j) = int i \<and> col (s ! i ! j) = int j \<and> wf_square (s ! i ! j))"
  using positions_ok_nth [of s] all_squares_nth [of s wf_square]
  by (auto simp: wf_board_def)

lemma wf_board_shape9: "wf_board s \<Longrightarrow> shape9 s"
  by (simp add: wf_board_def)

lemma wf_board_distinct: "wf_board s \<Longrightarrow> distinct_domains s"
  by (auto simp: wf_board_nth distinct_domains_nth wf_square_def)

lemma wf_input_wf_board: "wf_input s \<Longrightarrow> wf_board s"
  using all_squares_nth [of s input_square] all_squares_nth [of s wf_square]
  by (auto simp: wf_input_def wf_board_def input_square_def wf_square_def)

lemma values_of_eqI:
  assumes "shape9 a" "shape9 b" "\<And>i j. i < 9 \<Longrightarrow> j < 9 \<Longrightarrow> value (a ! i ! j) = value (b ! i ! j)"
  shows "values_of a = values_of b"
  unfolding values_of_def
proof (rule nth_equalityI)
  show "length (map (map value) a) = length (map (map value) b)"
    using assms by (simp add: shape9_length)
next
  fix i assume "i < length (map (map value) a)"
  then have i: "i < 9" using assms(1) by (simp add: shape9_length)
  have "map value (a ! i) = map value (b ! i)"
    by (rule nth_equalityI) (use i assms in \<open>simp_all add: shape9_nth\<close>)
  then show "map (map value) a ! i = map (map value) b ! i"
    using i assms by (simp add: shape9_length)
qed

lemma values_of_nth:
  "shape9 s \<Longrightarrow> i < 9 \<Longrightarrow> j < 9 \<Longrightarrow> values_of s ! i ! j = value (s ! i ! j)"
  by (simp add: values_of_def shape9_length shape9_nth)

lemma wf_square_remove1: "wf_square q \<Longrightarrow> wf_square (q\<lparr>domain := remove1 v (domain q)\<rparr>)"
  by (auto simp: wf_square_def list_all_iff dest: notin_set_remove1)

lemma wf_board_prune_set: "wf_board s \<Longrightarrow> wf_board (prune_set v M s)"
  by (auto simp: wf_board_nth wf_square_remove1)

lemma values_of_prune_set: "shape9 s \<Longrightarrow> values_of (prune_set v M s) = values_of s"
  by (rule values_of_eqI) simp_all

lemma wf_board_assign_domain:
  "wf_board s \<Longrightarrow> rw < 9 \<Longrightarrow> cl < 9 \<Longrightarrow> value (s ! rw ! cl) \<noteq> 0 \<Longrightarrow>
   wf_board (assign_domain s rw cl (value (s ! rw ! cl)))"
proof -
  assume a: "wf_board s" "rw < 9" "cl < 9" "value (s ! rw ! cl) \<noteq> 0"
  then have "wf_square (s ! rw ! cl)" by (simp add: wf_board_nth)
  with a(4) have "wf_square ((s ! rw ! cl)\<lparr>domain := [value (s ! rw ! cl)]\<rparr>)"
    by (simp add: wf_square_def)
  with a show ?thesis by (simp add: wf_board_nth)
qed

lemma values_of_assign_domain:
  "shape9 s \<Longrightarrow> rw < 9 \<Longrightarrow> cl < 9 \<Longrightarrow> values_of (assign_domain s rw cl v) = values_of s"
  by (rule values_of_eqI) simp_all

lemma updateDomains_wf:
  assumes "wf_board s" "rw < 9" "cl < 9"
  shows "\<exists>b s'. updateDomains s (int rw) (int cl) = Some (b, s') \<and> wf_board s'
           \<and> values_of s' = values_of s"
proof (cases "value (s ! rw ! cl) = 0")
  case True
  with assms have "updateDomains s (int rw) (int cl) = Some (True, s)"
    by (simp add: updateDomains_zero wf_board_shape9)
  with assms(1) show ?thesis by blast
next
  case False
  from updateDomains_char [OF wf_board_shape9 wf_board_distinct \<open>rw < 9\<close> \<open>cl < 9\<close> False] assms(1)
  obtain b M where "updateDomains s (int rw) (int cl)
      = Some (b, prune_set (value (s ! rw ! cl)) M (assign_domain s rw cl (value (s ! rw ! cl))))"
    by blast
  with assms False show ?thesis
    by (simp add: wf_board_prune_set wf_board_assign_domain values_of_prune_set
        values_of_assign_domain wf_board_shape9)
qed

lemma updateAllDomains_loop_wf:
  assumes "wf_board s" "\<forall>p\<in>set ps. fst p < 9 \<and> snd p < 9"
  shows "\<exists>b s'. updateAllDomains_loop s (map int_pair ps) = Some (b, s') \<and> wf_board s'
           \<and> values_of s' = values_of s"
  using assms
proof (induction ps arbitrary: s)
  case Nil
  have "updateAllDomains_loop s (map int_pair []) = Some (True, s)" by simp
  with Nil.prems(1) show ?case by blast
next
  case (Cons p ps)
  obtain i j where p: "p = (i, j)" by (cases p)
  with Cons.prems have ij: "i < 9" "j < 9" by simp_all
  from updateDomains_wf [OF Cons.prems(1) ij]
  obtain b s1 where u: "updateDomains s (int i) (int j) = Some (b, s1)" and wf1: "wf_board s1"
    and v1: "values_of s1 = values_of s" by blast
  have rest: "\<forall>p\<in>set ps. fst p < 9 \<and> snd p < 9" using Cons.prems by simp
  from Cons.IH [OF wf1 rest] obtain b' s' where
    r: "updateAllDomains_loop s1 (map int_pair ps) = Some (b', s')" and wf': "wf_board s'"
    and v': "values_of s' = values_of s1" by blast
  have m: "map int_pair (p # ps) = (int i, int j) # map int_pair ps"
    by (simp add: p int_pair_def)
  show ?case
  proof (cases b)
    case True
    with u r have "updateAllDomains_loop s (map int_pair (p # ps)) = Some (b', s')"
      unfolding m by simp
    with wf' v' v1 show ?thesis by auto
  next
    case False
    with u have "updateAllDomains_loop s (map int_pair (p # ps)) = Some (False, s1)"
      unfolding m by simp
    with wf1 v1 show ?thesis by blast
  qed
qed

lemma product_map_int: "List.product (map int xs) (map int ys) = map int_pair (List.product xs ys)"
  by (induction xs) (simp_all add: int_pair_def comp_def)

lemma cells_shape9: "shape9 s \<Longrightarrow> cells s = map int_pair (List.product [0..<9] [0..<9])"
  by (simp only: cells_def indices_shape9 product_map_int)

lemma all_cells_bound: "\<forall>p\<in>set (List.product [0..<9] [0..<9]). fst p < 9 \<and> snd p < 9"
  by auto

lemma updateAllDomains_wf:
  assumes "wf_board s"
  shows "\<exists>b s'. updateAllDomains s = Some (b, s') \<and> wf_board s' \<and> values_of s' = values_of s"
  unfolding updateAllDomains_def cells_shape9 [OF wf_board_shape9 [OF assms]]
  by (rule updateAllDomains_loop_wf [OF assms all_cells_bound])

lemma list_all_pairs:
  "list_all (\<lambda>(i, j). P i j) ps \<longleftrightarrow> (\<forall>p\<in>set ps. P (fst p) (snd p))"
  by (auto simp: list_all_iff)

lemma square_eta: "\<lparr>row = row q, col = col q, value = value q, domain = domain q\<rparr> = (q::Square)"
  by simp

lemma copySquares_row_char:
  assumes "shape9 s" "i < 9" "\<forall>j\<in>set js. j < 9"
  shows "copySquares_row s (int i) (map int js) = Some (map (\<lambda>j. s ! i ! j) js)"
  using assms(3)
proof (induction js)
  case Nil
  then show ?case by simp
next
  case (Cons j js)
  then show ?case using assms(1,2) by simp
qed

lemma copySquares_rows_char:
  assumes "shape9 s" "\<forall>i\<in>set is. i < 9"
  shows "copySquares_rows s (map int is) = Some (map (\<lambda>i. s ! i) is)"
  using assms(2)
proof (induction "is")
  case Nil
  then show ?case by simp
next
  case (Cons i "is")
  have "copySquares_row s (int i) (indices s) = Some (s ! i)"
    using copySquares_row_char [OF assms(1), of i "[0..<9]"] Cons.prems assms(1)
      map_nth [of "s ! i"]
    by (simp add: indices_shape9 shape9_nth del: upt.simps)
  with Cons show ?case by simp
qed

lemma copySquares_id: "shape9 s \<Longrightarrow> copySquares s = Some s"
  using copySquares_rows_char [of s "[0..<9]"] map_nth [of s]
  by (simp add: copySquares_def indices_shape9 shape9_length del: upt.simps)

lemma new_SudokuCSP_id: "shape9 s \<Longrightarrow> new_SudokuCSP s f = Some \<lparr>squares = s, failure = f\<rparr>"
  by (simp add: new_SudokuCSP_def copySquares_id)

lemma isFull_loop_char:
  assumes "shape9 s" "\<forall>p\<in>set ps. fst p < 9 \<and> snd p < 9"
  shows "isFull_loop s (map int_pair ps) = Some (\<forall>p\<in>set ps. value (s ! fst p ! snd p) \<noteq> 0)"
  using assms(2)
proof (induction ps)
  case Nil
  then show ?case by simp
next
  case (Cons p ps)
  obtain i j where p: "p = (i, j)" by (cases p)
  have m: "map int_pair (p # ps) = (int i, int j) # map int_pair ps"
    by (simp add: p int_pair_def)
  from Cons show ?case unfolding m using assms(1) by (auto simp: p)
qed

lemma isFull_char: "shape9 s \<Longrightarrow> isFull s = Some (no_zero s)"
proof -
  assume sh: "shape9 s"
  have "(\<forall>p\<in>set (List.product [0..<9] [0..<9]). value (s ! fst p ! snd p) \<noteq> 0) = no_zero s"
    using sh by (auto simp: no_zero_def all_squares_nth)
  with isFull_loop_char [OF sh all_cells_bound] show ?thesis
    by (simp only: isFull_def cells_shape9 [OF sh])
qed

lemma getEmptySquare_loop_char:
  assumes "shape9 s" "\<forall>p\<in>set ps. fst p < 9 \<and> snd p < 9"
    "\<exists>p\<in>set ps. value (s ! fst p ! snd p) = 0"
  shows "\<exists>i<9. \<exists>j<9. getEmptySquare_loop s (map int_pair ps) = Some (s ! i ! j)
            \<and> value (s ! i ! j) = 0"
  using assms(2,3)
proof (induction ps)
  case Nil
  then show ?case by simp
next
  case (Cons p ps)
  obtain i j where p: "p = (i, j)" by (cases p)
  have m: "map int_pair (p # ps) = (int i, int j) # map int_pair ps"
    by (simp add: p int_pair_def)
  from Cons.prems p have ij: "i < 9" "j < 9" by simp_all
  show ?case
  proof (cases "value (s ! i ! j) = 0")
    case True
    then have "getEmptySquare_loop s (map int_pair (p # ps)) = Some (s ! i ! j)"
      unfolding m using assms(1) ij by simp
    with True ij show ?thesis by blast
  next
    case False
    then have "getEmptySquare_loop s (map int_pair (p # ps)) = getEmptySquare_loop s (map int_pair ps)"
      unfolding m using assms(1) ij by simp
    moreover have "\<exists>p\<in>set ps. value (s ! fst p ! snd p) = 0"
      using Cons.prems False p by auto
    ultimately show ?thesis using Cons.IH Cons.prems by simp
  qed
qed

lemma getEmptySquare_char:
  assumes "shape9 s" "\<not> no_zero s"
  shows "\<exists>i<9. \<exists>j<9. getEmptySquare s = Some (s ! i ! j) \<and> value (s ! i ! j) = 0"
proof -
  from assms obtain i j where ij: "i < 9" "j < 9" "value (s ! i ! j) = 0"
    by (auto simp: no_zero_def all_squares_nth)
  then have "(i, j) \<in> set (List.product [0..<9] [0..<9])" by simp
  with ij(3) have "\<exists>p\<in>set (List.product [0..<9] [0..<9]). value (s ! fst p ! snd p) = 0"
    by (intro bexI [of _ "(i, j)"]) simp_all
  from getEmptySquare_loop_char [OF assms(1) all_cells_bound this] show ?thesis
    by (simp only: getEmptySquare_def cells_shape9 [OF assms(1)])
qed

lemma keeps_givens_nth:
  "keeps_givens a b \<longleftrightarrow>
     (\<forall>i<9. \<forall>j<9. value (a ! i ! j) \<noteq> 0 \<longrightarrow> value (b ! i ! j) = value (a ! i ! j))"
  unfolding keeps_givens_def list_all_pairs
proof (intro iffI allI impI ballI)
  fix i j :: nat
  assume all: "\<forall>p\<in>set (List.product [0..<9] [0..<9]).
      value (a ! fst p ! snd p) = 0 \<or> value (b ! fst p ! snd p) = value (a ! fst p ! snd p)"
    and ij: "i < 9" "j < 9" and nz: "value (a ! i ! j) \<noteq> 0"
  from ij have "(i, j) \<in> set (List.product [0..<9] [0..<9])" by simp
  with all have "value (a ! i ! j) = 0 \<or> value (b ! i ! j) = value (a ! i ! j)"
    by fastforce
  with nz show "value (b ! i ! j) = value (a ! i ! j)" by simp
next
  fix p :: "nat \<times> nat"
  assume all: "\<forall>i<9. \<forall>j<9. value (a ! i ! j) \<noteq> 0 \<longrightarrow> value (b ! i ! j) = value (a ! i ! j)"
    and p: "p \<in> set (List.product [0..<9] [0..<9])"
  from p have "fst p < 9" "snd p < 9" by auto
  with all show "value (a ! fst p ! snd p) = 0 \<or> value (b ! fst p ! snd p) = value (a ! fst p ! snd p)"
    by blast
qed

lemma count_list_filter: "count_list (map value r) 0 = length (filter (\<lambda>q. value q = 0) r)"
  by (induction r) simp_all

lemma count_empty_values:
  "count_empty s = sum_list (map (\<lambda>vs. count_list vs 0) (values_of s))"
  by (simp add: count_empty_def values_of_def filter_concat length_concat comp_def
      count_list_filter)

lemma count_list_update:
  "j < length r \<Longrightarrow> r ! j = 0 \<Longrightarrow> v \<noteq> 0 \<Longrightarrow> count_list (r[j := v]) 0 + 1 = count_list r (0::int)"
proof (induction r arbitrary: j)
  case Nil
  then show ?case by simp
next
  case (Cons x r)
  then show ?case by (cases j) auto
qed

lemma sum_list_map_update:
  fixes f :: "'a \<Rightarrow> nat"
  shows "i < length xs \<Longrightarrow> f y + 1 = f (xs ! i) \<Longrightarrow>
         sum_list (map f (xs[i := y])) + 1 = sum_list (map f xs)"
proof (induction xs arbitrary: i)
  case Nil
  then show ?case by simp
next
  case (Cons x xs)
  then show ?case by (cases i) auto
qed

lemma count_empty_decreases:
  assumes "shape9 s" "i < 9" "j < 9" "value (s ! i ! j) = 0" "v \<noteq> 0"
    "values_of s' = (values_of s)[i := (values_of s ! i)[j := v]]"
  shows "count_empty s' < count_empty s"
proof -
  have len: "i < length (values_of s)" "j < length (values_of s ! i)"
    using assms(1-3) by (simp_all add: values_of_def shape9_length shape9_nth)
  have z: "values_of s ! i ! j = 0" using assms(1-4) by (simp add: values_of_nth)
  have "count_list ((values_of s ! i)[j := v]) 0 + 1 = count_list (values_of s ! i) 0"
    using len(2) z assms(5) by (rule count_list_update)
  from sum_list_map_update [of i "values_of s" "\<lambda>vs. count_list vs 0", OF len(1) this]
  show ?thesis by (simp add: count_empty_values assms(6))
qed

lemma wf_board_set_value:
  assumes "wf_board s" "i < 9" "j < 9" "1 \<le> v" "v \<le> 9"
  shows "wf_board (upd_sq s i j (\<lambda>q. q\<lparr>value := v\<rparr>))"
proof -
  have "wf_square (s ! i ! j)" using assms by (simp add: wf_board_nth)
  with assms(4,5) have "wf_square ((s ! i ! j)\<lparr>value := v\<rparr>)" by (simp add: wf_square_def)
  with assms show ?thesis by (simp add: wf_board_nth)
qed

lemma values_of_set_value:
  assumes "shape9 s" "i < 9" "j < 9"
  shows "values_of (upd_sq s i j (\<lambda>q. q\<lparr>value := v\<rparr>)) = (values_of s)[i := (values_of s ! i)[j := v]]"
  using assms
  by (simp add: values_of_def upd_sq_def map_update shape9_length shape9_nth)

lemma domain_digit:
  "wf_board s \<Longrightarrow> i < 9 \<Longrightarrow> j < 9 \<Longrightarrow> v \<in> set (domain (s ! i ! j)) \<Longrightarrow> 1 \<le> v \<and> v \<le> 9"
  by (auto simp: wf_board_nth wf_square_def list_all_iff)

lemma trial_char:
  assumes wf: "wf_board s" and ij: "i < 9" "j < 9"
    and v: "v \<in> set (domain (s ! i ! j))"
  shows "\<exists>b s'. trial s (s ! i ! j) v = Some (b, s') \<and> wf_board s'
           \<and> values_of s' = (values_of s)[i := (values_of s ! i)[j := v]]"
proof -
  have sh: "shape9 s" using wf by (rule wf_board_shape9)
  have pos: "row (s ! i ! j) = int i" "col (s ! i ! j) = int j"
    using wf ij by (simp_all add: wf_board_nth)
  define s1 where "s1 = upd_sq s i j (\<lambda>q. q\<lparr>value := v\<rparr>)"
  from domain_digit [OF wf ij v] have wf1: "wf_board s1"
    unfolding s1_def using wf ij by (intro wf_board_set_value) simp_all
  have t: "trial s (s ! i ! j) v = updateDomains s1 (int i) (int j)"
    using sh ij by (simp add: trial_def pos copySquares_id modify_sq_nat s1_def)
  from updateDomains_wf [OF wf1 ij] obtain b s' where
    "updateDomains s1 (int i) (int j) = Some (b, s')" "wf_board s'" "values_of s' = values_of s1"
    by blast
  with t show ?thesis
    using values_of_set_value [OF sh ij, of v] unfolding s1_def by auto
qed

lemma trial_fewer_empty:
  assumes "wf_board s" "i < 9" "j < 9" "value (s ! i ! j) = 0"
    "v \<in> set (domain (s ! i ! j))" "trial s (s ! i ! j) v = Some (b, s')"
  shows "wf_board s' \<and> count_empty s' < count_empty s \<and> keeps_givens s s'"
proof -
  from trial_char [OF assms(1,2,3,5)] assms(6)
  have wf': "wf_board s'"
    and vals: "values_of s' = (values_of s)[i := (values_of s ! i)[j := v]]" by auto
  have sh: "shape9 s" "shape9 s'" using assms(1) wf' by (simp_all add: wf_board_shape9)
  from domain_digit [OF assms(1,2,3,5)] have "v \<noteq> 0" by simp
  from count_empty_decreases [OF sh(1) assms(2,3,4) this vals]
  have less: "count_empty s' < count_empty s" .
  have "value (s' ! i' ! j') = value (s ! i' ! j')"
    if "i' < 9" "j' < 9" "value (s ! i' ! j') \<noteq> 0" for i' j'
  proof -
    have "value (s' ! i' ! j') = values_of s' ! i' ! j'"
      using sh(2) that by (simp add: values_of_nth)
    also have "\<dots> = values_of s ! i' ! j'"
      using that assms(2,3,4) sh(1) unfolding vals
      by (cases "i' = i"; cases "j' = j")
         (auto simp: values_of_def shape9_length shape9_nth nth_list_update)
    also have "\<dots> = value (s ! i' ! j')" using sh(1) that by (simp add: values_of_nth)
    finally show ?thesis .
  qed
  then have "keeps_givens s s'" by (simp add: keeps_givens_nth)
  with wf' less show ?thesis by simp
qed

lemma no_zero_values: "no_zero s \<longleftrightarrow> list_all (list_all (\<lambda>v. v \<noteq> 0)) (values_of s)"
  by (simp add: no_zero_def all_squares_def values_of_def list_all_iff)

lemma keeps_givens_refl: "keeps_givens s s"
  by (simp add: keeps_givens_nth)

lemma keeps_givens_trans: "keeps_givens a b \<Longrightarrow> keeps_givens b c \<Longrightarrow> keeps_givens a c"
  unfolding keeps_givens_nth by metis

lemma keeps_givens_values:
  "shape9 a \<Longrightarrow> shape9 a' \<Longrightarrow> values_of a = values_of a' \<Longrightarrow> keeps_givens a b \<Longrightarrow> keeps_givens a' b"
  unfolding keeps_givens_nth by (metis values_of_nth)

lemma domain_length_le_9:
  assumes "wf_square q"
  shows "length (domain q) \<le> 9"
proof -
  have "set (domain q) \<subseteq> {1..9}" using assms by (auto simp: wf_square_def list_all_iff)
  then have "card (set (domain q)) \<le> card {1..9::int}" by (intro card_mono) simp_all
  moreover have "card (set (domain q)) = length (domain q)"
    using assms by (simp add: wf_square_def distinct_card)
  ultimately show ?thesis by simp
qed

lemma count_empty_le_81:
  assumes "shape9 s"
  shows "count_empty s \<le> 81"
proof -
  have eq: "map length s = map (\<lambda>_. 9) s"
    using assms by (intro map_cong) (simp_all add: shape9_def list_all_iff)
  have "sum_list (map length s) = sum_list (map (\<lambda>_. 9::nat) s)"
    by (simp only: eq)
  also have "\<dots> = 81" using assms by (simp add: sum_list_triv shape9_length)
  finally have "length (concat s) = 81" by (simp add: length_concat)
  moreover have "count_empty s \<le> length (concat s)" by (simp add: count_empty_def)
  ultimately show ?thesis by simp
qed

lemma count_empty_pos:
  assumes "shape9 s" "i < 9" "j < 9" "value (s ! i ! j) = 0"
  shows "0 < count_empty s"
proof -
  have "s ! i ! j \<in> set (s ! i)" using assms by (simp add: shape9_nth)
  moreover have "s ! i \<in> set s" using assms by (simp add: shape9_length)
  ultimately have "s ! i ! j \<in> set (concat s)" by auto
  with assms(4) have "s ! i ! j \<in> set (filter (\<lambda>q. value q = 0) (concat s))" by simp
  then show ?thesis unfolding count_empty_def by (rule length_pos_if_in_set)
qed

lemma backtrack_loop_returns:
  assumes IH: "\<And>y. wf_board (squares y) \<Longrightarrow> count_empty (squares y) < n \<Longrightarrow>
                 \<exists>r. backtrack n y = Some r"
    and wf: "wf_board (squares x)" and cnt: "count_empty (squares x) \<le> n"
    and ij: "i < 9" "j < 9" and z: "value (squares x ! i ! j) = 0"
    and vs: "set vs \<subseteq> set (domain (squares x ! i ! j))"
  shows "\<exists>r. backtrack_loop n x (squares x ! i ! j) vs = Some r"
  using vs
proof (induction vs)
  case Nil
  then show ?case using wf by (simp add: new_SudokuCSP_id wf_board_shape9)
next
  case (Cons v vs)
  then have v: "v \<in> set (domain (squares x ! i ! j))" by simp
  from trial_char [OF wf ij v] obtain b s' where
    t: "trial (squares x) (squares x ! i ! j) v = Some (b, s')" by blast
  from trial_fewer_empty [OF wf ij z v t]
  have wf': "wf_board s'" and less: "count_empty s' < count_empty (squares x)" by simp_all
  from Cons have rest: "\<exists>r. backtrack_loop n x (squares x ! i ! j) vs = Some r" by simp
  show ?case
  proof (cases b)
    case False
    with t rest show ?thesis by simp
  next
    case True
    have n: "new_SudokuCSP s' False = Some \<lparr>squares = s', failure = False\<rparr>"
      using wf' by (simp add: new_SudokuCSP_id wf_board_shape9)
    from IH [of "\<lparr>squares = s', failure = False\<rparr>"] wf' less cnt
    obtain r where r: "backtrack n \<lparr>squares = s', failure = False\<rparr> = Some r" by auto
    with t True n rest show ?thesis by (cases "failure r") simp_all
  qed
qed

lemma backtrack_returns:
  "wf_board (squares x) \<Longrightarrow> count_empty (squares x) < n \<Longrightarrow> \<exists>r. backtrack n x = Some r"
proof (induction n arbitrary: x)
  case 0
  then show ?case by simp
next
  case (Suc n)
  have sh: "shape9 (squares x)" using Suc.prems(1) by (rule wf_board_shape9)
  show ?case
  proof (cases "no_zero (squares x)")
    case True
    then show ?thesis using sh by (simp add: isFull_char)
  next
    case False
    from getEmptySquare_char [OF sh False] obtain i j where ij: "i < 9" "j < 9"
      and g: "getEmptySquare (squares x) = Some (squares x ! i ! j)"
      and z: "value (squares x ! i ! j) = 0" by blast
    have "\<exists>r. backtrack_loop n x (squares x ! i ! j) (domain (squares x ! i ! j)) = Some r"
      using Suc.prems by (intro backtrack_loop_returns [OF Suc.IH _ _ ij z]) simp_all
    with False g sh show ?thesis by (simp add: isFull_char)
  qed
qed

lemma backtrack_loop_post:
  assumes IH: "\<And>y r. wf_board (squares y) \<Longrightarrow> backtrack n y = Some r \<Longrightarrow>
                 backtrack_post (squares y) r"
    and wf: "wf_board (squares x)"
    and ij: "i < 9" "j < 9" and z: "value (squares x ! i ! j) = 0"
    and vs: "set vs \<subseteq> set (domain (squares x ! i ! j))"
    and res: "backtrack_loop n x (squares x ! i ! j) vs = Some r"
  shows "backtrack_post (squares x) r"
  using vs res
proof (induction vs)
  case Nil
  then show ?case using wf
    by (auto simp: new_SudokuCSP_id wf_board_shape9 backtrack_post_def keeps_givens_refl)
next
  case (Cons v vs)
  then have v: "v \<in> set (domain (squares x ! i ! j))" by simp
  from trial_char [OF wf ij v] obtain b s' where
    t: "trial (squares x) (squares x ! i ! j) v = Some (b, s')" by blast
  from trial_fewer_empty [OF wf ij z v t]
  have wf': "wf_board s'" and keep: "keeps_givens (squares x) s'" by simp_all
  have rest: "backtrack_loop n x (squares x ! i ! j) vs = Some r \<Longrightarrow> ?case"
    using Cons by simp
  show ?case
  proof (cases b)
    case False
    with t Cons.prems(2) rest show ?thesis by simp
  next
    case True
    have n: "new_SudokuCSP s' False = Some \<lparr>squares = s', failure = False\<rparr>"
      using wf' by (simp add: new_SudokuCSP_id wf_board_shape9)
    show ?thesis
    proof (cases "backtrack n \<lparr>squares = s', failure = False\<rparr>")
      case None
      with t True n Cons.prems(2) show ?thesis by simp
    next
      case (Some r')
      from IH [of "\<lparr>squares = s', failure = False\<rparr>" r'] wf' Some
      have post: "backtrack_post s' r'" by simp
      show ?thesis
      proof (cases "failure r'")
        case True
        with t \<open>b\<close> n Some Cons.prems(2) rest show ?thesis by simp
      next
        case False
        with t \<open>b\<close> n Some Cons.prems(2) have "r = r'" by simp
        with post False keep show ?thesis
          by (auto simp: backtrack_post_def intro: keeps_givens_trans)
      qed
    qed
  qed
qed

lemma backtrack_post:
  "wf_board (squares x) \<Longrightarrow> backtrack n x = Some r \<Longrightarrow> backtrack_post (squares x) r"
proof (induction n arbitrary: x r)
  case 0
  then show ?case by simp
next
  case (Suc n)
  have sh: "shape9 (squares x)" using Suc.prems(1) by (rule wf_board_shape9)
  show ?case
  proof (cases "no_zero (squares x)")
    case True
    with Suc.prems sh have "r = x" by (simp add: isFull_char)
    with True sh show ?thesis
      by (simp add: backtrack_post_def keeps_givens_refl)
  next
    case False
    from getEmptySquare_char [OF sh False] obtain i j where ij: "i < 9" "j < 9"
      and g: "getEmptySquare (squares x) = Some (squares x ! i ! j)"
      and z: "value (squares x ! i ! j) = 0" by blast
    from Suc.prems(2) False g sh
    have "backtrack_loop n x (squares x ! i ! j) (domain (squares x ! i ! j)) = Some r"
      by (simp add: isFull_char)
    with Suc.IH Suc.prems(1) ij z show ?thesis
      by (intro backtrack_loop_post [of n x i j "domain (squares x ! i ! j)" r]) simp_all
  qed
qed

lemma solve_char:
  assumes "wf_input sqs"
  shows "\<exists>valid s1. updateAllDomains sqs = Some (valid, s1) \<and> wf_board s1
           \<and> values_of s1 = values_of sqs
           \<and> solve fuel sqs = backtrack fuel \<lparr>squares = s1, failure = False\<rparr>"
proof -
  have wf: "wf_board sqs" using assms by (rule wf_input_wf_board)
  from updateAllDomains_wf [OF wf] obtain valid s1 where
    u: "updateAllDomains sqs = Some (valid, s1)" and wf1: "wf_board s1"
    and v1: "values_of s1 = values_of sqs" by blast
  have "solve fuel sqs = backtrack fuel \<lparr>squares = s1, failure = False\<rparr>"
    using wf wf1 u by (simp add: solve_def copySquares_id new_SudokuCSP_id wf_board_shape9)
  with u wf1 v1 show ?thesis by blast
qed

section \<open>Facts about the functions on the store\<close>

subsection \<open>What the functions leave unchanged\<close>

lemma bind_SomeE:
  assumes "Option.bind m f = Some y"
  obtains x where "m = Some x" "f x = Some y"
  using assms by (auto simp: bind_eq_Some_conv)

lemma deref_Some: "deref xs a = Some x \<longleftrightarrow> a < length xs \<and> x = xs ! a"
  by (auto simp: deref_def)

lemma js_index_mem: "js_index xs i = Some x \<Longrightarrow> x \<in> set xs"
  by (auto simp: js_index_def split: if_splits)

lemma prefix_take: "prefix xs ys \<longleftrightarrow> length xs \<le> length ys \<and> take (length xs) ys = xs"
  by (metis append_eq_conv_conj prefix_def prefix_length_le take_is_prefix)

lemma extends_refl: "extends h h"
  by (simp add: extends_def)

lemma extends_trans: "extends h1 h2 \<Longrightarrow> extends h2 h3 \<Longrightarrow> extends h1 h3"
  unfolding extends_def by (meson prefix_order.trans)

lemma above_refl: "above n m h h"
  by (simp add: above_def)

lemma above_trans: "above n m h1 h2 \<Longrightarrow> above n m h2 h3 \<Longrightarrow> above n m h1 h3"
  by (auto simp: above_def)

lemma extends_above:
  assumes "extends h h1" "above (length (objects h)) (length (numbers h)) h1 h2"
  shows "extends h h2"
proof -
  from assms(1) have p: "length (objects h) \<le> length (objects h1)"
    "take (length (objects h)) (objects h1) = objects h"
    "length (numbers h) \<le> length (numbers h1)"
    "take (length (numbers h)) (numbers h1) = numbers h"
    by (simp_all add: extends_def prefix_take)
  with assms show ?thesis
    by (auto simp: extends_def above_def prefix_take)
qed

lemma get_sq_h_mem:
  assumes "get_sq_h h a i j = Some q"
  shows "\<exists>outer r inner. deref (arrays h) a = Some outer \<and> r \<in> set outer
           \<and> deref (arrays h) r = Some inner \<and> q \<in> set inner"
  using assms
  by (auto simp: get_sq_h_def bind_eq_Some_conv dest!: js_index_mem)

lemma fresh_board_get:
  "fresh_board n m h a \<Longrightarrow> get_sq_h h a i j = Some q \<Longrightarrow> n \<le> q"
  by (drule get_sq_h_mem) (auto simp: fresh_board_def)

lemma fresh_board_read:
  assumes "fresh_board n m h a" "read_sq_h h a i j = Some (s, d)"
  shows "m \<le> domain_h s \<and> domain_h s < length (numbers h)"
proof -
  from assms(2) obtain q where q: "get_sq_h h a i j = Some q" "deref (objects h) q = Some s"
    "deref (numbers h) (domain_h s) = Some d"
    by (auto simp: read_sq_h_def bind_eq_Some_conv)
  from get_sq_h_mem [OF q(1)] assms(1) q(2) have "m \<le> domain_h s"
    unfolding fresh_board_def by blast
  with q(3) show ?thesis by (simp add: deref_Some)
qed

lemma get_sq_h_arrays: "arrays h' = arrays h \<Longrightarrow> get_sq_h h' a i j = get_sq_h h a i j"
  by (simp add: get_sq_h_def)

lemma length_h_arrays: "arrays h' = arrays h \<Longrightarrow> length_h h' a = length_h h a"
  by (simp add: length_h_def)

lemma fresh_board_numbers:
  assumes "fresh_board n m h a" "arrays h' = arrays h" "objects h' = objects h"
    "length (numbers h) \<le> length (numbers h')"
  shows "fresh_board n m h' a"
  using assms unfolding fresh_board_def by auto

lemma prune_h_above:
  assumes "fresh_board n m h a" "prune_h h a i j v skip = Some h'"
  shows "above n m h h' \<and> fresh_board n m h' a"
proof (cases "h' = h")
  case True
  with assms(1) show ?thesis by (simp add: above_refl)
next
  case False
  with assms(2) obtain s d where r: "read_sq_h h a i j = Some (s, d)"
    and h': "h' = h\<lparr>numbers := (numbers h)[domain_h s := splice1 d (indexOf d v)]\<rparr>"
    by (auto simp: prune_h_def bind_eq_Some_conv Let_def split: if_splits)
  from fresh_board_read [OF assms(1) r] have "m \<le> domain_h s" by simp
  then have ab: "above n m h h'" by (simp add: above_def h')
  moreover have "fresh_board n m h' a"
    using assms(1) by (rule fresh_board_numbers) (simp_all add: h')
  ultimately show ?thesis by simp
qed

lemma rowcol_h_above:
  assumes "fresh_board n m h a" "updateDomains_rowcol_h h a rw cl v is = Some (b, h')"
  shows "above n m h h' \<and> fresh_board n m h' a"
  using assms
proof (induction "is" arbitrary: h)
  case Nil
  then show ?case by (simp add: above_refl)
next
  case (Cons i "is")
  from Cons.prems(2) obtain h1 h2 where
    p1: "prune_h h a rw i v (i = cl) = Some h1" and p2: "prune_h h1 a i cl v (i = rw) = Some h2"
    and rest: "h' = h2 \<or> updateDomains_rowcol_h h2 a rw cl v is = Some (b, h')"
    by (auto simp: bind_eq_Some_conv split: if_splits)
  from prune_h_above [OF Cons.prems(1) p1] have a1: "above n m h h1" "fresh_board n m h1 a"
    by simp_all
  from prune_h_above [OF a1(2) p2] have a2: "above n m h1 h2" "fresh_board n m h2 a"
    by simp_all
  from rest show ?case
  proof
    assume "h' = h2"
    with a1 a2 show ?thesis by (auto intro: above_trans)
  next
    assume "updateDomains_rowcol_h h2 a rw cl v is = Some (b, h')"
    from Cons.IH [OF a2(2) this] a1 a2 show ?thesis by (auto intro: above_trans)
  qed
qed

lemma box_h_above:
  assumes "fresh_board n m h a" "updateDomains_box_h h a rw cl v ps = Some (b, h')"
  shows "above n m h h' \<and> fresh_board n m h' a"
  using assms
proof (induction ps arbitrary: h)
  case Nil
  then show ?case by (simp add: above_refl)
next
  case (Cons p ps)
  obtain i j where p: "p = (i, j)" by (cases p)
  from Cons.prems(2) obtain h1 where
    p1: "prune_h h a i j v (i = rw \<and> j = cl) = Some h1"
    and rest: "h' = h1 \<or> updateDomains_box_h h1 a rw cl v ps = Some (b, h')"
    unfolding p by (auto simp: bind_eq_Some_conv split: if_splits)
  from prune_h_above [OF Cons.prems(1) p1] have a1: "above n m h h1" "fresh_board n m h1 a"
    by simp_all
  from rest show ?case
  proof
    assume "h' = h1"
    with a1 show ?thesis by simp
  next
    assume "updateDomains_box_h h1 a rw cl v ps = Some (b, h')"
    from Cons.IH [OF a1(2) this] a1 show ?thesis by (auto intro: above_trans)
  qed
qed

lemma fresh_board_set_domain:
  assumes fb: "fresh_board n m h a" and q: "get_sq_h h a i j = Some q"
    and s: "deref (objects h) q = Some s"
    and h1_def: "h1 = h\<lparr>numbers := numbers h @ [[v]],
                    objects := (objects h)[q := s\<lparr>domain_h := length (numbers h)\<rparr>]\<rparr>"
  shows "above n m h h1 \<and> fresh_board n m h1 a"
proof -
  from fresh_board_get [OF fb q] have nq: "n \<le> q" .
  from fb have m: "m \<le> length (numbers h)" by (simp add: fresh_board_def)
  have ab: "above n m h h1" using nq m by (simp add: above_def h1_def)
  have "fresh_board n m h1 a"
    unfolding fresh_board_def
  proof (intro conjI allI impI)
    show "m \<le> length (numbers h1)" using m by (simp add: h1_def)
  next
    fix outer r inner q'
    assume "deref (arrays h1) a = Some outer" "r \<in> set outer"
      "deref (arrays h1) r = Some inner" "q' \<in> set inner"
    then have *: "deref (arrays h) a = Some outer" "r \<in> set outer"
      "deref (arrays h) r = Some inner" "q' \<in> set inner" by (simp_all add: h1_def)
    with fb show "n \<le> q'" unfolding fresh_board_def by blast
  next
    fix outer r inner q' s'
    assume "deref (arrays h1) a = Some outer" "r \<in> set outer"
      "deref (arrays h1) r = Some inner" "q' \<in> set inner"
      and s': "deref (objects h1) q' = Some s'"
    then have *: "deref (arrays h) a = Some outer" "r \<in> set outer"
      "deref (arrays h) r = Some inner" "q' \<in> set inner" by (simp_all add: h1_def)
    show "m \<le> domain_h s'"
    proof (cases "q' = q")
      case True
      with s' s m show ?thesis by (auto simp: h1_def deref_Some)
    next
      case False
      with s' have "deref (objects h) q' = Some s'" by (auto simp: h1_def deref_Some)
      with * fb show ?thesis unfolding fresh_board_def by blast
    qed
  qed
  with ab show ?thesis by simp
qed

lemma updateDomains_h_above:
  assumes fb: "fresh_board n m h a" and u: "updateDomains_h h a rw cl = Some (b, h')"
  shows "above n m h h' \<and> fresh_board n m h' a"
proof -
  from u obtain q s where q: "get_sq_h h a rw cl = Some q" and s: "deref (objects h) q = Some s"
    by (auto simp: updateDomains_h_def bind_eq_Some_conv)
  show ?thesis
  proof (cases "value_h s = 0")
    case True
    with u q s have "h' = h" by (simp add: updateDomains_h_def)
    with fb show ?thesis by (simp add: above_refl)
  next
    case False
    define h1 where "h1 = h\<lparr>numbers := numbers h @ [[value_h s]],
                    objects := (objects h)[q := s\<lparr>domain_h := length (numbers h)\<rparr>]\<rparr>"
    from fresh_board_set_domain [OF fb q s h1_def]
    have a1: "above n m h h1" "fresh_board n m h1 a" by simp_all
    have eq: "updateDomains_h h a rw cl =
        do { is \<leftarrow> length_h h1 a;
             (continue, h2) \<leftarrow> updateDomains_rowcol_h h1 a rw cl (value_h s) is;
             if \<not> continue then Some (False, h2)
             else (let r = box_start rw; c = box_start cl
                   in updateDomains_box_h h2 a rw cl (value_h s)
                        (List.product [r, r + 1, r + 2] [c, c + 1, c + 2])) }"
      using q s False by (simp add: updateDomains_h_def Let_def h1_def)
    from u [unfolded eq] obtain "is" where
      r1: "do { (continue, h2) \<leftarrow> updateDomains_rowcol_h h1 a rw cl (value_h s) is;
               if \<not> continue then Some (False, h2)
               else (let r = box_start rw; c = box_start cl
                     in updateDomains_box_h h2 a rw cl (value_h s)
                          (List.product [r, r + 1, r + 2] [c, c + 1, c + 2])) } = Some (b, h')"
      by (rule bind_SomeE)
    from r1 obtain x where rcx: "updateDomains_rowcol_h h1 a rw cl (value_h s) is = Some x"
      and r2: "(case x of (continue, h2) \<Rightarrow>
               if \<not> continue then Some (False, h2)
               else (let r = box_start rw; c = box_start cl
                     in updateDomains_box_h h2 a rw cl (value_h s)
                          (List.product [r, r + 1, r + 2] [c, c + 1, c + 2]))) = Some (b, h')"
      by (rule bind_SomeE)
    obtain c h2 where x: "x = (c, h2)" by (cases x)
    from rcx x have rc: "updateDomains_rowcol_h h1 a rw cl (value_h s) is = Some (c, h2)"
      by simp
    have rest:
      "h' = h2 \<or> (\<exists>ps. updateDomains_box_h h2 a rw cl (value_h s) ps = Some (b, h'))"
    proof (cases c)
      case True
      with r2 x have "updateDomains_box_h h2 a rw cl (value_h s)
          (List.product [box_start rw, box_start rw + 1, box_start rw + 2]
             [box_start cl, box_start cl + 1, box_start cl + 2]) = Some (b, h')"
        by (simp only: prod.case Let_def not_True_eq_False if_False)
      then show ?thesis by blast
    next
      case False
      with r2 x show ?thesis by (simp only: prod.case not_False_eq_True if_True) simp
    qed
    from rowcol_h_above [OF a1(2) rc] have a2: "above n m h1 h2" "fresh_board n m h2 a"
      by simp_all
    from rest show ?thesis
    proof
      assume "h' = h2"
      with a1 a2 show ?thesis by (auto intro: above_trans)
    next
      assume "\<exists>ps. updateDomains_box_h h2 a rw cl (value_h s) ps = Some (b, h')"
      then obtain ps where "updateDomains_box_h h2 a rw cl (value_h s) ps = Some (b, h')" ..
      from box_h_above [OF a2(2) this] a1 a2 show ?thesis by (auto intro: above_trans)
    qed
  qed
qed

lemma updateAllDomains_loop_h_above:
  assumes "fresh_board n m h a" "updateAllDomains_loop_h h a ps = Some (b, h')"
  shows "above n m h h' \<and> fresh_board n m h' a"
  using assms
proof (induction ps arbitrary: h)
  case Nil
  then show ?case by (simp add: above_refl)
next
  case (Cons p ps)
  obtain i j where p: "p = (i, j)" by (cases p)
  from Cons.prems(2) obtain c h1 where
    u: "updateDomains_h h a i j = Some (c, h1)"
    and rest: "h' = h1 \<or> updateAllDomains_loop_h h1 a ps = Some (b, h')"
    unfolding p by (auto simp: bind_eq_Some_conv split: if_splits)
  from updateDomains_h_above [OF Cons.prems(1) u]
  have a1: "above n m h h1" "fresh_board n m h1 a" by simp_all
  from rest show ?case
  proof
    assume "h' = h1"
    with a1 show ?thesis by simp
  next
    assume "updateAllDomains_loop_h h1 a ps = Some (b, h')"
    from Cons.IH [OF a1(2) this] a1 show ?thesis by (auto intro: above_trans)
  qed
qed

lemma updateAllDomains_h_above:
  assumes "fresh_board n m h a" "updateAllDomains_h h a = Some (b, h')"
  shows "above n m h h' \<and> fresh_board n m h' a"
  using assms updateAllDomains_loop_h_above
  by (auto simp: updateAllDomains_h_def bind_eq_Some_conv)

lemma extends_lengths:
  "extends h h' \<Longrightarrow> length (arrays h) \<le> length (arrays h') \<and> length (objects h) \<le> length (objects h')
     \<and> length (numbers h) \<le> length (numbers h')"
  by (simp add: extends_def prefix_take)

lemma prefix_update: "prefix xs ys \<Longrightarrow> length xs \<le> k \<Longrightarrow> prefix xs (ys[k := y])"
  by (simp add: prefix_take)

lemma prefix_snoc: "prefix xs ys \<Longrightarrow> prefix xs (ys @ zs)"
  by (auto simp: prefix_def)

lemma building_row_step:
  assumes b: "building h0 n h" and r: "r \<in> set (arrays h ! n)"
    and h1: "h1 = h\<lparr>numbers := numbers h @ [d],
               objects := objects h @ [\<lparr>row_h = x, col_h = y, value_h = z, domain_h = length (numbers h)\<rparr>],
               arrays := (arrays h)[r := arrays h ! r @ [length (objects h)]]\<rparr>"
  shows "building h0 n h1 \<and> arrays h1 ! n = arrays h ! n"
proof -
  from b have ext: "extends h0 h" and n: "length (arrays h0) \<le> n" "n < length (arrays h)"
    and rows: "\<forall>r\<in>set (arrays h ! n). length (arrays h0) \<le> r \<and> r < length (arrays h) \<and> r \<noteq> n
           \<and> (\<forall>q\<in>set (arrays h ! r). length (objects h0) \<le> q \<and> q < length (objects h)
                 \<and> length (numbers h0) \<le> domain_h (objects h ! q))"
    by (simp_all add: building_def)
  from rows r have rb: "length (arrays h0) \<le> r" "r < length (arrays h)" "r \<noteq> n" by auto
  from extends_lengths [OF ext] have len: "length (objects h0) \<le> length (objects h)"
    "length (numbers h0) \<le> length (numbers h)" by simp_all
  have same: "arrays h1 ! n = arrays h ! n" using rb by (simp add: h1)
  have ext1: "extends h0 h1"
    using ext rb(1) by (simp add: extends_def h1 prefix_update prefix_snoc)
  have "\<forall>r'\<in>set (arrays h1 ! n). length (arrays h0) \<le> r' \<and> r' < length (arrays h1) \<and> r' \<noteq> n
           \<and> (\<forall>q\<in>set (arrays h1 ! r'). length (objects h0) \<le> q \<and> q < length (objects h1)
                 \<and> length (numbers h0) \<le> domain_h (objects h1 ! q))"
  proof
    fix r' assume "r' \<in> set (arrays h1 ! n)"
    with same have r': "r' \<in> set (arrays h ! n)" by simp
    with rows have rb': "length (arrays h0) \<le> r'" "r' < length (arrays h)" "r' \<noteq> n"
      and qs: "\<forall>q\<in>set (arrays h ! r'). length (objects h0) \<le> q \<and> q < length (objects h)
                 \<and> length (numbers h0) \<le> domain_h (objects h ! q)" by auto
    have "\<forall>q\<in>set (arrays h1 ! r'). length (objects h0) \<le> q \<and> q < length (objects h1)
                 \<and> length (numbers h0) \<le> domain_h (objects h1 ! q)"
    proof
      fix q assume q: "q \<in> set (arrays h1 ! r')"
      show "length (objects h0) \<le> q \<and> q < length (objects h1)
                 \<and> length (numbers h0) \<le> domain_h (objects h1 ! q)"
      proof (cases "q \<in> set (arrays h ! r')")
        case True
        with qs have "length (objects h0) \<le> q" "q < length (objects h)"
          "length (numbers h0) \<le> domain_h (objects h ! q)" by auto
        then show ?thesis by (simp add: h1 nth_append)
      next
        case False
        with q rb' rb have "r' = r" "q = length (objects h)"
          by (auto simp: h1 nth_list_update split: if_splits)
        with len show ?thesis by (simp add: h1)
      qed
    qed
    with rb' show "length (arrays h0) \<le> r' \<and> r' < length (arrays h1) \<and> r' \<noteq> n
           \<and> (\<forall>q\<in>set (arrays h1 ! r'). length (objects h0) \<le> q \<and> q < length (objects h1)
                 \<and> length (numbers h0) \<le> domain_h (objects h1 ! q))"
      by (simp add: h1)
  qed
  with ext1 n same show ?thesis by (simp add: building_def h1)
qed

lemma copySquares_row_h_building:
  assumes "building h0 n h" "r \<in> set (arrays h ! n)" "copySquares_row_h h a i r js = Some h'"
  shows "building h0 n h' \<and> arrays h' ! n = arrays h ! n"
  using assms
proof (induction js arbitrary: h)
  case Nil
  then show ?case by simp
next
  case (Cons j js)
  from Cons.prems(3) obtain sd where rd: "read_sq_h h a i j = Some sd"
    and r1: "(case sd of (s, d) \<Rightarrow> do { inner \<leftarrow> deref (arrays h) r;
          copySquares_row_h
            (h\<lparr>numbers := numbers h @ [d],
               objects := objects h @
                 [\<lparr>row_h = row_h s, col_h = col_h s, value_h = value_h s,
                   domain_h = length (numbers h)\<rparr>],
               arrays := (arrays h)[r := inner @ [length (objects h)]]\<rparr>)
            a i r js }) = Some h'"
    unfolding copySquares_row_h.simps by (rule bind_SomeE)
  obtain s d where sd: "sd = (s, d)" by (cases sd)
  from r1 [unfolded sd prod.case] obtain inner where inner: "deref (arrays h) r = Some inner"
    and r2: "copySquares_row_h
            (h\<lparr>numbers := numbers h @ [d],
               objects := objects h @
                 [\<lparr>row_h = row_h s, col_h = col_h s, value_h = value_h s,
                   domain_h = length (numbers h)\<rparr>],
               arrays := (arrays h)[r := inner @ [length (objects h)]]\<rparr>)
            a i r js = Some h'"
    by (rule bind_SomeE)
  define h1 where "h1 = h\<lparr>numbers := numbers h @ [d],
               objects := objects h @
                 [\<lparr>row_h = row_h s, col_h = col_h s, value_h = value_h s,
                   domain_h = length (numbers h)\<rparr>],
               arrays := (arrays h)[r := arrays h ! r @ [length (objects h)]]\<rparr>"
  from inner have in_eq: "inner = arrays h ! r" by (simp add: deref_Some)
  from building_row_step [OF Cons.prems(1,2) h1_def]
  have b1: "building h0 n h1" and same: "arrays h1 ! n = arrays h ! n" by simp_all
  from Cons.prems(2) same have r_in: "r \<in> set (arrays h1 ! n)" by simp
  from r2 have "copySquares_row_h h1 a i r js = Some h'" by (simp only: h1_def in_eq)
  from Cons.IH [OF b1 r_in this] same show ?case by simp
qed

lemma building_new_row:
  assumes b: "building h0 n h"
    and h1: "h1 = h\<lparr>arrays := (arrays h @ [[]])[n := arrays h ! n @ [length (arrays h)]]\<rparr>"
  shows "building h0 n h1 \<and> length (arrays h) \<in> set (arrays h1 ! n)"
proof -
  from b have ext: "extends h0 h" and n: "length (arrays h0) \<le> n" "n < length (arrays h)"
    and rows: "\<forall>r\<in>set (arrays h ! n). length (arrays h0) \<le> r \<and> r < length (arrays h) \<and> r \<noteq> n
           \<and> (\<forall>q\<in>set (arrays h ! r). length (objects h0) \<le> q \<and> q < length (objects h)
                 \<and> length (numbers h0) \<le> domain_h (objects h ! q))"
    by (simp_all add: building_def)
  have at_n: "arrays h1 ! n = arrays h ! n @ [length (arrays h)]" using n by (simp add: h1)
  have ext1: "extends h0 h1"
    using ext n(1) by (simp add: extends_def h1 prefix_update prefix_snoc)
  have "\<forall>r\<in>set (arrays h1 ! n). length (arrays h0) \<le> r \<and> r < length (arrays h1) \<and> r \<noteq> n
           \<and> (\<forall>q\<in>set (arrays h1 ! r). length (objects h0) \<le> q \<and> q < length (objects h1)
                 \<and> length (numbers h0) \<le> domain_h (objects h1 ! q))"
  proof
    fix r assume "r \<in> set (arrays h1 ! n)"
    with at_n have "r \<in> set (arrays h ! n) \<or> r = length (arrays h)" by auto
    then show "length (arrays h0) \<le> r \<and> r < length (arrays h1) \<and> r \<noteq> n
           \<and> (\<forall>q\<in>set (arrays h1 ! r). length (objects h0) \<le> q \<and> q < length (objects h1)
                 \<and> length (numbers h0) \<le> domain_h (objects h1 ! q))"
    proof
      assume r: "r \<in> set (arrays h ! n)"
      with rows have rb: "length (arrays h0) \<le> r" "r < length (arrays h)" "r \<noteq> n"
        and qs: "\<forall>q\<in>set (arrays h ! r). length (objects h0) \<le> q \<and> q < length (objects h)
                 \<and> length (numbers h0) \<le> domain_h (objects h ! q)" by auto
      from rb have "arrays h1 ! r = arrays h ! r" by (simp add: h1 nth_append)
      with rb qs show ?thesis by (simp add: h1)
    next
      assume r: "r = length (arrays h)"
      with n have "arrays h1 ! r = []" by (simp add: h1)
      with r n show ?thesis by (simp add: h1)
    qed
  qed
  with ext1 n at_n show ?thesis by (simp add: building_def h1)
qed

lemma copySquares_rows_h_building:
  assumes "building h0 n h" "copySquares_rows_h h a n is js = Some h'"
  shows "building h0 n h'"
  using assms
proof (induction "is" arbitrary: h)
  case Nil
  then show ?case by simp
next
  case (Cons i "is")
  from Cons.prems(2) obtain outer where outer: "deref (arrays h) n = Some outer"
    and r1: "do { h1 \<leftarrow> copySquares_row_h
                 (h\<lparr>arrays := (arrays h @ [[]])[n := outer @ [length (arrays h)]]\<rparr>)
                 a i (length (arrays h)) js;
          copySquares_rows_h h1 a n is js } = Some h'"
    unfolding copySquares_rows_h.simps by (rule bind_SomeE)
  define h1 where "h1 = h\<lparr>arrays := (arrays h @ [[]])[n := arrays h ! n @ [length (arrays h)]]\<rparr>"
  from outer have o_eq: "outer = arrays h ! n" by (simp add: deref_Some)
  from r1 obtain h2 where row: "copySquares_row_h h1 a i (length (arrays h)) js = Some h2"
    and rest: "copySquares_rows_h h2 a n is js = Some h'"
    unfolding h1_def o_eq by (rule bind_SomeE)
  from building_new_row [OF Cons.prems(1) h1_def]
  have b1: "building h0 n h1" and r_in: "length (arrays h) \<in> set (arrays h1 ! n)" by simp_all
  from copySquares_row_h_building [OF b1 r_in row] have "building h0 n h2" by simp
  from Cons.IH [OF this rest] show ?case .
qed

lemma copySquares_h_building:
  assumes "copySquares_h h a = Some (n, h')"
  shows "n = length (arrays h) \<and> building h n h'"
proof -
  from assms obtain "is" where
    r1: "do { h1 \<leftarrow> copySquares_rows_h (h\<lparr>arrays := arrays h @ [[]]\<rparr>) a (length (arrays h)) is is;
          Some (length (arrays h), h1) } = Some (n, h')"
    unfolding copySquares_h_def by (rule bind_SomeE)
  then obtain h1 where rows: "copySquares_rows_h (h\<lparr>arrays := arrays h @ [[]]\<rparr>) a (length (arrays h)) is is
      = Some h1" and eq: "Some (length (arrays h), h1) = Some (n, h')"
    by (rule bind_SomeE)
  from eq have n: "n = length (arrays h)" and h': "h1 = h'" by simp_all
  have "building h (length (arrays h)) (h\<lparr>arrays := arrays h @ [[]]\<rparr>)"
    by (simp add: building_def extends_def)
  from copySquares_rows_h_building [OF this rows] n h' show ?thesis by simp
qed

lemma building_fresh_board:
  assumes "building h0 n h"
  shows "fresh_board (length (objects h0)) (length (numbers h0)) h n"
  unfolding fresh_board_def
proof (intro conjI allI impI)
  from assms have "extends h0 h" by (simp add: building_def)
  from extends_lengths [OF this] show "length (numbers h0) \<le> length (numbers h)" by simp
next
  fix outer r inner q
  assume "deref (arrays h) n = Some outer" "r \<in> set outer" "deref (arrays h) r = Some inner"
    "q \<in> set inner"
  then have "r \<in> set (arrays h ! n)" "q \<in> set (arrays h ! r)" by (simp_all add: deref_Some)
  with assms show "length (objects h0) \<le> q" unfolding building_def by blast
next
  fix outer r inner q s
  assume "deref (arrays h) n = Some outer" "r \<in> set outer" "deref (arrays h) r = Some inner"
    "q \<in> set inner" "deref (objects h) q = Some s"
  then have "r \<in> set (arrays h ! n)" "q \<in> set (arrays h ! r)" "s = objects h ! q"
    by (simp_all add: deref_Some)
  with assms show "length (numbers h0) \<le> domain_h s" unfolding building_def by blast
qed

lemma copySquares_h_extends:
  assumes "copySquares_h h a = Some (n, h')"
  shows "extends h h' \<and> fresh_board (length (objects h)) (length (numbers h)) h' n"
proof -
  from copySquares_h_building [OF assms] have b: "building h n h'" by blast
  then have "extends h h'" by (simp add: building_def)
  with building_fresh_board [OF b] show ?thesis by simp
qed

lemma new_SudokuCSP_h_extends:
  assumes "new_SudokuCSP_h h a f = Some (c, h')"
  shows "extends h h'"
proof -
  from assms obtain x where cp: "copySquares_h h a = Some x"
    and r: "(case x of (c', h1) \<Rightarrow> Some (\<lparr>squares_h = c', failure_h = f\<rparr>, h1)) = Some (c, h')"
    unfolding new_SudokuCSP_h_def by (rule bind_SomeE)
  obtain n h1 where x: "x = (n, h1)" by (cases x)
  with r have "h1 = h'" by simp
  with cp x copySquares_h_extends [of h a n h'] show ?thesis by simp
qed

lemma getEmptySquare_loop_h_extends:
  "getEmptySquare_loop_h h a ps = Some (q, h') \<Longrightarrow> extends h h'"
proof (induction ps)
  case Nil
  then show ?case by (auto simp: extends_def)
next
  case (Cons p ps)
  obtain i j where p: "p = (i, j)" by (cases p)
  from Cons.prems have "h' = h \<or> getEmptySquare_loop_h h a ps = Some (q, h')"
    unfolding p by (auto simp: bind_eq_Some_conv split: if_splits)
  with Cons.IH show ?case by (auto simp: extends_refl)
qed

lemma getEmptySquare_h_extends: "getEmptySquare_h h a = Some (q, h') \<Longrightarrow> extends h h'"
  using getEmptySquare_loop_h_extends
  by (auto simp: getEmptySquare_h_def bind_eq_Some_conv)

lemma fresh_board_set_value:
  assumes fb: "fresh_board n m h a" and q: "get_sq_h h a i j = Some q"
    and s: "deref (objects h) q = Some s"
    and h1: "h1 = h\<lparr>objects := (objects h)[q := s\<lparr>value_h := v\<rparr>]\<rparr>"
  shows "above n m h h1 \<and> fresh_board n m h1 a"
proof -
  from fresh_board_get [OF fb q] have nq: "n \<le> q" .
  have ab: "above n m h h1" using nq by (simp add: above_def h1)
  have "fresh_board n m h1 a"
    unfolding fresh_board_def
  proof (intro conjI allI impI)
    show "m \<le> length (numbers h1)" using fb by (simp add: h1 fresh_board_def)
  next
    fix outer r inner q'
    assume "deref (arrays h1) a = Some outer" "r \<in> set outer"
      "deref (arrays h1) r = Some inner" "q' \<in> set inner"
    then have *: "deref (arrays h) a = Some outer" "r \<in> set outer"
      "deref (arrays h) r = Some inner" "q' \<in> set inner" by (simp_all add: h1)
    with fb show "n \<le> q'" unfolding fresh_board_def by blast
  next
    fix outer r inner q' s'
    assume "deref (arrays h1) a = Some outer" "r \<in> set outer"
      "deref (arrays h1) r = Some inner" "q' \<in> set inner"
      and s': "deref (objects h1) q' = Some s'"
    then have *: "deref (arrays h) a = Some outer" "r \<in> set outer"
      "deref (arrays h) r = Some inner" "q' \<in> set inner" by (simp_all add: h1)
    from s' obtain s0 where s0: "deref (objects h) q' = Some s0" and d: "domain_h s' = domain_h s0"
      using s by (cases "q' = q") (auto simp: h1 deref_Some)
    from * fb s0 have "m \<le> domain_h s0" unfolding fresh_board_def by blast
    with d show "m \<le> domain_h s'" by simp
  qed
  with ab show ?thesis by simp
qed

lemma trial_h_extends:
  assumes "trial_h h a square i = Some (b, n, h')"
  shows "extends h h'"
proof -
  from assms obtain x where cp: "copySquares_h h a = Some x"
    and r1: "(case x of (newSquares, h1) \<Rightarrow>
       do { sq \<leftarrow> deref (objects h1) square;
            d \<leftarrow> deref (numbers h1) (domain_h sq);
            v \<leftarrow> (if i < length d then Some (d ! i) else None);
            q \<leftarrow> get_sq_h h1 newSquares (row_h sq) (col_h sq);
            s \<leftarrow> deref (objects h1) q;
            let h2 = h1\<lparr>objects := (objects h1)[q := s\<lparr>value_h := v\<rparr>]\<rparr>;
            sq2 \<leftarrow> deref (objects h2) square;
            (success, h3) \<leftarrow> updateDomains_h h2 newSquares (row_h sq2) (col_h sq2);
            Some (success, newSquares, h3) }) = Some (b, n, h')"
    unfolding trial_h_def by (rule bind_SomeE)
  obtain n1 h1 where x: "x = (n1, h1)" by (cases x)
  from copySquares_h_extends [of h a n1 h1] cp x
  have e1: "extends h h1"
    and f1: "fresh_board (length (objects h)) (length (numbers h)) h1 n1" by simp_all
  from r1 [unfolded x prod.case] obtain sq where "deref (objects h1) square = Some sq" and
    r1a: "do { d \<leftarrow> deref (numbers h1) (domain_h sq);
            v \<leftarrow> (if i < length d then Some (d ! i) else None);
            q \<leftarrow> get_sq_h h1 n1 (row_h sq) (col_h sq);
            s \<leftarrow> deref (objects h1) q;
            let h2 = h1\<lparr>objects := (objects h1)[q := s\<lparr>value_h := v\<rparr>]\<rparr>;
            sq2 \<leftarrow> deref (objects h2) square;
            (success, h3) \<leftarrow> updateDomains_h h2 n1 (row_h sq2) (col_h sq2);
            Some (success, n1, h3) } = Some (b, n, h')"
    by (rule bind_SomeE)
  from r1a obtain d where "deref (numbers h1) (domain_h sq) = Some d" and
    r1b: "do { v \<leftarrow> (if i < length d then Some (d ! i) else None);
            q \<leftarrow> get_sq_h h1 n1 (row_h sq) (col_h sq);
            s \<leftarrow> deref (objects h1) q;
            let h2 = h1\<lparr>objects := (objects h1)[q := s\<lparr>value_h := v\<rparr>]\<rparr>;
            sq2 \<leftarrow> deref (objects h2) square;
            (success, h3) \<leftarrow> updateDomains_h h2 n1 (row_h sq2) (col_h sq2);
            Some (success, n1, h3) } = Some (b, n, h')"
    by (rule bind_SomeE)
  from r1b obtain v where "(if i < length d then Some (d ! i) else None) = Some v" and
    r2: "do { q \<leftarrow> get_sq_h h1 n1 (row_h sq) (col_h sq);
            s \<leftarrow> deref (objects h1) q;
            let h2 = h1\<lparr>objects := (objects h1)[q := s\<lparr>value_h := v\<rparr>]\<rparr>;
            sq2 \<leftarrow> deref (objects h2) square;
            (success, h3) \<leftarrow> updateDomains_h h2 n1 (row_h sq2) (col_h sq2);
            Some (success, n1, h3) } = Some (b, n, h')"
    by (rule bind_SomeE)
  from r2 obtain q where q: "get_sq_h h1 n1 (row_h sq) (col_h sq) = Some q"
    and r3: "do { s \<leftarrow> deref (objects h1) q;
            let h2 = h1\<lparr>objects := (objects h1)[q := s\<lparr>value_h := v\<rparr>]\<rparr>;
            sq2 \<leftarrow> deref (objects h2) square;
            (success, h3) \<leftarrow> updateDomains_h h2 n1 (row_h sq2) (col_h sq2);
            Some (success, n1, h3) } = Some (b, n, h')"
    by (rule bind_SomeE)
  from r3 obtain s where s: "deref (objects h1) q = Some s"
    and r4: "(let h2 = h1\<lparr>objects := (objects h1)[q := s\<lparr>value_h := v\<rparr>]\<rparr>
         in do { sq2 \<leftarrow> deref (objects h2) square;
            (success, h3) \<leftarrow> updateDomains_h h2 n1 (row_h sq2) (col_h sq2);
            Some (success, n1, h3) }) = Some (b, n, h')"
    by (rule bind_SomeE)
  define h2 where "h2 = h1\<lparr>objects := (objects h1)[q := s\<lparr>value_h := v\<rparr>]\<rparr>"
  from fresh_board_set_value [OF f1 q s h2_def]
  have a2: "above (length (objects h)) (length (numbers h)) h1 h2"
    and f2: "fresh_board (length (objects h)) (length (numbers h)) h2 n1" by simp_all
  from r4 obtain sq2 where "deref (objects h2) square = Some sq2" and
    r5: "do { (success, h3) \<leftarrow> updateDomains_h h2 n1 (row_h sq2) (col_h sq2);
            Some (success, n1, h3) } = Some (b, n, h')"
    unfolding Let_def h2_def [symmetric] by (rule bind_SomeE)
  from r5 obtain y where u: "updateDomains_h h2 n1 (row_h sq2) (col_h sq2) = Some y"
    and r6: "(case y of (success, h3) \<Rightarrow> Some (success, n1, h3)) = Some (b, n, h')"
    by (rule bind_SomeE)
  obtain c h3 where y: "y = (c, h3)" by (cases y)
  with r6 have "h3 = h'" by simp
  with updateDomains_h_above [OF f2 u [unfolded y]]
  have "above (length (objects h)) (length (numbers h)) h2 h'" by simp
  with a2 have "above (length (objects h)) (length (numbers h)) h1 h'" by (rule above_trans)
  with e1 show ?thesis by (rule extends_above)
qed

lemma backtrack_h_extends_aux:
  "(\<forall>h c r h'. backtrack_h n h c = Some (r, h') \<longrightarrow> extends h h') \<and>
   (\<forall>h c q i r h'. backtrack_loop_h n h c q i = Some (r, h') \<longrightarrow> extends h h')"
proof (induction n)
  case 0
  then show ?case by simp
next
  case (Suc n)
  then have IHb: "\<And>h c r h'. backtrack_h n h c = Some (r, h') \<Longrightarrow> extends h h'"
    and IHl: "\<And>h c q i r h'. backtrack_loop_h n h c q i = Some (r, h') \<Longrightarrow> extends h h'"
    by blast+
  have b: "extends h h'" if res: "backtrack_h (Suc n) h c = Some (r, h')" for h c r h'
  proof -
    from res obtain full where "isFull_h h (squares_h c) = Some full"
      and r1: "(if full then Some (c, h)
          else do { (square, h1) \<leftarrow> getEmptySquare_h h (squares_h c);
                    backtrack_loop_h n h1 c square 0 }) = Some (r, h')"
      unfolding backtrack_h.simps by (rule bind_SomeE)
    show ?thesis
    proof (cases full)
      case True
      with r1 show ?thesis by (simp add: extends_refl)
    next
      case False
      with r1 obtain x where g: "getEmptySquare_h h (squares_h c) = Some x"
        and r2: "(case x of (square, h1) \<Rightarrow> backtrack_loop_h n h1 c square 0) = Some (r, h')"
        by (simp only: if_False) (rule bind_SomeE)
      obtain q h1 where x: "x = (q, h1)" by (cases x)
      from getEmptySquare_h_extends [of h "squares_h c" q h1] g x have "extends h h1" by simp
      moreover from r2 x have "extends h1 h'" by (auto intro: IHl)
      ultimately show ?thesis by (rule extends_trans)
    qed
  qed
  have l: "extends h h'" if res: "backtrack_loop_h (Suc n) h c q i = Some (r, h')" for h c q i r h'
  proof -
    from res obtain sq where "deref (objects h) q = Some sq" and
      r1: "do { d \<leftarrow> deref (numbers h) (domain_h sq);
          if i < length d
          then do { (success, newSquares, h1) \<leftarrow> trial_h h (squares_h c) q i;
                    if success
                    then do { (next, h2) \<leftarrow> new_SudokuCSP_h h1 newSquares False;
                              (result, h3) \<leftarrow> backtrack_h n h2 next;
                              if \<not> failure_h result then Some (result, h3)
                              else backtrack_loop_h n h3 c q (Suc i) }
                    else backtrack_loop_h n h1 c q (Suc i) }
          else new_SudokuCSP_h h (squares_h c) True } = Some (r, h')"
      unfolding backtrack_loop_h.simps by (rule bind_SomeE)
    from r1 obtain d where "deref (numbers h) (domain_h sq) = Some d" and
      r2: "(if i < length d
          then do { (success, newSquares, h1) \<leftarrow> trial_h h (squares_h c) q i;
                    if success
                    then do { (next, h2) \<leftarrow> new_SudokuCSP_h h1 newSquares False;
                              (result, h3) \<leftarrow> backtrack_h n h2 next;
                              if \<not> failure_h result then Some (result, h3)
                              else backtrack_loop_h n h3 c q (Suc i) }
                    else backtrack_loop_h n h1 c q (Suc i) }
          else new_SudokuCSP_h h (squares_h c) True) = Some (r, h')"
      by (rule bind_SomeE)
    show ?thesis
    proof (cases "i < length d")
      case False
      with r2 show ?thesis by (auto intro: new_SudokuCSP_h_extends)
    next
      case True
      with r2 obtain x where t: "trial_h h (squares_h c) q i = Some x"
        and r3: "(case x of (success, newSquares, h1) \<Rightarrow>
                    if success
                    then do { (next, h2) \<leftarrow> new_SudokuCSP_h h1 newSquares False;
                              (result, h3) \<leftarrow> backtrack_h n h2 next;
                              if \<not> failure_h result then Some (result, h3)
                              else backtrack_loop_h n h3 c q (Suc i) }
                    else backtrack_loop_h n h1 c q (Suc i)) = Some (r, h')"
        by (simp only: if_True) (rule bind_SomeE)
      obtain success n1 h1 where x: "x = (success, n1, h1)" by (cases x)
      from trial_h_extends [of h "squares_h c" q i success n1 h1] t x
      have e1: "extends h h1" by simp
      show ?thesis
      proof (cases success)
        case False
        with r3 x have "backtrack_loop_h n h1 c q (Suc i) = Some (r, h')" by simp
        from IHl [OF this] e1 show ?thesis by (auto intro: extends_trans)
      next
        case True
        with r3 x obtain y where nw: "new_SudokuCSP_h h1 n1 False = Some y"
          and r4: "(case y of (next, h2) \<Rightarrow>
                     do { (result, h3) \<leftarrow> backtrack_h n h2 next;
                          if \<not> failure_h result then Some (result, h3)
                          else backtrack_loop_h n h3 c q (Suc i) }) = Some (r, h')"
          by (simp only: prod.case if_True) (rule bind_SomeE)
        obtain nx h2 where y: "y = (nx, h2)" by (cases y)
        from new_SudokuCSP_h_extends [of h1 n1 False nx h2] nw y
        have e2: "extends h1 h2" by simp
        from r4 [unfolded y prod.case] obtain z where bt: "backtrack_h n h2 nx = Some z"
          and r5: "(case z of (result, h3) \<Rightarrow>
                          if \<not> failure_h result then Some (result, h3)
                          else backtrack_loop_h n h3 c q (Suc i)) = Some (r, h')"
          by (rule bind_SomeE)
        obtain res h3 where z: "z = (res, h3)" by (cases z)
        from IHb [of h2 nx res h3] bt z have e3: "extends h2 h3" by simp
        from r5 z have "h' = h3 \<or> backtrack_loop_h n h3 c q (Suc i) = Some (r, h')"
          by (auto split: if_splits)
        then have "extends h3 h'" by (auto intro: IHl extends_refl)
        with e1 e2 e3 show ?thesis by (auto intro: extends_trans)
      qed
    qed
  qed
  from b l show ?case by blast
qed

lemma backtrack_h_extends: "backtrack_h n h c = Some (r, h') \<Longrightarrow> extends h h'"
  using backtrack_h_extends_aux by blast

lemma solve_h_extends:
  assumes "solve_h fuel h a = Some (r, h')"
  shows "extends h h'"
proof -
  from assms obtain x where cp: "copySquares_h h a = Some x"
    and r1: "(case x of (newSquares, h1) \<Rightarrow>
       do { (valid, h2) \<leftarrow> updateAllDomains_h h1 newSquares;
            (start, h3) \<leftarrow> new_SudokuCSP_h h2 newSquares False;
            backtrack_h fuel h3 start }) = Some (r, h')"
    unfolding solve_h_def by (rule bind_SomeE)
  obtain n1 h1 where x: "x = (n1, h1)" by (cases x)
  from copySquares_h_extends [of h a n1 h1] cp x
  have e1: "extends h h1"
    and f1: "fresh_board (length (objects h)) (length (numbers h)) h1 n1" by simp_all
  from r1 [unfolded x prod.case] obtain y where u: "updateAllDomains_h h1 n1 = Some y"
    and r2: "(case y of (valid, h2) \<Rightarrow>
       do { (start, h3) \<leftarrow> new_SudokuCSP_h h2 n1 False;
            backtrack_h fuel h3 start }) = Some (r, h')"
    by (rule bind_SomeE)
  obtain valid h2 where y: "y = (valid, h2)" by (cases y)
  from updateAllDomains_h_above [OF f1 u [unfolded y]]
  have "above (length (objects h)) (length (numbers h)) h1 h2" by simp
  with e1 have e2: "extends h h2" by (rule extends_above)
  from r2 [unfolded y prod.case] obtain z where nw: "new_SudokuCSP_h h2 n1 False = Some z"
    and r3: "(case z of (start, h3) \<Rightarrow> backtrack_h fuel h3 start) = Some (r, h')"
    by (rule bind_SomeE)
  obtain start h3 where z: "z = (start, h3)" by (cases z)
  from new_SudokuCSP_h_extends [of h2 n1 False start h3] nw z have e3: "extends h2 h3" by simp
  from r3 z have "backtrack_h fuel h3 start = Some (r, h')" by simp
  then have "extends h3 h'" by (rule backtrack_h_extends)
  with e2 e3 show ?thesis by (auto intro: extends_trans)
qed

subsection \<open>What a caller reads is stable\<close>

lemma view_sq_h_obj: "view_sq_h h a i j = do { q \<leftarrow> get_sq_h h a i j; obj_view h q }"
  by (cases "get_sq_h h a i j")
     (auto simp: view_sq_h_def read_sq_h_def obj_view_def map_option_case
           split: option.splits bind_splits)

lemma deref_prefix: "prefix xs ys \<Longrightarrow> deref xs a = Some x \<Longrightarrow> deref ys a = Some x"
  by (auto simp: deref_def prefix_def nth_append split: if_splits)

lemma obj_view_prefix:
  assumes "prefix (objects h) (objects h')" "prefix (numbers h) (numbers h')"
    "obj_view h q = Some c"
  shows "obj_view h' q = Some c"
proof -
  from assms(3) obtain s d where "deref (objects h) q = Some s"
    "deref (numbers h) (domain_h s) = Some d"
    "c = \<lparr>row = row_h s, col = col_h s, value = value_h s, domain = d\<rparr>"
    by (auto simp: obj_view_def bind_eq_Some_conv)
  with assms(1,2) show ?thesis
    by (simp add: obj_view_def deref_prefix [of "objects h" "objects h'"]
        deref_prefix [of "numbers h" "numbers h'"])
qed

lemma get_sq_h_extends:
  assumes "extends h h'" "get_sq_h h a i j = Some q"
  shows "get_sq_h h' a i j = Some q"
proof -
  from assms(2) obtain outer r inner where "deref (arrays h) a = Some outer"
    "js_index outer i = Some r" "deref (arrays h) r = Some inner" "js_index inner j = Some q"
    by (auto simp: get_sq_h_def bind_eq_Some_conv)
  with assms(1) show ?thesis
    by (simp add: get_sq_h_def extends_def deref_prefix [of "arrays h" "arrays h'"])
qed

lemma view_sq_h_extends:
  assumes "extends h h'" "view_sq_h h a i j = Some c"
  shows "view_sq_h h' a i j = Some c"
proof -
  from assms(2) obtain q where q: "get_sq_h h a i j = Some q" "obj_view h q = Some c"
    by (auto simp: view_sq_h_obj bind_eq_Some_conv)
  from get_sq_h_extends [OF assms(1) q(1)] obj_view_prefix [OF _ _ q(2), of h'] assms(1)
  show ?thesis by (simp add: view_sq_h_obj extends_def)
qed

lemma length_h_extends: "extends h h' \<Longrightarrow> length_h h a = Some is \<Longrightarrow> length_h h' a = Some is"
  by (auto simp: length_h_def bind_eq_Some_conv extends_def
      dest: deref_prefix [of "arrays h" "arrays h'"])

lemma those_Some: "those xs = Some ys \<longleftrightarrow> xs = map Some ys"
proof (induction xs arbitrary: ys)
  case Nil
  then show ?case by auto
next
  case (Cons x xs)
  show ?case
  proof (cases x)
    case None
    then show ?thesis by auto
  next
    case (Some y)
    have "those (x # xs) = Some ys \<longleftrightarrow> (\<exists>ys'. those xs = Some ys' \<and> ys = y # ys')"
      using Some by (auto simp: map_option_case split: option.splits)
    also have "\<dots> \<longleftrightarrow> (\<exists>ys'. xs = map Some ys' \<and> ys = y # ys')"
      by (simp only: Cons.IH)
    also have "\<dots> \<longleftrightarrow> x # xs = map Some ys"
      using Some by (cases ys) auto
    finally show ?thesis .
  qed
qed

lemma those_map_Some:
  "those (map f xs) = Some ys \<longleftrightarrow> map f xs = map Some ys"
  by (rule those_Some)

lemma those_map_cong:
  assumes "those (map f xs) = Some ys" "\<And>x y. x \<in> set xs \<Longrightarrow> f x = Some y \<Longrightarrow> g x = Some y"
  shows "those (map g xs) = Some ys"
proof -
  from assms(1) have eq: "map f xs = map Some ys" by (simp add: those_map_Some)
  have "map g xs = map f xs"
  proof (rule map_cong [OF refl])
    fix x assume x: "x \<in> set xs"
    with eq obtain y where "f x = Some y"
      by (metis (no_types, lifting) imageE image_eqI list.set_map)
    with assms(2) [OF x] show "g x = f x" by simp
  qed
  with eq show ?thesis by (simp add: those_map_Some)
qed

lemma view_h_extends:
  assumes "extends h h'" "view_h h a = Some b"
  shows "view_h h' a = Some b"
proof -
  from assms(2) obtain "is" where l: "length_h h a = Some is"
    and v: "those (map (\<lambda>i. those (map (\<lambda>j. view_sq_h h a i j) is)) is) = Some b"
    by (auto simp: view_h_def bind_eq_Some_conv)
  have "those (map (\<lambda>i. those (map (\<lambda>j. view_sq_h h' a i j) is)) is) = Some b"
    using v
  proof (rule those_map_cong)
    fix i r assume "those (map (view_sq_h h a i) is) = Some r"
    then show "those (map (view_sq_h h' a i) is) = Some r"
      by (rule those_map_cong) (rule view_sq_h_extends [OF assms(1)])
  qed
  with length_h_extends [OF assms(1) l] show ?thesis by (simp add: view_h_def)
qed

subsection \<open>updateDomains on the store and on boards\<close>

lemma repr_shape9: "repr h a b \<Longrightarrow> shape9 b"
  by (simp add: repr_def)

lemma repr_cell:
  "repr h a b \<Longrightarrow> i < 9 \<Longrightarrow> j < 9 \<Longrightarrow>
   cell h a i j < length (objects h) \<and> domain_h (objects h ! cell h a i j) < length (numbers h)
   \<and> b ! i ! j = sq_of h (cell h a i j)"
  by (simp add: repr_def)

lemma repr_inj_cell:
  "repr h a b \<Longrightarrow> i < 9 \<Longrightarrow> j < 9 \<Longrightarrow> i' < 9 \<Longrightarrow> j' < 9 \<Longrightarrow>
   cell h a i j = cell h a i' j' \<Longrightarrow> i = i' \<and> j = j'"
  unfolding repr_def by blast

lemma repr_inj_domain:
  "repr h a b \<Longrightarrow> i < 9 \<Longrightarrow> j < 9 \<Longrightarrow> i' < 9 \<Longrightarrow> j' < 9 \<Longrightarrow>
   domain_h (objects h ! cell h a i j) = domain_h (objects h ! cell h a i' j') \<Longrightarrow> i = i' \<and> j = j'"
  unfolding repr_def by blast

lemma in_range_nat: "in_range i j \<Longrightarrow> nat i < 9 \<and> nat j < 9 \<and> i = int (nat i) \<and> j = int (nat j)"
  unfolding in_range_def by linarith

lemma get_sq_shape9:
  "shape9 b \<Longrightarrow> get_sq b i j = (if in_range i j then Some (b ! nat i ! nat j) else None)"
  by (auto simp: get_sq_def js_index_def shape9_length shape9_nth in_range_def)

lemma repr_get_sq_h:
  assumes "repr h a b"
  shows "get_sq_h h a i j = (if in_range i j then Some (cell h a (nat i) (nat j)) else None)"
proof (cases "0 \<le> i \<and> i < 9")
  case False
  with assms show ?thesis
    by (auto simp: get_sq_h_def deref_def js_index_def repr_def in_range_def)
next
  case True
  then have i: "nat i < 9" by linarith
  with assms have r: "arrays h ! a ! nat i < length (arrays h)"
    "length (arrays h ! (arrays h ! a ! nat i)) = 9" by (simp_all add: repr_def)
  with assms True show ?thesis
    by (auto simp: get_sq_h_def deref_def js_index_def repr_def cell_def in_range_def)
qed

lemma rel_option_bind:
  assumes "rel_option R m m'" "\<And>x y. R x y \<Longrightarrow> rel_option S (f x) (g y)"
  shows "rel_option S (Option.bind m f) (Option.bind m' g)"
  using assms by (cases m; cases m') auto

lemma read_sim:
  assumes "repr h a b"
  shows "rel_option (\<lambda>sd c. c = \<lparr>row = row_h (fst sd), col = col_h (fst sd),
                                 value = value_h (fst sd), domain = snd sd\<rparr>
                       \<and> (\<exists>i<9. \<exists>j<9. fst sd = objects h ! cell h a i j))
           (read_sq_h h a i j) (get_sq b i j)"
proof (cases "in_range i j")
  case False
  with assms show ?thesis
    by (simp add: read_sq_h_def repr_get_sq_h get_sq_shape9 repr_shape9)
next
  case True
  then have ij: "nat i < 9" "nat j < 9" by (simp_all add: in_range_nat)
  from repr_cell [OF assms ij] True assms ij show ?thesis
    by (auto simp: read_sq_h_def repr_get_sq_h get_sq_shape9 repr_shape9 deref_def sq_of_def)
qed

lemma cell_arrays: "arrays h' = arrays h \<Longrightarrow> cell h' a i j = cell h a i j"
  by (simp add: cell_def)

lemma repr_write_numbers:
  assumes r: "repr h a b" and ij: "i < 9" "j < 9"
    and h': "h' = h\<lparr>numbers := (numbers h)[domain_h (objects h ! cell h a i j) := xs]\<rparr>"
  shows "repr h' a (upd_sq b i j (\<lambda>s. s\<lparr>domain := xs\<rparr>))"
proof -
  have c: "cell h' a i' j' = cell h a i' j'" for i' j' by (simp add: cell_def h')
  have o: "objects h' = objects h" by (simp add: h')
  have n: "numbers h' = (numbers h)[domain_h (objects h ! cell h a i j) := xs]" by (simp add: h')
  have ar: "arrays h' = arrays h" by (simp add: h')
  have sh: "shape9 b" using r by (rule repr_shape9)
  have cells: "cell h' a i' j' < length (objects h')
            \<and> domain_h (objects h' ! cell h' a i' j') < length (numbers h')
            \<and> upd_sq b i j (\<lambda>s. s\<lparr>domain := xs\<rparr>) ! i' ! j' = sq_of h' (cell h' a i' j')"
    if b: "i' < 9" "j' < 9" for i' j'
  proof (cases "i' = i \<and> j' = j")
    case True
    with repr_cell [OF r ij] sh ij show ?thesis
      by (simp add: c o n sq_of_def)
  next
    case False
    with repr_inj_domain [OF r b ij]
    have "domain_h (objects h ! cell h a i' j') \<noteq> domain_h (objects h ! cell h a i j)" by blast
    with repr_cell [OF r b] sh ij b False show ?thesis
      by (auto simp: c o n sq_of_def)
  qed
  show ?thesis
    unfolding repr_def
  proof (intro conjI allI impI)
    show "shape9 (upd_sq b i j (\<lambda>s. s\<lparr>domain := xs\<rparr>))" using sh by simp
    show "a < length (arrays h')" "length (arrays h' ! a) = 9" using r by (simp_all add: repr_def ar)
  next
    fix i' :: nat assume "i' < 9"
    with r show "arrays h' ! a ! i' < length (arrays h')"
      "length (arrays h' ! (arrays h' ! a ! i')) = 9" by (simp_all add: repr_def ar)
  next
    fix i' j' :: nat assume b: "i' < 9" "j' < 9"
    from cells [OF b] show "cell h' a i' j' < length (objects h')"
      "domain_h (objects h' ! cell h' a i' j') < length (numbers h')"
      "upd_sq b i j (\<lambda>s. s\<lparr>domain := xs\<rparr>) ! i' ! j' = sq_of h' (cell h' a i' j')" by simp_all
  next
    fix i1 j1 i2 j2 :: nat
    assume b: "i1 < 9" "j1 < 9" "i2 < 9" "j2 < 9"
      and e: "cell h' a i1 j1 = cell h' a i2 j2
        \<or> domain_h (objects h' ! cell h' a i1 j1) = domain_h (objects h' ! cell h' a i2 j2)"
    then have "cell h a i1 j1 = cell h a i2 j2
        \<or> domain_h (objects h ! cell h a i1 j1) = domain_h (objects h ! cell h a i2 j2)"
      by (simp add: c o)
    with r b show "i1 = i2" "j1 = j2" unfolding repr_def by blast+
  qed
qed

lemma prune_sim:
  assumes "repr h a b"
  shows "rel_option (\<lambda>h' b'. repr h' a b') (prune_h h a i j v skip) (prune b i j v skip)"
proof (cases "in_range i j")
  case False
  with assms show ?thesis
    by (simp add: prune_h_def prune_def read_sq_h_def repr_get_sq_h get_sq_shape9 repr_shape9)
next
  case True
  then have ij: "nat i < 9" "nat j < 9" and eq: "i = int (nat i)" "j = int (nat j)"
    using in_range_nat [of i j] by blast+
  define q where "q = cell h a (nat i) (nat j)"
  define d where "d = numbers h ! domain_h (objects h ! q)"
  have sh: "shape9 b" using assms by (rule repr_shape9)
  from repr_cell [OF assms ij] have qb: "q < length (objects h)"
    "domain_h (objects h ! q) < length (numbers h)" and bij: "b ! nat i ! nat j = sq_of h q"
    by (simp_all add: q_def)
  have rd: "read_sq_h h a i j = Some (objects h ! q, d)"
    using True qb assms by (simp add: read_sq_h_def repr_get_sq_h deref_def q_def d_def)
  have gs: "get_sq b i j = Some (b ! nat i ! nat j)" using True sh by (simp add: get_sq_shape9)
  have dom: "domain (b ! nat i ! nat j) = d" by (simp add: bij sq_of_def d_def)
  show ?thesis
  proof (cases "indexOf d v \<noteq> -1 \<and> \<not> skip")
    case False
    with rd gs dom assms show ?thesis by (auto simp: prune_h_def prune_def)
  next
    case w: True
    have ph: "prune_h h a i j v skip
        = Some (h\<lparr>numbers := (numbers h)[domain_h (objects h ! q) := splice1 d (indexOf d v)]\<rparr>)"
      using w rd by (simp add: prune_h_def)
    have "modify_sq b (int (nat i)) (int (nat j)) (\<lambda>s. s\<lparr>domain := splice1 (domain s) (indexOf d v)\<rparr>)
        = Some (upd_sq b (nat i) (nat j) (\<lambda>s. s\<lparr>domain := splice1 (domain s) (indexOf d v)\<rparr>))"
      using sh ij by (rule modify_sq_nat)
    moreover have "upd_sq b (nat i) (nat j) (\<lambda>s. s\<lparr>domain := splice1 (domain s) (indexOf d v)\<rparr>)
        = upd_sq b (nat i) (nat j) (\<lambda>s. s\<lparr>domain := splice1 d (indexOf d v)\<rparr>)"
      by (simp add: upd_sq_def dom)
    ultimately have pp: "prune b i j v skip
        = Some (upd_sq b (nat i) (nat j) (\<lambda>s. s\<lparr>domain := splice1 d (indexOf d v)\<rparr>))"
      using w gs dom eq by (simp add: prune_def)
    from repr_write_numbers [OF assms ij refl, of "splice1 d (indexOf d v)"]
    show ?thesis by (simp add: ph pp q_def)
  qed
qed

lemma ret_rel_pair: "ret_rel a (c, h) (c', b) \<longleftrightarrow> c = c' \<and> repr h a b"
  by (simp add: ret_rel_def)

lemma updateDomains_rowcol_sim:
  assumes "repr h a b"
  shows "rel_option (ret_rel a) (updateDomains_rowcol_h h a rw cl v is)
           (updateDomains_rowcol b rw cl v is)"
  using assms
proof (induction "is" arbitrary: h b)
  case Nil
  then show ?case by (simp add: ret_rel_pair)
next
  case (Cons i "is")
  show ?case
    unfolding updateDomains_rowcol_h.simps updateDomains_rowcol.simps
  proof (rule rel_option_bind [OF prune_sim [OF Cons.prems]])
    fix h1 b1 assume r1: "repr h1 a b1"
    show "rel_option (ret_rel a)
       (prune_h h1 a i cl v (i = rw) \<bind>
        (\<lambda>h2. read_sq_h h2 a rw i \<bind>
          (\<lambda>(s1, d1). read_sq_h h2 a i cl \<bind>
            (\<lambda>(s2, d2). if length d1 = 0 \<or> length d2 = 0 then Some (False, h2)
                           else updateDomains_rowcol_h h2 a rw cl v is))))
       (prune b1 i cl v (i = rw) \<bind>
        (\<lambda>sqs2. get_sq sqs2 rw i \<bind>
          (\<lambda>a. get_sq sqs2 i cl \<bind>
            (\<lambda>b. if length (domain a) = 0 \<or> length (domain b) = 0 then Some (False, sqs2)
                   else updateDomains_rowcol sqs2 rw cl v is))))"
    proof (rule rel_option_bind [OF prune_sim [OF r1]])
      fix h2 b2 assume r2: "repr h2 a b2"
      show "rel_option (ret_rel a)
         (read_sq_h h2 a rw i \<bind>
          (\<lambda>(s1, d1). read_sq_h h2 a i cl \<bind>
            (\<lambda>(s2, d2). if length d1 = 0 \<or> length d2 = 0 then Some (False, h2)
                           else updateDomains_rowcol_h h2 a rw cl v is)))
         (get_sq b2 rw i \<bind>
          (\<lambda>a. get_sq b2 i cl \<bind>
            (\<lambda>b. if length (domain a) = 0 \<or> length (domain b) = 0 then Some (False, b2)
                   else updateDomains_rowcol b2 rw cl v is)))"
      proof (rule rel_option_bind [OF read_sim [OF r2]])
        fix sd1 c1
        assume "c1 = \<lparr>row = row_h (fst sd1), col = col_h (fst sd1),
                      value = value_h (fst sd1), domain = snd sd1\<rparr>
               \<and> (\<exists>i<9. \<exists>j<9. fst sd1 = objects h2 ! cell h2 a i j)"
        then have d1: "domain c1 = snd sd1" by simp
        obtain s1 d1' where sd1: "sd1 = (s1, d1')" by (cases sd1)
        show "rel_option (ret_rel a)
           (case sd1 of (s1, d1) \<Rightarrow> read_sq_h h2 a i cl \<bind>
              (\<lambda>(s2, d2). if length d1 = 0 \<or> length d2 = 0 then Some (False, h2)
                             else updateDomains_rowcol_h h2 a rw cl v is))
           (get_sq b2 i cl \<bind>
              (\<lambda>b. if length (domain c1) = 0 \<or> length (domain b) = 0 then Some (False, b2)
                     else updateDomains_rowcol b2 rw cl v is))"
          unfolding sd1 prod.case
        proof (rule rel_option_bind [OF read_sim [OF r2]])
          fix sd2 c2
          assume "c2 = \<lparr>row = row_h (fst sd2), col = col_h (fst sd2),
                      value = value_h (fst sd2), domain = snd sd2\<rparr>
               \<and> (\<exists>i<9. \<exists>j<9. fst sd2 = objects h2 ! cell h2 a i j)"
          then have d2: "domain c2 = snd sd2" by simp
          obtain s2 d2' where sd2: "sd2 = (s2, d2')" by (cases sd2)
          from d1 d2 sd1 sd2 r2 Cons.IH [OF r2]
          show "rel_option (ret_rel a)
             (case sd2 of (s2, d2) \<Rightarrow> if length d1' = 0 \<or> length d2 = 0 then Some (False, h2)
                             else updateDomains_rowcol_h h2 a rw cl v is)
             (if length (domain c1) = 0 \<or> length (domain c2) = 0 then Some (False, b2)
                     else updateDomains_rowcol b2 rw cl v is)"
            by (simp add: ret_rel_pair)
        qed
      qed
    qed
  qed
qed

lemma updateDomains_box_sim:
  assumes "repr h a b"
  shows "rel_option (ret_rel a) (updateDomains_box_h h a rw cl v ps)
           (updateDomains_box b rw cl v ps)"
  using assms
proof (induction ps arbitrary: h b)
  case Nil
  then show ?case by (simp add: ret_rel_pair)
next
  case (Cons p ps)
  obtain i j where p: "p = (i, j)" by (cases p)
  show ?case
    unfolding p updateDomains_box_h.simps updateDomains_box.simps
  proof (rule rel_option_bind [OF prune_sim [OF Cons.prems]])
    fix h1 b1 assume r1: "repr h1 a b1"
    show "rel_option (ret_rel a)
       (read_sq_h h1 a i j \<bind>
          (\<lambda>(s, d). if length d = 0 then Some (False, h1)
                       else updateDomains_box_h h1 a rw cl v ps))
       (get_sq b1 i j \<bind>
          (\<lambda>a. if length (domain a) = 0 then Some (False, b1)
                 else updateDomains_box b1 rw cl v ps))"
    proof (rule rel_option_bind [OF read_sim [OF r1]])
      fix sd c
      assume "c = \<lparr>row = row_h (fst sd), col = col_h (fst sd),
                      value = value_h (fst sd), domain = snd sd\<rparr>
               \<and> (\<exists>i<9. \<exists>j<9. fst sd = objects h1 ! cell h1 a i j)"
      then have d: "domain c = snd sd" by simp
      obtain s d' where sd: "sd = (s, d')" by (cases sd)
      from d sd r1 Cons.IH [OF r1]
      show "rel_option (ret_rel a)
         (case sd of (s, d) \<Rightarrow> if length d = 0 then Some (False, h1)
                       else updateDomains_box_h h1 a rw cl v ps)
         (if length (domain c) = 0 then Some (False, b1)
                 else updateDomains_box b1 rw cl v ps)"
        by (simp add: ret_rel_pair)
    qed
  qed
qed

lemma upd_sq_cong: "f (b ! i ! j) = g (b ! i ! j) \<Longrightarrow> upd_sq b i j f = upd_sq b i j g"
  by (simp add: upd_sq_def)

lemma repr_update:
  assumes r: "repr h a b" and ij: "i < 9" "j < 9"
    and ar: "arrays h' = arrays h"
    and lo: "length (objects h') = length (objects h)"
    and oo: "\<And>q. q < length (objects h) \<Longrightarrow> q \<noteq> cell h a i j \<Longrightarrow> objects h' ! q = objects h ! q"
    and ln: "length (numbers h) \<le> length (numbers h')"
    and nn: "\<And>d. d < length (numbers h) \<Longrightarrow> d \<noteq> domain_h (objects h ! cell h a i j) \<Longrightarrow>
               numbers h' ! d = numbers h ! d"
    and nd: "domain_h (objects h' ! cell h a i j) < length (numbers h')"
    and fresh: "domain_h (objects h' ! cell h a i j) = domain_h (objects h ! cell h a i j)
                \<or> length (numbers h) \<le> domain_h (objects h' ! cell h a i j)"
    and new: "sq_of h' (cell h a i j) = f (b ! i ! j)"
  shows "repr h' a (upd_sq b i j f)"
proof -
  have c: "cell h' a i' j' = cell h a i' j'" for i' j' by (simp add: cell_def ar)
  have sh: "shape9 b" using r by (rule repr_shape9)
  define q where "q = cell h a i j"
  have other: "cell h a i' j' \<noteq> q \<and> objects h' ! cell h a i' j' = objects h ! cell h a i' j'
      \<and> domain_h (objects h ! cell h a i' j') \<noteq> domain_h (objects h ! q)
      \<and> domain_h (objects h ! cell h a i' j') \<noteq> domain_h (objects h' ! q)
      \<and> numbers h' ! domain_h (objects h ! cell h a i' j')
          = numbers h ! domain_h (objects h ! cell h a i' j')"
    if b: "i' < 9" "j' < 9" and ne: "\<not> (i' = i \<and> j' = j)" for i' j'
  proof -
    from repr_inj_cell [OF r b ij] ne have n1: "cell h a i' j' \<noteq> q" unfolding q_def by blast
    from repr_cell [OF r b] have bd: "cell h a i' j' < length (objects h)"
      "domain_h (objects h ! cell h a i' j') < length (numbers h)" by simp_all
    from oo [OF bd(1)] n1 have o1: "objects h' ! cell h a i' j' = objects h ! cell h a i' j'"
      by (simp add: q_def)
    from repr_inj_domain [OF r b ij] ne
    have d1: "domain_h (objects h ! cell h a i' j') \<noteq> domain_h (objects h ! q)"
      unfolding q_def by blast
    from fresh d1 bd(2) have d2: "domain_h (objects h ! cell h a i' j') \<noteq> domain_h (objects h' ! q)"
      unfolding q_def by auto
    from nn [OF bd(2)] d1 have "numbers h' ! domain_h (objects h ! cell h a i' j')
          = numbers h ! domain_h (objects h ! cell h a i' j')" by (simp add: q_def)
    with n1 o1 d1 d2 show ?thesis by simp
  qed
  show ?thesis
    unfolding repr_def
  proof (intro conjI allI impI)
    show "shape9 (upd_sq b i j f)" using sh by simp
    show "a < length (arrays h')" "length (arrays h' ! a) = 9" using r by (simp_all add: repr_def ar)
  next
    fix i' :: nat assume "i' < 9"
    with r show "arrays h' ! a ! i' < length (arrays h')"
      "length (arrays h' ! (arrays h' ! a ! i')) = 9" by (simp_all add: repr_def ar)
  next
    fix i' j' :: nat assume b: "i' < 9" "j' < 9"
    show "cell h' a i' j' < length (objects h')"
      using repr_cell [OF r b] by (simp add: c lo)
    show "domain_h (objects h' ! cell h' a i' j') < length (numbers h')"
    proof (cases "i' = i \<and> j' = j")
      case True
      with nd show ?thesis by (simp add: c)
    next
      case False
      from other [OF b False] repr_cell [OF r b] ln show ?thesis by (simp add: c)
    qed
    show "upd_sq b i j f ! i' ! j' = sq_of h' (cell h' a i' j')"
    proof (cases "i' = i \<and> j' = j")
      case True
      with new sh ij show ?thesis by (simp add: c)
    next
      case False
      from other [OF b False] repr_cell [OF r b] sh ij b False show ?thesis
        by (auto simp: c sq_of_def)
    qed
  next
    fix i1 j1 i2 j2 :: nat
    assume b: "i1 < 9" "j1 < 9" "i2 < 9" "j2 < 9"
      and e: "cell h' a i1 j1 = cell h' a i2 j2
        \<or> domain_h (objects h' ! cell h' a i1 j1) = domain_h (objects h' ! cell h' a i2 j2)"
    have "i1 = i2 \<and> j1 = j2"
    proof (cases "i1 = i \<and> j1 = j"; cases "i2 = i \<and> j2 = j")
      assume "i1 = i \<and> j1 = j" "i2 = i \<and> j2 = j"
      then show ?thesis by simp
    next
      assume a1: "i1 = i \<and> j1 = j" and a2: "\<not> (i2 = i \<and> j2 = j)"
      from other [OF b(3,4) a2] e a1 show ?thesis by (auto simp: c q_def)
    next
      assume a1: "\<not> (i1 = i \<and> j1 = j)" and a2: "i2 = i \<and> j2 = j"
      from other [OF b(1,2) a1] e a2 show ?thesis by (auto simp: c q_def)
    next
      assume a1: "\<not> (i1 = i \<and> j1 = j)" and a2: "\<not> (i2 = i \<and> j2 = j)"
      from other [OF b(1,2) a1] other [OF b(3,4) a2] e
      have "cell h a i1 j1 = cell h a i2 j2
        \<or> domain_h (objects h ! cell h a i1 j1) = domain_h (objects h ! cell h a i2 j2)"
        by (auto simp: c)
      with r b show ?thesis unfolding repr_def by blast
    qed
    then show "i1 = i2" "j1 = j2" by simp_all
  qed
qed

lemma repr_set_domain:
  assumes r: "repr h a b" and ij: "i < 9" "j < 9"
    and h': "h' = h\<lparr>numbers := numbers h @ [[v]],
                  objects := (objects h)[cell h a i j :=
                     (objects h ! cell h a i j)\<lparr>domain_h := length (numbers h)\<rparr>]\<rparr>"
  shows "repr h' a (upd_sq b i j (\<lambda>s. s\<lparr>domain := [v]\<rparr>))"
proof (rule repr_update [OF r ij])
  from repr_cell [OF r ij] have q: "cell h a i j < length (objects h)"
    and bij: "b ! i ! j = sq_of h (cell h a i j)" by simp_all
  show "arrays h' = arrays h" "length (objects h') = length (objects h)"
    "length (numbers h) \<le> length (numbers h')" by (simp_all add: h')
  show "objects h' ! q = objects h ! q" if "q < length (objects h)" "q \<noteq> cell h a i j" for q
    using that by (simp add: h')
  show "numbers h' ! d = numbers h ! d" if "d < length (numbers h)" for d
    using that by (simp add: h' nth_append)
  show "domain_h (objects h' ! cell h a i j) < length (numbers h')" using q by (simp add: h')
  show "domain_h (objects h' ! cell h a i j) = domain_h (objects h ! cell h a i j)
                \<or> length (numbers h) \<le> domain_h (objects h' ! cell h a i j)"
    using q by (simp add: h')
  show "sq_of h' (cell h a i j) = (b ! i ! j)\<lparr>domain := [v]\<rparr>"
    using q by (simp add: h' sq_of_def bij)
qed

lemma repr_set_value:
  assumes r: "repr h a b" and ij: "i < 9" "j < 9"
    and h': "h' = h\<lparr>objects := (objects h)[cell h a i j :=
                     (objects h ! cell h a i j)\<lparr>value_h := v\<rparr>]\<rparr>"
  shows "repr h' a (upd_sq b i j (\<lambda>s. s\<lparr>value := v\<rparr>))"
proof (rule repr_update [OF r ij])
  from repr_cell [OF r ij] have q: "cell h a i j < length (objects h)"
    "domain_h (objects h ! cell h a i j) < length (numbers h)"
    and bij: "b ! i ! j = sq_of h (cell h a i j)" by simp_all
  show "arrays h' = arrays h" "length (objects h') = length (objects h)"
    "length (numbers h) \<le> length (numbers h')" by (simp_all add: h')
  show "objects h' ! q = objects h ! q" if "q < length (objects h)" "q \<noteq> cell h a i j" for q
    using that by (simp add: h')
  show "numbers h' ! d = numbers h ! d" for d by (simp add: h')
  show "domain_h (objects h' ! cell h a i j) < length (numbers h')" using q by (simp add: h')
  show "domain_h (objects h' ! cell h a i j) = domain_h (objects h ! cell h a i j)
                \<or> length (numbers h) \<le> domain_h (objects h' ! cell h a i j)"
    using q by (simp add: h')
  show "sq_of h' (cell h a i j) = (b ! i ! j)\<lparr>value := v\<rparr>"
    using q by (simp add: h' sq_of_def bij)
qed

lemma repr_length_h: "repr h a b \<Longrightarrow> length_h h a = Some (map int [0..<9])"
  by (simp add: length_h_def deref_def repr_def)

lemma updateDomains_sim:
  assumes r: "repr h a b"
  shows "rel_option (ret_rel a) (updateDomains_h h a rw cl) (updateDomains b rw cl)"
proof (cases "in_range rw cl")
  case False
  with r show ?thesis
    by (simp add: updateDomains_h_def updateDomains_def repr_get_sq_h get_sq_shape9 repr_shape9)
next
  case True
  then have ij: "nat rw < 9" "nat cl < 9" and eq: "rw = int (nat rw)" "cl = int (nat cl)"
    using in_range_nat [of rw cl] by blast+
  define q where "q = cell h a (nat rw) (nat cl)"
  define v where "v = value_h (objects h ! q)"
  have sh: "shape9 b" using r by (rule repr_shape9)
  from repr_cell [OF r ij] have qb: "q < length (objects h)"
    and bij: "b ! nat rw ! nat cl = sq_of h q" by (simp_all add: q_def)
  have val: "value (b ! nat rw ! nat cl) = v" by (simp add: bij sq_of_def v_def)
  show ?thesis
  proof (cases "v = 0")
    case z: True
    have "updateDomains_h h a rw cl = Some (True, h)"
      using True r qb z by (simp add: updateDomains_h_def repr_get_sq_h deref_def q_def v_def)
    moreover have "updateDomains b rw cl = Some (True, b)"
      using True sh val z by (simp add: updateDomains_def get_sq_shape9)
    ultimately show ?thesis using r by (simp add: ret_rel_pair)
  next
    case nz: False
    define h1 where "h1 = h\<lparr>numbers := numbers h @ [[v]],
                  objects := (objects h)[q := (objects h ! q)\<lparr>domain_h := length (numbers h)\<rparr>]\<rparr>"
    define b1 where "b1 = upd_sq b (nat rw) (nat cl) (\<lambda>s. s\<lparr>domain := [v]\<rparr>)"
    have r1: "repr h1 a b1"
      unfolding b1_def using r ij by (rule repr_set_domain) (simp add: h1_def q_def)
    have hs: "updateDomains_h h a rw cl =
        do { (continue, h2) \<leftarrow> updateDomains_rowcol_h h1 a rw cl v (map int [0..<9]);
             if \<not> continue then Some (False, h2)
             else (let r = box_start rw; c = box_start cl
                   in updateDomains_box_h h2 a rw cl v
                        (List.product [r, r + 1, r + 2] [c, c + 1, c + 2])) }"
      using True r qb nz repr_length_h [OF r1] unfolding v_def h1_def q_def
      by (simp add: updateDomains_h_def repr_get_sq_h deref_def Let_def cong: if_cong)
    have "modify_sq b (int (nat rw)) (int (nat cl)) (\<lambda>s. s\<lparr>domain := [v]\<rparr>) = Some b1"
      unfolding b1_def using sh ij by (rule modify_sq_nat)
    with eq have m: "modify_sq b rw cl (\<lambda>s. s\<lparr>domain := [v]\<rparr>) = Some b1" by simp
    have ps: "updateDomains b rw cl =
        do { (continue, sqs2) \<leftarrow> updateDomains_rowcol b1 rw cl v (map int [0..<9]);
             if \<not> continue then Some (False, sqs2)
             else (let r = box_start rw; c = box_start cl
                   in updateDomains_box sqs2 rw cl v
                        (List.product [r, r + 1, r + 2] [c, c + 1, c + 2])) }"
      using True sh nz indices_shape9 [OF repr_shape9 [OF r1]] m
      by (simp add: updateDomains_def get_sq_shape9 Let_def val cong: if_cong)
    show ?thesis
      unfolding hs ps
    proof (rule rel_option_bind [OF updateDomains_rowcol_sim [OF r1]])
      fix x y assume rel: "ret_rel a x y"
      obtain c h2 where x: "x = (c, h2)" by (cases x)
      obtain c' b2 where y: "y = (c', b2)" by (cases y)
      from rel x y have cc: "c' = c" and r2: "repr h2 a b2" by (simp_all add: ret_rel_pair)
      show "rel_option (ret_rel a)
         (case x of (continue, h2) \<Rightarrow> if \<not> continue then Some (False, h2)
             else (let r = box_start rw; c = box_start cl
                   in updateDomains_box_h h2 a rw cl v
                        (List.product [r, r + 1, r + 2] [c, c + 1, c + 2])))
         (case y of (continue, sqs2) \<Rightarrow> if \<not> continue then Some (False, sqs2)
             else (let r = box_start rw; c = box_start cl
                   in updateDomains_box sqs2 rw cl v
                        (List.product [r, r + 1, r + 2] [c, c + 1, c + 2])))"
        unfolding x y cc prod.case Let_def
        using r2 updateDomains_box_sim [OF r2]
        by (cases c) (simp_all only: if_True if_False not_True_eq_False not_False_eq_True
            option.rel_inject ret_rel_pair simp_thms)
    qed
  qed
qed

lemma updateAllDomains_loop_sim:
  assumes "repr h a b"
  shows "rel_option (ret_rel a) (updateAllDomains_loop_h h a ps) (updateAllDomains_loop b ps)"
  using assms
proof (induction ps arbitrary: h b)
  case Nil
  then show ?case by (simp add: ret_rel_pair)
next
  case (Cons p ps)
  obtain i j where p: "p = (i, j)" by (cases p)
  show ?case
    unfolding p updateAllDomains_loop_h.simps updateAllDomains_loop.simps
  proof (rule rel_option_bind [OF updateDomains_sim [OF Cons.prems]])
    fix x y assume rel: "ret_rel a x y"
    obtain c h1 where x: "x = (c, h1)" by (cases x)
    obtain c' b1 where y: "y = (c', b1)" by (cases y)
    from rel x y have cc: "c' = c" and r1: "repr h1 a b1" by (simp_all add: ret_rel_pair)
    show "rel_option (ret_rel a)
       (case x of (valid, h1) \<Rightarrow> if \<not> valid then Some (False, h1)
                                   else updateAllDomains_loop_h h1 a ps)
       (case y of (valid, sqs1) \<Rightarrow> if \<not> valid then Some (False, sqs1)
                                     else updateAllDomains_loop sqs1 ps)"
      unfolding x y cc prod.case
      using r1 Cons.IH [OF r1]
      by (cases c) (simp_all only: if_True if_False not_True_eq_False not_False_eq_True
            option.rel_inject ret_rel_pair simp_thms)
  qed
qed

lemma updateAllDomains_sim:
  assumes "repr h a b"
  shows "rel_option (ret_rel a) (updateAllDomains_h h a) (updateAllDomains b)"
  using updateAllDomains_loop_sim [OF assms, of "cells b"]
  by (simp add: updateAllDomains_h_def updateAllDomains_def repr_length_h [OF assms]
      cells_def indices_shape9 [OF repr_shape9 [OF assms]] del: upt.simps)

subsection \<open>isFull and getEmptySquare on the store and on boards\<close>

lemma prefix_nth: "prefix xs ys \<Longrightarrow> i < length xs \<Longrightarrow> ys ! i = xs ! i"
  by (auto simp: prefix_def nth_append)

lemma repr_extends:
  assumes r: "repr h a b" and e: "extends h h'"
  shows "repr h' a b"
proof -
  from e have pa: "prefix (arrays h) (arrays h')" and po: "prefix (objects h) (objects h')"
    and pn: "prefix (numbers h) (numbers h')" by (simp_all add: extends_def)
  note len = extends_lengths [OF e]
  from r have a: "a < length (arrays h)" and la: "length (arrays h ! a) = 9"
    and rows: "\<And>i. i < 9 \<Longrightarrow> arrays h ! a ! i < length (arrays h)
                  \<and> length (arrays h ! (arrays h ! a ! i)) = 9"
    by (simp_all add: repr_def)
  have aa: "arrays h' ! a = arrays h ! a" using pa a by (rule prefix_nth)
  have ar: "arrays h' ! (arrays h ! a ! i) = arrays h ! (arrays h ! a ! i)" if "i < 9" for i
    using pa rows [OF that] by (intro prefix_nth) simp_all
  have c: "cell h' a i j = cell h a i j" if "i < 9" for i j
    using ar [OF that] by (simp add: cell_def aa)
  have o: "objects h' ! cell h a i j = objects h ! cell h a i j" if "i < 9" "j < 9" for i j
    using po repr_cell [OF r that] by (intro prefix_nth) simp_all
  have n: "numbers h' ! domain_h (objects h ! cell h a i j)
         = numbers h ! domain_h (objects h ! cell h a i j)" if "i < 9" "j < 9" for i j
    using pn repr_cell [OF r that] by (intro prefix_nth) simp_all
  show ?thesis
    unfolding repr_def
  proof (intro conjI allI impI)
    show "shape9 b" using r by (rule repr_shape9)
    show "a < length (arrays h')" using a len by simp
    show "length (arrays h' ! a) = 9" using la by (simp add: aa)
  next
    fix i :: nat assume i: "i < 9"
    from rows [OF i] len show "arrays h' ! a ! i < length (arrays h')" by (simp add: aa)
    from rows [OF i] show "length (arrays h' ! (arrays h' ! a ! i)) = 9"
      by (simp add: aa ar [OF i])
  next
    fix i j :: nat assume b: "i < 9" "j < 9"
    from repr_cell [OF r b] len show "cell h' a i j < length (objects h')"
      by (simp add: c [OF b(1)])
    from repr_cell [OF r b] len show "domain_h (objects h' ! cell h' a i j) < length (numbers h')"
      by (simp add: c [OF b(1)] o [OF b])
    from repr_cell [OF r b] show "b ! i ! j = sq_of h' (cell h' a i j)"
      by (simp add: c [OF b(1)] sq_of_def o [OF b] n [OF b])
  next
    fix i1 j1 i2 j2 :: nat
    assume b: "i1 < 9" "j1 < 9" "i2 < 9" "j2 < 9"
      and "cell h' a i1 j1 = cell h' a i2 j2
        \<or> domain_h (objects h' ! cell h' a i1 j1) = domain_h (objects h' ! cell h' a i2 j2)"
    then have "cell h a i1 j1 = cell h a i2 j2
        \<or> domain_h (objects h ! cell h a i1 j1) = domain_h (objects h ! cell h a i2 j2)"
      by (simp add: c o)
    with r b show "i1 = i2" "j1 = j2" unfolding repr_def by blast+
  qed
qed

lemma isFull_loop_sim:
  assumes "repr h a b"
  shows "isFull_loop_h h a ps = isFull_loop b ps"
proof (induction ps)
  case Nil
  then show ?case by simp
next
  case (Cons p ps)
  obtain i j where p: "p = (i, j)" by (cases p)
  show ?case
  proof (cases "in_range i j")
    case False
    with assms show ?thesis
      by (simp add: p repr_get_sq_h get_sq_shape9 repr_shape9)
  next
    case True
    then have ij: "nat i < 9" "nat j < 9" using in_range_nat [of i j] by blast+
    from repr_cell [OF assms ij] True assms Cons.IH show ?thesis
      by (simp add: p repr_get_sq_h get_sq_shape9 repr_shape9 deref_def sq_of_def)
  qed
qed

lemma isFull_sim: "repr h a b \<Longrightarrow> isFull_h h a = isFull b"
  by (simp add: isFull_h_def isFull_def repr_length_h cells_def indices_shape9 repr_shape9
      isFull_loop_sim del: upt.simps)

lemma getEmptySquare_loop_sim:
  assumes "repr h a b"
  shows "rel_option (sq_rel h a b) (getEmptySquare_loop_h h a ps) (getEmptySquare_loop b ps)"
proof (induction ps)
  case Nil
  define h' where "h' = h\<lparr>numbers := numbers h @ [[]],
             objects := objects h @
               [\<lparr>row_h = -1, col_h = -1, value_h = -1, domain_h = length (numbers h)\<rparr>]\<rparr>"
  have e: "extends h h'" by (simp add: extends_def h'_def)
  from repr_extends [OF assms e] e show ?case
    by (simp add: sq_rel_def h'_def [symmetric]) (simp add: h'_def sq_of_def)
next
  case (Cons p ps)
  obtain i j where p: "p = (i, j)" by (cases p)
  show ?case
  proof (cases "in_range i j")
    case False
    with assms show ?thesis
      by (simp add: p repr_get_sq_h get_sq_shape9 repr_shape9)
  next
    case True
    then have ij: "nat i < 9" "nat j < 9" using in_range_nat [of i j] by blast+
    from repr_cell [OF assms ij] True assms Cons.IH show ?thesis
      by (auto simp: p repr_get_sq_h get_sq_shape9 repr_shape9 deref_def sq_of_def
          sq_rel_def extends_refl)
  qed
qed

lemma getEmptySquare_sim:
  "repr h a b \<Longrightarrow> rel_option (sq_rel h a b) (getEmptySquare_h h a) (getEmptySquare b)"
  using getEmptySquare_loop_sim [of h a b "cells b"]
  by (simp add: getEmptySquare_h_def getEmptySquare_def repr_length_h cells_def indices_shape9
      repr_shape9 del: upt.simps)

subsection \<open>copySquares: one row\<close>

lemma repr_frame:
  assumes r: "repr h a b"
    and aa: "arrays h' ! a = arrays h ! a"
    and ar: "\<And>i. i < 9 \<Longrightarrow> arrays h' ! (arrays h ! a ! i) = arrays h ! (arrays h ! a ! i)"
    and la: "length (arrays h) \<le> length (arrays h')"
    and po: "prefix (objects h) (objects h')" and pn: "prefix (numbers h) (numbers h')"
  shows "repr h' a b"
proof -
  from r have a: "a < length (arrays h)" and l9: "length (arrays h ! a) = 9"
    and rows: "\<And>i. i < 9 \<Longrightarrow> arrays h ! a ! i < length (arrays h)
                  \<and> length (arrays h ! (arrays h ! a ! i)) = 9"
    by (simp_all add: repr_def)
  have lo: "length (objects h) \<le> length (objects h')" and ln: "length (numbers h) \<le> length (numbers h')"
    using po pn by (simp_all add: prefix_length_le)
  have c: "cell h' a i j = cell h a i j" if "i < 9" for i j
    using ar [OF that] by (simp add: cell_def aa)
  have o: "objects h' ! cell h a i j = objects h ! cell h a i j" if "i < 9" "j < 9" for i j
    using po repr_cell [OF r that] by (intro prefix_nth) simp_all
  have n: "numbers h' ! domain_h (objects h ! cell h a i j)
         = numbers h ! domain_h (objects h ! cell h a i j)" if "i < 9" "j < 9" for i j
    using pn repr_cell [OF r that] by (intro prefix_nth) simp_all
  show ?thesis
    unfolding repr_def
  proof (intro conjI allI impI)
    show "shape9 b" using r by (rule repr_shape9)
    show "a < length (arrays h')" using a la by simp
    show "length (arrays h' ! a) = 9" using l9 by (simp add: aa)
  next
    fix i :: nat assume i: "i < 9"
    from rows [OF i] la show "arrays h' ! a ! i < length (arrays h')" by (simp add: aa)
    from rows [OF i] show "length (arrays h' ! (arrays h' ! a ! i)) = 9"
      by (simp add: aa ar [OF i])
  next
    fix i j :: nat assume b: "i < 9" "j < 9"
    from repr_cell [OF r b] lo show "cell h' a i j < length (objects h')"
      by (simp add: c [OF b(1)])
    from repr_cell [OF r b] ln show "domain_h (objects h' ! cell h' a i j) < length (numbers h')"
      by (simp add: c [OF b(1)] o [OF b])
    from repr_cell [OF r b] show "b ! i ! j = sq_of h' (cell h' a i j)"
      by (simp add: c [OF b(1)] sq_of_def o [OF b] n [OF b])
  next
    fix i1 j1 i2 j2 :: nat
    assume b: "i1 < 9" "j1 < 9" "i2 < 9" "j2 < 9"
      and "cell h' a i1 j1 = cell h' a i2 j2
        \<or> domain_h (objects h' ! cell h' a i1 j1) = domain_h (objects h' ! cell h' a i2 j2)"
    then have "cell h a i1 j1 = cell h a i2 j2
        \<or> domain_h (objects h ! cell h a i1 j1) = domain_h (objects h ! cell h a i2 j2)"
      by (simp add: c o)
    with r b show "i1 = i2" "j1 = j2" unfolding repr_def by blast+
  qed
qed

lemma row_inv_repr:
  assumes r: "repr hs a b" and out: "outside hs a r" and inv: "row_inv hs b k h r J"
  shows "repr h a b"
proof (rule repr_frame [OF r])
  from inv have ar: "arrays h = (arrays hs)[r := arrays h ! r]" by (simp add: row_inv_def)
  from out have ne: "r \<noteq> a" "r \<notin> set (arrays hs ! a)" by (simp_all add: outside_def)
  from r have l9: "length (arrays hs ! a) = 9" by (simp add: repr_def)
  show "arrays h ! a = arrays hs ! a" using ne(1) by (subst ar) simp
  show "arrays h ! (arrays hs ! a ! i) = arrays hs ! (arrays hs ! a ! i)" if "i < 9" for i
  proof -
    from that l9 have "arrays hs ! a ! i \<in> set (arrays hs ! a)" by simp
    with ne(2) have "arrays hs ! a ! i \<noteq> r" by auto
    then show ?thesis by (subst ar) simp
  qed
  show "length (arrays hs) \<le> length (arrays h)" by (subst ar) simp
  show "prefix (objects hs) (objects h)" "prefix (numbers hs) (numbers h)"
    using inv by (simp_all add: row_inv_def)
qed

lemma row_inv_step:
  assumes r: "repr hs a b" and out: "outside hs a r" and inv: "row_inv hs b k h r J"
    and k: "k < 9" and J: "J < 9"
    and h1: "h1 = h\<lparr>numbers := numbers h @ [numbers h ! domain_h (objects h ! cell h a k J)],
               objects := objects h @
                 [\<lparr>row_h = row_h (objects h ! cell h a k J), col_h = col_h (objects h ! cell h a k J),
                   value_h = value_h (objects h ! cell h a k J), domain_h = length (numbers h)\<rparr>],
               arrays := (arrays h)[r := arrays h ! r @ [length (objects h)]]\<rparr>"
  shows "row_inv hs b k h1 r (Suc J)"
proof -
  from row_inv_repr [OF r out inv] have rh: "repr h a b" .
  from repr_cell [OF rh k J] have src: "b ! k ! J = sq_of h (cell h a k J)" by simp
  from inv have ar: "arrays h = (arrays hs)[r := arrays h ! r]" and len: "length (arrays h ! r) = J"
    and po: "prefix (objects hs) (objects h)" and pn: "prefix (numbers hs) (numbers h)"
    and cells: "\<And>j. j < J \<Longrightarrow> length (objects hs) \<le> arrays h ! r ! j \<and> arrays h ! r ! j < length (objects h)
           \<and> length (numbers hs) \<le> domain_h (objects h ! (arrays h ! r ! j))
           \<and> domain_h (objects h ! (arrays h ! r ! j)) < length (numbers h)
           \<and> sq_of h (arrays h ! r ! j) = b ! k ! j"
    and mono: "\<And>j j'. j < J \<Longrightarrow> j' < J \<Longrightarrow> j < j' \<Longrightarrow> arrays h ! r ! j < arrays h ! r ! j'
           \<and> domain_h (objects h ! (arrays h ! r ! j)) < domain_h (objects h ! (arrays h ! r ! j'))"
    by (simp_all add: row_inv_def)
  from out have rl: "r < length (arrays hs)" by (simp add: outside_def)
  then have rl': "r < length (arrays h)" by (subst ar) simp
  have lo: "length (objects hs) \<le> length (objects h)" and ln: "length (numbers hs) \<le> length (numbers h)"
    using po pn by (simp_all add: prefix_length_le)
  have row1: "arrays h1 ! r = arrays h ! r @ [length (objects h)]" using rl' by (simp add: h1)
  have old: "arrays h1 ! r ! j = arrays h ! r ! j" if "j < J" for j
    using that len by (simp add: row1 nth_append)
  have new: "arrays h1 ! r ! J = length (objects h)" using len by (simp add: row1 nth_append)
  have oold: "objects h1 ! q = objects h ! q" if "q < length (objects h)" for q
    using that by (simp add: h1 nth_append)
  have nold: "numbers h1 ! d = numbers h ! d" if "d < length (numbers h)" for d
    using that by (simp add: h1 nth_append)
  have cell_old: "length (objects hs) \<le> arrays h1 ! r ! j \<and> arrays h1 ! r ! j < length (objects h)
           \<and> length (numbers hs) \<le> domain_h (objects h1 ! (arrays h1 ! r ! j))
           \<and> domain_h (objects h1 ! (arrays h1 ! r ! j)) < length (numbers h)
           \<and> sq_of h1 (arrays h1 ! r ! j) = b ! k ! j" if "j < J" for j
    using cells [OF that] by (simp add: old [OF that] oold nold sq_of_def)
  have cell_new: "arrays h1 ! r ! J = length (objects h)"
    "domain_h (objects h1 ! (arrays h1 ! r ! J)) = length (numbers h)"
    "sq_of h1 (arrays h1 ! r ! J) = b ! k ! J"
    by (simp_all add: new src) (simp_all add: h1 sq_of_def)
  show ?thesis
    unfolding row_inv_def
  proof (intro conjI allI impI)
    have "arrays h1 = (arrays h)[r := arrays h ! r @ [length (objects h)]]" by (simp add: h1)
    also from ar have "\<dots> = ((arrays hs)[r := arrays h ! r])[r := arrays h ! r @ [length (objects h)]]"
      by (rule arg_cong)
    also have "\<dots> = (arrays hs)[r := arrays h ! r @ [length (objects h)]]" by simp
    finally have "arrays h1 = (arrays hs)[r := arrays h ! r @ [length (objects h)]]" .
    then show "arrays h1 = (arrays hs)[r := arrays h1 ! r]" unfolding row1 .
    show "length (arrays h1 ! r) = Suc J" using len by (simp add: row1)
    show "prefix (objects hs) (objects h1)" using po by (simp add: h1 prefix_snoc)
    show "prefix (numbers hs) (numbers h1)" using pn by (simp add: h1 prefix_snoc)
  next
    fix j assume "j < Suc J"
    then consider "j < J" | "j = J" by linarith
    then have "length (objects hs) \<le> arrays h1 ! r ! j \<and> arrays h1 ! r ! j < length (objects h1)
           \<and> length (numbers hs) \<le> domain_h (objects h1 ! (arrays h1 ! r ! j))
           \<and> domain_h (objects h1 ! (arrays h1 ! r ! j)) < length (numbers h1)
           \<and> sq_of h1 (arrays h1 ! r ! j) = b ! k ! j"
    proof cases
      case 1
      from cell_old [OF 1] show ?thesis by (simp add: h1)
    next
      case 2
      with cell_new lo ln show ?thesis by (simp add: h1)
    qed
    then show "length (objects hs) \<le> arrays h1 ! r ! j" "arrays h1 ! r ! j < length (objects h1)"
      "length (numbers hs) \<le> domain_h (objects h1 ! (arrays h1 ! r ! j))"
      "domain_h (objects h1 ! (arrays h1 ! r ! j)) < length (numbers h1)"
      "sq_of h1 (arrays h1 ! r ! j) = b ! k ! j" by simp_all
  next
    fix j j' assume b: "j < Suc J" "j' < Suc J" "j < j'"
    then have j: "j < J" by simp
    from b consider "j' < J" | "j' = J" by linarith
    then have "arrays h1 ! r ! j < arrays h1 ! r ! j'
           \<and> domain_h (objects h1 ! (arrays h1 ! r ! j)) < domain_h (objects h1 ! (arrays h1 ! r ! j'))"
    proof cases
      case 1
      from mono [OF j 1 b(3)] cells [OF j] cells [OF 1] show ?thesis
        by (simp add: old [OF j] old [OF 1] oold)
    next
      case 2
      with cell_old [OF j] cell_new show ?thesis by simp
    qed
    then show "arrays h1 ! r ! j < arrays h1 ! r ! j'"
      "domain_h (objects h1 ! (arrays h1 ! r ! j)) < domain_h (objects h1 ! (arrays h1 ! r ! j'))"
      by simp_all
  qed
qed

lemma copySquares_row_h_inv:
  assumes r: "repr hs a b" and out: "outside hs a r" and k: "k < 9"
  shows "row_inv hs b k h r J \<Longrightarrow> J \<le> 9 \<Longrightarrow>
         \<exists>h'. copySquares_row_h h a (int k) r (map int [J..<9]) = Some h' \<and> row_inv hs b k h' r 9"
proof (induction "9 - J" arbitrary: h J)
  case 0
  then have "J = 9" by simp
  with 0 show ?case by simp
next
  case (Suc m)
  then have J: "J < 9" by simp
  define h1 where "h1 = h\<lparr>numbers := numbers h @ [numbers h ! domain_h (objects h ! cell h a k J)],
               objects := objects h @
                 [\<lparr>row_h = row_h (objects h ! cell h a k J), col_h = col_h (objects h ! cell h a k J),
                   value_h = value_h (objects h ! cell h a k J), domain_h = length (numbers h)\<rparr>],
               arrays := (arrays h)[r := arrays h ! r @ [length (objects h)]]\<rparr>"
  from row_inv_repr [OF r out Suc.prems(1)] have rh: "repr h a b" .
  from row_inv_step [OF r out Suc.prems(1) k J h1_def] have inv1: "row_inv hs b k h1 r (Suc J)" .
  from Suc.prems(1) have ar: "arrays h = (arrays hs)[r := arrays h ! r]" by (simp add: row_inv_def)
  from out have "r < length (arrays hs)" by (simp add: outside_def)
  then have rl: "r < length (arrays h)" by (subst ar) simp
  have rd: "read_sq_h h a (int k) (int J)
      = Some (objects h ! cell h a k J, numbers h ! domain_h (objects h ! cell h a k J))"
    using repr_cell [OF rh k J] rh k J
    by (simp add: read_sq_h_def repr_get_sq_h deref_def in_range_def)
  have step: "copySquares_row_h h a (int k) r (map int [J..<9])
      = copySquares_row_h h1 a (int k) r (map int [Suc J..<9])"
    using J rl by (simp add: upt_conv_Cons rd deref_def h1_def del: upt.simps)
  from Suc.hyps(2) J have "m = 9 - Suc J" by simp
  from Suc.hyps(1) [OF this inv1] J step show ?case by simp
qed

subsection \<open>copySquares: the board\<close>

lemma copy_inv_step:
  assumes r0: "repr h0 a b" and n: "n = length (arrays h0)" and inv: "copy_inv h0 b n h K"
    and hs: "hs = h\<lparr>arrays := (arrays h @ [[]])[n := arrays h ! n @ [length (arrays h)]]\<rparr>"
    and row: "row_inv hs b K h' (length (arrays h)) 9"
  shows "copy_inv h0 b n h' (Suc K)"
proof -
  define r where "r = length (arrays h)"
  from inv have nl: "n < length (arrays h)" and lK: "length (arrays h ! n) = K"
    and pa: "prefix (arrays h0) (arrays h)" and po: "prefix (objects h0) (objects h)"
    and pn: "prefix (numbers h0) (numbers h)"
    and rows: "\<And>k. k < K \<Longrightarrow> n < arrays h ! n ! k \<and> arrays h ! n ! k < length (arrays h)
            \<and> length (arrays h ! (arrays h ! n ! k)) = 9"
    and cells: "\<And>k j. k < K \<Longrightarrow> j < 9 \<Longrightarrow>
            length (objects h0) \<le> cell h n k j \<and> cell h n k j < length (objects h)
            \<and> length (numbers h0) \<le> dref h n k j \<and> dref h n k j < length (numbers h)
            \<and> sq_of h (cell h n k j) = b ! k ! j"
    by (simp_all add: copy_inv_def)
  have mono: "cell h n k j < cell h n k' j' \<and> dref h n k j < dref h n k' j'"
    if "k < K" "k' < K" "j < 9" "j' < 9" "k < k' \<or> (k = k' \<and> j < j')" for k k' j j'
    using inv that unfolding copy_inv_def by blast
  from row have ar: "arrays h' = (arrays hs)[r := arrays h' ! r]" and l9: "length (arrays h' ! r) = 9"
    and po': "prefix (objects hs) (objects h')" and pn': "prefix (numbers hs) (numbers h')"
    and rcells: "\<And>j. j < 9 \<Longrightarrow> length (objects hs) \<le> arrays h' ! r ! j
           \<and> arrays h' ! r ! j < length (objects h')
           \<and> length (numbers hs) \<le> domain_h (objects h' ! (arrays h' ! r ! j))
           \<and> domain_h (objects h' ! (arrays h' ! r ! j)) < length (numbers h')
           \<and> sq_of h' (arrays h' ! r ! j) = b ! K ! j"
    and rmono: "\<And>j j'. j < 9 \<Longrightarrow> j' < 9 \<Longrightarrow> j < j' \<Longrightarrow> arrays h' ! r ! j < arrays h' ! r ! j'
           \<and> domain_h (objects h' ! (arrays h' ! r ! j)) < domain_h (objects h' ! (arrays h' ! r ! j'))"
    unfolding r_def by (simp_all add: row_inv_def)
  have os: "objects hs = objects h" and ns: "numbers hs = numbers h"
    and as: "arrays hs = (arrays h @ [[]])[n := arrays h ! n @ [r]]"
    by (simp_all add: hs r_def)
  have ls: "length (arrays hs) = Suc r" by (simp add: as r_def)
  have nr: "n \<noteq> r" "n < r" using nl by (simp_all add: r_def)
  have la': "length (arrays h') = Suc r" by (subst ar) (simp add: ls)
  have outer': "arrays h' ! n = arrays h ! n @ [r]"
    using nl nr by (subst ar) (simp add: as nth_append r_def)
  have l0: "length (arrays h0) \<le> length (arrays h)" "length (objects h0) \<le> length (objects h)"
    "length (numbers h0) \<le> length (numbers h)"
    using pa po pn by (simp_all add: prefix_length_le)
  have lo': "length (objects h) \<le> length (objects h')" and ln': "length (numbers h) \<le> length (numbers h')"
    using po' pn' by (simp_all add: prefix_length_le os ns)
  have old_row: "arrays h' ! n ! k = arrays h ! n ! k" if "k < K" for k
    using that lK by (simp add: outer' nth_append)
  have new_row: "arrays h' ! n ! K = r" using lK by (simp add: outer' nth_append)
  have old_arr: "arrays h' ! (arrays h ! n ! k) = arrays h ! (arrays h ! n ! k)" if "k < K" for k
  proof -
    from rows [OF that] have "arrays h ! n ! k \<noteq> r" "arrays h ! n ! k \<noteq> n"
      "arrays h ! n ! k < length (arrays h)" by (simp_all add: r_def)
    then show ?thesis by (subst ar) (simp add: as nth_append)
  qed
  have old_cell: "cell h' n k j = cell h n k j" if "k < K" for k j
    using that by (simp add: cell_def old_row old_arr)
  have new_cell: "cell h' n K j = arrays h' ! r ! j" for j
    by (simp add: cell_def new_row)
  have old_obj: "objects h' ! q = objects h ! q" if "q < length (objects h)" for q
    using po' that by (intro prefix_nth) (simp_all add: os)
  have old_num: "numbers h' ! d = numbers h ! d" if "d < length (numbers h)" for d
    using pn' that by (intro prefix_nth) (simp_all add: ns)
  have old_facts: "length (objects h0) \<le> cell h' n k j \<and> cell h' n k j < length (objects h)
            \<and> length (numbers h0) \<le> dref h' n k j \<and> dref h' n k j < length (numbers h)
            \<and> sq_of h' (cell h' n k j) = b ! k ! j
            \<and> dref h' n k j = dref h n k j" if "k < K" "j < 9" for k j
    using cells [OF that] by (simp add: old_cell [OF that(1)] dref_def old_obj old_num sq_of_def)
  have new_facts: "length (objects h) \<le> cell h' n K j \<and> cell h' n K j < length (objects h')
            \<and> length (numbers h) \<le> dref h' n K j \<and> dref h' n K j < length (numbers h')
            \<and> sq_of h' (cell h' n K j) = b ! K ! j" if "j < 9" for j
    using rcells [OF that] by (simp add: new_cell dref_def os ns)
  show ?thesis
    unfolding copy_inv_def
  proof (intro conjI allI impI)
    show "n < length (arrays h')" using nr by (simp add: la')
    show "length (arrays h' ! n) = Suc K" using lK by (simp add: outer')
    have "prefix (arrays h0) (arrays hs)"
      unfolding as using pa n by (intro prefix_update prefix_snoc) simp_all
    then show "prefix (arrays h0) (arrays h')"
      using l0(1) by (subst ar) (intro prefix_update, simp_all add: r_def)
    show "prefix (objects h0) (objects h')" using po po' by (simp add: os)
    show "prefix (numbers h0) (numbers h')" using pn pn' by (simp add: ns)
  next
    fix k :: nat assume "k < Suc K"
    then consider "k < K" | "k = K" by linarith
    then have "n < arrays h' ! n ! k \<and> arrays h' ! n ! k < length (arrays h')
        \<and> length (arrays h' ! (arrays h' ! n ! k)) = 9"
    proof cases
      case 1
      from rows [OF 1] show ?thesis by (simp add: old_row [OF 1] old_arr [OF 1] la' r_def)
    next
      case 2
      with nr l9 show ?thesis by (simp add: new_row la')
    qed
    then show "n < arrays h' ! n ! k" "arrays h' ! n ! k < length (arrays h')"
      "length (arrays h' ! (arrays h' ! n ! k)) = 9" by simp_all
  next
    fix k j :: nat assume "k < Suc K" and j: "j < 9"
    then consider "k < K" | "k = K" by linarith
    then have "length (objects h0) \<le> cell h' n k j \<and> cell h' n k j < length (objects h')
            \<and> length (numbers h0) \<le> dref h' n k j \<and> dref h' n k j < length (numbers h')
            \<and> sq_of h' (cell h' n k j) = b ! k ! j"
    proof cases
      case 1
      from old_facts [OF 1 j] lo' ln' show ?thesis by simp
    next
      case 2
      from new_facts [OF j] l0 show ?thesis by (simp add: 2)
    qed
    then show "length (objects h0) \<le> cell h' n k j" "cell h' n k j < length (objects h')"
      "length (numbers h0) \<le> dref h' n k j" "dref h' n k j < length (numbers h')"
      "sq_of h' (cell h' n k j) = b ! k ! j" by simp_all
  next
    fix k k' j j' :: nat
    assume b: "k < Suc K" "k' < Suc K" "j < 9" "j' < 9" and lt: "k < k' \<or> k = k' \<and> j < j'"
    then consider "k < K" "k' < K" | "k < K" "k' = K" | "k = K" "k' = K" "j < j'"
      by linarith
    then have "cell h' n k j < cell h' n k' j' \<and> dref h' n k j < dref h' n k' j'"
    proof cases
      case 1
      from mono [OF 1 b(3,4) lt] old_facts [OF 1(1) b(3)] old_facts [OF 1(2) b(4)]
      show ?thesis by (simp add: old_cell 1)
    next
      case 2
      from old_facts [OF 2(1) b(3)] new_facts [OF b(4)] show ?thesis by (simp add: 2(2))
    next
      case 3
      from rmono [OF b(3,4) 3(3)] show ?thesis by (simp add: 3 new_cell dref_def)
    qed
    then show "cell h' n k j < cell h' n k' j'" "dref h' n k j < dref h' n k' j'" by simp_all
  qed
qed

lemma copy_inv_extends: "copy_inv h0 b n h K \<Longrightarrow> extends h0 h"
  by (simp add: copy_inv_def extends_def)

lemma copy_inv_row_start:
  assumes r0: "repr h0 a b" and n: "n = length (arrays h0)" and inv: "copy_inv h0 b n h K"
    and hs: "hs = h\<lparr>arrays := (arrays h @ [[]])[n := arrays h ! n @ [length (arrays h)]]\<rparr>"
  shows "repr hs a b" "outside hs a (length (arrays h))" "row_inv hs b K hs (length (arrays h)) 0"
proof -
  from inv have nl: "n < length (arrays h)"
    and pa: "prefix (arrays h0) (arrays h)" and po: "prefix (objects h0) (objects h)"
    and pn: "prefix (numbers h0) (numbers h)"
    by (simp_all add: copy_inv_def)
  have as: "arrays hs = (arrays h @ [[]])[n := arrays h ! n @ [length (arrays h)]]"
    by (simp add: hs)
  have "prefix (arrays h0) (arrays hs)"
    unfolding as using pa n by (intro prefix_update prefix_snoc) simp_all
  then have e: "extends h0 hs" using po pn by (simp add: extends_def hs)
  from r0 e show r: "repr hs a b" by (rule repr_extends)
  from r0 have a: "a < n" and rws: "\<And>i. i < 9 \<Longrightarrow> arrays h0 ! a ! i < n"
    and l9: "length (arrays h0 ! a) = 9"
    by (simp_all add: repr_def n)
  have "arrays hs ! a = arrays h0 ! a"
    using e a by (intro prefix_nth) (simp_all add: extends_def n)
  moreover have "x < n" if "x \<in> set (arrays h0 ! a)" for x
    using that rws l9 by (auto simp: in_set_conv_nth)
  ultimately have "length (arrays h) \<notin> set (arrays hs ! a)" using nl by fastforce
  then show "outside hs a (length (arrays h))"
    using a nl by (simp add: outside_def as)
  have e0: "arrays hs ! length (arrays h) = []" using nl by (simp add: as)
  then have "(arrays hs)[length (arrays h) := []] = arrays hs"
    by (metis list_update_id)
  with e0 show "row_inv hs b K hs (length (arrays h)) 0"
    by (simp add: row_inv_def)
qed

lemma copySquares_rows_h_inv:
  assumes r0: "repr h0 a b" and n: "n = length (arrays h0)"
  shows "copy_inv h0 b n h K \<Longrightarrow> K \<le> 9 \<Longrightarrow>
         \<exists>h'. copySquares_rows_h h a n (map int [K..<9]) (map int [0..<9]) = Some h'
              \<and> copy_inv h0 b n h' 9"
proof (induction "9 - K" arbitrary: h K)
  case 0
  then have "K = 9" by simp
  with 0 show ?case by simp
next
  case (Suc m)
  then have K: "K < 9" by simp
  define hs where "hs = h\<lparr>arrays := (arrays h @ [[]])[n := arrays h ! n @ [length (arrays h)]]\<rparr>"
  note st = copy_inv_row_start [OF r0 n Suc.prems(1) hs_def]
  from copySquares_row_h_inv [OF st(1) st(2) K st(3)]
  obtain h1 where c: "copySquares_row_h hs a (int K) (length (arrays h)) (map int [0..<9]) = Some h1"
    and ri: "row_inv hs b K h1 (length (arrays h)) 9" by auto
  from copy_inv_step [OF r0 n Suc.prems(1) hs_def ri] have inv1: "copy_inv h0 b n h1 (Suc K)" .
  from Suc.prems(1) have nl: "n < length (arrays h)" by (simp add: copy_inv_def)
  have step: "copySquares_rows_h h a n (map int [K..<9]) (map int [0..<9])
      = copySquares_rows_h h1 a n (map int [Suc K..<9]) (map int [0..<9])"
  proof -
    have l: "map int [K..<9] = int K # map int [Suc K..<9]"
      using K by (simp add: upt_conv_Cons del: upt.simps)
    have d: "deref (arrays h) n = Some (arrays h ! n)" using nl by (simp add: deref_def)
    show ?thesis
      unfolding l by (simp only: copySquares_rows_h.simps d bind.bind_lunit c [unfolded hs_def])
  qed
  from Suc.hyps(2) K have "m = 9 - Suc K" by simp
  from Suc.hyps(1) [OF this inv1] K step show ?case by simp
qed

lemma copy_inv_repr:
  assumes sh: "shape9 b" and inv: "copy_inv h0 b n h 9"
  shows "repr h n b"
  unfolding repr_def
proof (intro conjI allI impI)
  from inv have cells: "\<And>k j. k < 9 \<Longrightarrow> j < 9 \<Longrightarrow>
            cell h n k j < length (objects h) \<and> dref h n k j < length (numbers h)
            \<and> sq_of h (cell h n k j) = b ! k ! j"
    by (simp_all add: copy_inv_def)
  have mono: "cell h n k j < cell h n k' j' \<and> dref h n k j < dref h n k' j'"
    if "k < 9" "k' < 9" "j < 9" "j' < 9" "k < k' \<or> (k = k' \<and> j < j')" for k k' j j'
    using inv that unfolding copy_inv_def by blast
  show "shape9 b" by (rule sh)
  show "n < length (arrays h)" "length (arrays h ! n) = 9"
    using inv by (simp_all add: copy_inv_def)
  {
    fix i :: nat assume "i < 9"
    with inv show "arrays h ! n ! i < length (arrays h)"
      "length (arrays h ! (arrays h ! n ! i)) = 9" by (simp_all add: copy_inv_def)
  }
  {
    fix i j :: nat assume b: "i < 9" "j < 9"
    from cells [OF b] show "cell h n i j < length (objects h)"
      "domain_h (objects h ! cell h n i j) < length (numbers h)"
      "b ! i ! j = sq_of h (cell h n i j)" by (simp_all add: dref_def)
  }
  {
    fix i j i' j' :: nat
    assume b: "i < 9" "j < 9" "i' < 9" "j' < 9"
      and eq: "cell h n i j = cell h n i' j'
          \<or> domain_h (objects h ! cell h n i j) = domain_h (objects h ! cell h n i' j')"
    have "\<not> (i < i' \<or> (i = i' \<and> j < j'))"
      using mono [OF b(1) b(3) b(2) b(4)] eq by (auto simp: dref_def)
    moreover have "\<not> (i' < i \<or> (i' = i \<and> j' < j))"
      using mono [OF b(3) b(1) b(4) b(2)] eq by (auto simp: dref_def)
    ultimately show "i = i'" "j = j'" by linarith+
  }
qed

lemma copySquares_h_repr:
  assumes r: "repr h a b"
  shows "\<exists>h'. copySquares_h h a = Some (length (arrays h), h')
           \<and> copy_inv h b (length (arrays h)) h' 9"
proof -
  define n where "n = length (arrays h)"
  define h1 where "h1 = h\<lparr>arrays := arrays h @ [[]]\<rparr>"
  have "copy_inv h b n h1 0"
    by (simp add: copy_inv_def h1_def n_def)
  from copySquares_rows_h_inv [OF r n_def this]
  obtain h' where c: "copySquares_rows_h h1 a n (map int [0..<9]) (map int [0..<9]) = Some h'"
    and inv: "copy_inv h b n h' 9" by auto
  from c inv show ?thesis
    by (simp add: copySquares_h_def repr_length_h [OF r] h1_def n_def)
qed

lemma copySquares_sim:
  assumes r: "repr h a b"
  shows "\<exists>h'. copySquares_h h a = Some (length (arrays h), h')
           \<and> repr h' (length (arrays h)) b \<and> repr h' a b \<and> extends h h'"
proof -
  from copySquares_h_repr [OF r] obtain h' where
    c: "copySquares_h h a = Some (length (arrays h), h')"
    and inv: "copy_inv h b (length (arrays h)) h' 9" by blast
  from inv have e: "extends h h'" by (rule copy_inv_extends)
  from copy_inv_repr [OF repr_shape9 [OF r] inv] repr_extends [OF r e] c e show ?thesis by blast
qed

subsection \<open>The loop body and the constructor\<close>

lemma modify_sq_shape9:
  "shape9 b \<Longrightarrow> modify_sq b i j f =
     (if in_range i j then Some (upd_sq b (nat i) (nat j) f) else None)"
  by (auto simp: modify_sq_def js_index_def shape9_length shape9_nth in_range_def upd_sq_def)

lemma copySquares_sim_fresh:
  assumes r: "repr h a b"
  shows "\<exists>h'. copySquares_h h a = Some (length (arrays h), h')
           \<and> repr h' (length (arrays h)) b \<and> repr h' a b \<and> extends h h'
           \<and> (\<forall>i<9. length (arrays h) < arrays h' ! length (arrays h) ! i)
           \<and> (\<forall>i<9. \<forall>j<9. length (objects h) \<le> cell h' (length (arrays h)) i j
                  \<and> length (numbers h) \<le> dref h' (length (arrays h)) i j)"
proof -
  from copySquares_h_repr [OF r] obtain h' where
    c: "copySquares_h h a = Some (length (arrays h), h')"
    and inv: "copy_inv h b (length (arrays h)) h' 9" by blast
  from inv have e: "extends h h'" by (rule copy_inv_extends)
  from inv have f1: "\<forall>i<9. length (arrays h) < arrays h' ! length (arrays h) ! i"
    and f2: "\<forall>i<9. \<forall>j<9. length (objects h) \<le> cell h' (length (arrays h)) i j
                  \<and> length (numbers h) \<le> dref h' (length (arrays h)) i j"
    by (simp_all add: copy_inv_def)
  from copy_inv_repr [OF repr_shape9 [OF r] inv] repr_extends [OF r e] c e f1 f2
  show ?thesis by blast
qed

lemma trial_sim:
  assumes r: "repr h a b" and q: "q < length (objects h)"
    and dq: "domain_h (objects h ! q) < length (numbers h)" and s: "sq_of h q = s"
    and k: "k < length (domain s)" and v: "v = domain s ! k"
  shows "rel_option (trial_rel h) (trial_h h a q k) (trial b s v)"
proof -
  define n where "n = length (arrays h)"
  from copySquares_sim_fresh [OF r] obtain h1 where
    c: "copySquares_h h a = Some (n, h1)" and r1: "repr h1 n b" and e1: "extends h h1"
    and fresh: "\<And>i j. i < 9 \<Longrightarrow> j < 9 \<Longrightarrow> length (objects h) \<le> cell h1 n i j"
    unfolding n_def by blast
  have sh: "shape9 b" using r by (rule repr_shape9)
  from e1 have po: "prefix (objects h) (objects h1)" by (simp add: extends_def)
  have oq: "objects h1 ! q = objects h ! q" using po q by (rule prefix_nth)
  have q1: "q < length (objects h1)" using po q by (auto dest: prefix_length_le)
  define i where "i = row_h (objects h ! q)"
  define j where "j = col_h (objects h ! q)"
  have rc: "row s = i" "col s = j" using s by (auto simp: sq_of_def i_def j_def)
  have d1: "deref (objects h1) q = Some (objects h ! q)" using q1 oq by (simp add: deref_def)
  from e1 have pn: "prefix (numbers h) (numbers h1)" by (simp add: extends_def)
  have "numbers h1 ! domain_h (objects h ! q) = numbers h ! domain_h (objects h ! q)"
    using pn dq by (rule prefix_nth)
  moreover have "domain_h (objects h ! q) < length (numbers h1)"
    using pn dq by (auto dest: prefix_length_le)
  moreover have "numbers h ! domain_h (objects h ! q) = domain s"
    using s by (auto simp: sq_of_def)
  ultimately have dd: "deref (numbers h1) (domain_h (objects h ! q)) = Some (domain s)"
    by (simp add: deref_def)
  have cand: "(if k < length (domain s) then Some (domain s ! k) else None) = Some v"
    using k v by simp
  show ?thesis
  proof (cases "in_range i j")
    case False
    have "trial_h h a q k = None"
      unfolding trial_h_def c bind.bind_lunit prod.case d1 dd cand
      using False by (simp add: repr_get_sq_h [OF r1] i_def j_def)
    moreover have "trial b s v = None"
      using False sh by (simp add: trial_def copySquares_id modify_sq_shape9 rc)
    ultimately show ?thesis by simp
  next
    case True
    then have ij: "nat i < 9" "nat j < 9" using in_range_nat [of i j] by blast+
    define qc where "qc = cell h1 n (nat i) (nat j)"
    define h2 where "h2 = h1\<lparr>objects := (objects h1)[qc := (objects h1 ! qc)\<lparr>value_h := v\<rparr>]\<rparr>"
    define b1 where "b1 = upd_sq b (nat i) (nat j) (\<lambda>s. s\<lparr>value := v\<rparr>)"
    from repr_cell [OF r1 ij] have qcl: "qc < length (objects h1)" by (simp add: qc_def)
    from fresh [OF ij] q have ne: "q \<noteq> qc" by (simp add: qc_def)
    have g: "get_sq_h h1 n i j = Some qc"
      using True by (simp add: repr_get_sq_h [OF r1] qc_def)
    have d2: "deref (objects h1) qc = Some (objects h1 ! qc)" using qcl by (simp add: deref_def)
    have d3: "deref (objects h2) q = Some (objects h ! q)"
      using q1 oq ne by (simp add: deref_def h2_def)
    have r2: "repr h2 n b1"
      unfolding b1_def by (rule repr_set_value [OF r1 ij]) (simp add: h2_def qc_def)
    have th: "trial_h h a q k
        = map_option (\<lambda>(success, h3). (success, n, h3)) (updateDomains_h h2 n i j)"
      unfolding trial_h_def c bind.bind_lunit prod.case d1 dd cand
        i_def [symmetric] j_def [symmetric]
        g d2 Let_def h2_def [symmetric] d3
      by (cases "updateDomains_h h2 n i j") auto
    have tp: "trial b s v = updateDomains b1 i j"
      using True sh by (simp add: trial_def copySquares_id modify_sq_shape9 rc b1_def)
    from updateDomains_sim [OF r2, of i j]
    have sim: "rel_option (ret_rel n) (updateDomains_h h2 n i j) (updateDomains b1 i j)" .
    show ?thesis
    proof (cases "updateDomains_h h2 n i j")
      case None
      with sim th tp show ?thesis by (cases "updateDomains b1 i j") simp_all
    next
      case (Some x)
      obtain succ h3 where x: "x = (succ, h3)" by (cases x)
      from Some sim obtain y where y: "updateDomains b1 i j = Some y" and rr: "ret_rel n x y"
        by (cases "updateDomains b1 i j") simp_all
      obtain succ' b' where y': "y = (succ', b')" by (cases y)
      from rr have eq: "succ = succ'" and r3: "repr h3 n b'"
        by (simp_all add: x y' ret_rel_pair)
      have t: "trial_h h a q k = Some (succ, n, h3)" using th Some x by simp
      then have "extends h h3" by (rule trial_h_extends)
      with t tp y y' eq r3 show ?thesis by (simp add: trial_rel_def)
    qed
  qed
qed

lemma res_rel_extends: "extends h0 h \<Longrightarrow> res_rel h x r \<Longrightarrow> res_rel h0 x r"
  by (auto simp: res_rel_def intro: extends_trans)

lemma new_SudokuCSP_sim:
  assumes r: "repr h a b"
  shows "\<exists>x. new_SudokuCSP_h h a f = Some x \<and> res_rel h x \<lparr>squares = b, failure = f\<rparr>
           \<and> length (arrays h) \<le> squares_h (fst x)"
proof -
  from copySquares_sim [OF r] obtain h' where
    c: "copySquares_h h a = Some (length (arrays h), h')"
    and r': "repr h' (length (arrays h)) b" and e: "extends h h'" by blast
  then show ?thesis
    by (simp add: new_SudokuCSP_h_def res_rel_def)
qed

subsection \<open>backtrack and solve on the store and on boards\<close>

lemma ole_refl [simp]: "ole x x"
  by (simp add: ole_def)

lemma ole_None [simp]: "ole None y"
  by (simp add: ole_def)

lemma ole_bind:
  assumes "ole m m'" "\<And>x. ole (f x) (g x)"
  shows "ole (Option.bind m f) (Option.bind m' g)"
  using assms by (cases m; cases m') (auto simp: ole_def)

lemma ole_if: "ole a a' \<Longrightarrow> ole b b' \<Longrightarrow> ole (if c then a else b) (if c then a' else b')"
  by simp

lemma ole_prod: "(\<And>a b. ole (f a b) (g a b)) \<Longrightarrow> ole (case p of (a, b) \<Rightarrow> f a b) (case p of (a, b) \<Rightarrow> g a b)"
  by (cases p) simp

lemma backtrack_h_Suc_ole:
  assumes "\<And>h c q i. ole (backtrack_loop_h F h c q i) (backtrack_loop_h G h c q i)"
  shows "ole (backtrack_h (Suc F) h c) (backtrack_h (Suc G) h c)"
  unfolding backtrack_h.simps
  by (intro ole_bind ole_if ole_prod ole_refl assms)

lemma backtrack_loop_h_Suc_ole:
  assumes "\<And>h c q i. ole (backtrack_loop_h F h c q i) (backtrack_loop_h G h c q i)"
    and "\<And>h c. ole (backtrack_h F h c) (backtrack_h G h c)"
  shows "ole (backtrack_loop_h (Suc F) h c q i) (backtrack_loop_h (Suc G) h c q i)"
  unfolding backtrack_loop_h.simps
  by (intro ole_bind ole_if ole_prod ole_refl assms)

lemma backtrack_h_step:
  "(\<forall>h c. ole (backtrack_h F h c) (backtrack_h (Suc F) h c)) \<and>
   (\<forall>h c q i. ole (backtrack_loop_h F h c q i) (backtrack_loop_h (Suc F) h c q i))"
proof (induction F)
  case 0
  then show ?case by simp
next
  case (Suc F)
  then have IHb: "\<And>h c. ole (backtrack_h F h c) (backtrack_h (Suc F) h c)"
    and IHl: "\<And>h c q i. ole (backtrack_loop_h F h c q i) (backtrack_loop_h (Suc F) h c q i)"
    by blast+
  from backtrack_h_Suc_ole [of F "Suc F", OF IHl]
    backtrack_loop_h_Suc_ole [of F "Suc F", OF IHl IHb]
  show ?case by blast
qed

lemma backtrack_h_mono:
  "backtrack_h F h c = Some x \<Longrightarrow> F \<le> F' \<Longrightarrow> backtrack_h F' h c = Some x"
proof (induction F' arbitrary: )
  case 0
  then show ?case by simp
next
  case (Suc F')
  show ?case
  proof (cases "F = Suc F'")
    case True
    with Suc.prems show ?thesis by simp
  next
    case False
    with Suc.prems have "F \<le> F'" by simp
    from backtrack_h_step [of F'] have "ole (backtrack_h F' h c) (backtrack_h (Suc F') h c)"
      by blast
    with Suc.IH [OF Suc.prems(1) \<open>F \<le> F'\<close>] show ?thesis
      unfolding ole_def by blast
  qed
qed

lemma backtrack_loop_h_mono:
  "backtrack_loop_h F h c q i = Some x \<Longrightarrow> F \<le> F' \<Longrightarrow> backtrack_loop_h F' h c q i = Some x"
proof (induction F' arbitrary: )
  case 0
  then show ?case by simp
next
  case (Suc F')
  show ?case
  proof (cases "F = Suc F'")
    case True
    with Suc.prems show ?thesis by simp
  next
    case False
    with Suc.prems have "F \<le> F'" by simp
    from backtrack_h_step [of F']
    have "ole (backtrack_loop_h F' h c q i) (backtrack_loop_h (Suc F') h c q i)"
      by blast
    with Suc.IH [OF Suc.prems(1) \<open>F \<le> F'\<close>] show ?thesis
      unfolding ole_def by blast
  qed
qed

lemma solve_h_mono:
  "solve_h F h a = Some x \<Longrightarrow> F \<le> F' \<Longrightarrow> solve_h F' h a = Some x"
  unfolding solve_h_def
  by (auto simp: bind_eq_Some_conv split: prod.splits intro: backtrack_h_mono)

lemma sq_of_extends:
  assumes e: "extends h h'" and q: "q < length (objects h)"
    and d: "domain_h (objects h ! q) < length (numbers h)"
  shows "q < length (objects h') \<and> domain_h (objects h' ! q) < length (numbers h')
         \<and> sq_of h' q = sq_of h q"
proof -
  from e have po: "prefix (objects h) (objects h')" and pn: "prefix (numbers h) (numbers h')"
    by (simp_all add: extends_def)
  have o: "objects h' ! q = objects h ! q" using po q by (rule prefix_nth)
  have n: "numbers h' ! domain_h (objects h ! q) = numbers h ! domain_h (objects h ! q)"
    using pn d by (rule prefix_nth)
  from extends_lengths [OF e] q d o n show ?thesis by (simp add: sq_of_def)
qed

lemma backtrack_loop_fwd:
  assumes bt: "\<And>s r h c. backtrack n s = Some r \<Longrightarrow> repr h (squares_h c) (squares s) \<Longrightarrow>
      failure_h c = failure s \<Longrightarrow> \<exists>F x. backtrack_h F h c = Some x \<and> res_rel h x r"
  shows "backtrack_loop n s sq vs = Some r \<Longrightarrow> repr h (squares_h c) (squares s) \<Longrightarrow>
     q < length (objects h) \<Longrightarrow> domain_h (objects h ! q) < length (numbers h) \<Longrightarrow>
     sq_of h q = sq \<Longrightarrow> vs = drop i (domain sq) \<Longrightarrow>
     \<exists>F x. backtrack_loop_h F h c q i = Some x \<and> res_rel h x r"
proof (induction vs arbitrary: h i)
  case Nil
  have sh: "shape9 (squares s)" using Nil.prems(2) by (rule repr_shape9)
  from Nil.prems(1) sh have r: "r = \<lparr>squares = squares s, failure = True\<rparr>"
    by (simp add: new_SudokuCSP_id)
  have d: "numbers h ! domain_h (objects h ! q) = domain sq"
    using Nil.prems(5) by (auto simp: sq_of_def)
  from Nil.prems(6) have i: "\<not> i < length (domain sq)" by simp
  from new_SudokuCSP_sim [OF Nil.prems(2), of True] obtain x where
    "new_SudokuCSP_h h (squares_h c) True = Some x"
    "res_rel h x \<lparr>squares = squares s, failure = True\<rparr>" by blast
  with i d Nil.prems(3,4) have "backtrack_loop_h (Suc 0) h c q i = Some x \<and> res_rel h x r"
    by (simp add: deref_def r)
  then show ?case by blast
next
  case (Cons v vs)
  have sh: "shape9 (squares s)" using Cons.prems(2) by (rule repr_shape9)
  have d: "numbers h ! domain_h (objects h ! q) = domain sq"
    using Cons.prems(5) by (auto simp: sq_of_def)
  from Cons.prems(6) have i: "i < length (domain sq)"
    by (cases "i < length (domain sq)") simp_all
  from Cons.prems(6) i have v: "domain sq ! i = v" and vs: "vs = drop (Suc i) (domain sq)"
    by (simp_all add: Cons_nth_drop_Suc [symmetric])
  have hstep: "backtrack_loop_h (Suc m) h c q i =
     do { (success, newSquares, h1) \<leftarrow> trial_h h (squares_h c) q i;
          if success
          then do { (next, h2) \<leftarrow> new_SudokuCSP_h h1 newSquares False;
                    (result, h3) \<leftarrow> backtrack_h m h2 next;
                    if \<not> failure_h result then Some (result, h3)
                    else backtrack_loop_h m h3 c q (Suc i) }
          else backtrack_loop_h m h1 c q (Suc i) }" for m
    using i d Cons.prems(3,4) by (simp add: deref_def)
  from trial_sim [OF Cons.prems(2,3,4,5) i v [symmetric]] Cons.prems(1)
  obtain t t' where th: "trial_h h (squares_h c) q i = Some t"
    and tp: "trial (squares s) sq v = Some t'" and tr: "trial_rel h t t'"
    by (cases "trial_h h (squares_h c) q i"; cases "trial (squares s) sq v") simp_all
  obtain succ n1 h1 where t: "t = (succ, n1, h1)" by (cases t)
  obtain succ' b' where t': "t' = (succ', b')" by (cases t')
  from tr have eq: "succ' = succ" and r1: "repr h1 n1 b'" and e1: "extends h h1"
    by (simp_all add: trial_rel_def t t')
  note q1 = sq_of_extends [OF e1 Cons.prems(3,4)]
  have rc1: "repr h1 (squares_h c) (squares s)" using Cons.prems(2) e1 by (rule repr_extends)
  show ?case
  proof (cases succ)
    case False
    with Cons.prems(1) tp t' eq have "backtrack_loop n s sq vs = Some r" by simp
    from Cons.IH [OF this rc1 _ _ _ vs] q1 Cons.prems(5)
    obtain F x where l: "backtrack_loop_h F h1 c q (Suc i) = Some x" and rr: "res_rel h1 x r"
      by auto
    have "backtrack_loop_h (Suc F) h c q i = Some x"
      unfolding hstep using False l by (simp add: th t)
    with res_rel_extends [OF e1 rr] show ?thesis by blast
  next
    case True
    have sh': "shape9 b'" using r1 by (rule repr_shape9)
    define nx where "nx = \<lparr>squares = b', failure = False\<rparr>"
    from Cons.prems(1) tp t' eq True sh' obtain result where
      br: "backtrack n nx = Some result"
      and rest: "(if \<not> failure result then Some result else backtrack_loop n s sq vs) = Some r"
      by (auto simp: new_SudokuCSP_id nx_def bind_eq_Some_conv)
    from new_SudokuCSP_sim [OF r1, of False] obtain y where
      ny: "new_SudokuCSP_h h1 n1 False = Some y" and ry: "res_rel h1 y nx"
      unfolding nx_def by blast
    obtain nxh h2 where y: "y = (nxh, h2)" by (cases y)
    from ry have r2: "repr h2 (squares_h nxh) (squares nx)" and f2: "failure_h nxh = failure nx"
      and e2: "extends h1 h2" by (simp_all add: res_rel_def y)
    from bt [OF br r2 f2] obtain F1 x1 where b1: "backtrack_h F1 h2 nxh = Some x1"
      and rr1: "res_rel h2 x1 result" by blast
    obtain resh h3 where x1: "x1 = (resh, h3)" by (cases x1)
    from rr1 have fr: "failure_h resh = failure result" and e3: "extends h2 h3"
      by (simp_all add: res_rel_def x1)
    have e13: "extends h h3" using e1 e2 e3 by (blast intro: extends_trans)
    show ?thesis
    proof (cases "failure result")
      case False
      with rest have "r = result" by simp
      moreover have "backtrack_loop_h (Suc F1) h c q i = Some x1"
        unfolding hstep using True False by (simp add: th t ny y b1 x1 fr)
      moreover have "res_rel h x1 result"
        using rr1 e1 e2 by (auto simp: res_rel_def intro: extends_trans)
      ultimately show ?thesis by blast
    next
      case f: True
      with rest have "backtrack_loop n s sq vs = Some r" by simp
      note q3 = sq_of_extends [OF e13 Cons.prems(3,4)]
      have rc3: "repr h3 (squares_h c) (squares s)" using Cons.prems(2) e13 by (rule repr_extends)
      from Cons.IH [OF \<open>backtrack_loop n s sq vs = Some r\<close> rc3 _ _ _ vs] q3 Cons.prems(5)
      obtain F2 x where l: "backtrack_loop_h F2 h3 c q (Suc i) = Some x" and rr: "res_rel h3 x r"
        by auto
      define m where "m = max F1 F2"
      have b1': "backtrack_h m h2 nxh = Some x1"
        using b1 by (rule backtrack_h_mono) (simp add: m_def)
      have l': "backtrack_loop_h m h3 c q (Suc i) = Some x"
        using l by (rule backtrack_loop_h_mono) (simp add: m_def)
      have "backtrack_loop_h (Suc m) h c q i = Some x"
        unfolding hstep using True f by (simp add: th t ny y b1' x1 fr l')
      with res_rel_extends [OF e13 rr] show ?thesis by blast
    qed
  qed
qed

lemma backtrack_fwd:
  "backtrack n s = Some r \<Longrightarrow> repr h (squares_h c) (squares s) \<Longrightarrow>
   failure_h c = failure s \<Longrightarrow> \<exists>F x. backtrack_h F h c = Some x \<and> res_rel h x r"
proof (induction n arbitrary: s r h c)
  case 0
  then show ?case by simp
next
  case (Suc n)
  have sh: "shape9 (squares s)" using Suc.prems(2) by (rule repr_shape9)
  note full = isFull_sim [OF Suc.prems(2)]
  from Suc.prems(1) obtain fl where fl: "isFull (squares s) = Some fl"
    by (cases "isFull (squares s)") simp_all
  show ?case
  proof (cases fl)
    case True
    with Suc.prems(1) fl have "r = s" by simp
    moreover have "backtrack_h (Suc 0) h c = Some (c, h)"
      using True fl full by simp
    moreover have "res_rel h (c, h) s"
      using Suc.prems(2,3) by (simp add: res_rel_def extends_refl)
    ultimately show ?thesis by blast
  next
    case False
    with Suc.prems(1) fl obtain sq where g: "getEmptySquare (squares s) = Some sq"
      and l: "backtrack_loop n s sq (domain sq) = Some r"
      by (auto simp: bind_eq_Some_conv)
    from getEmptySquare_sim [OF Suc.prems(2)] g obtain x where
      gh: "getEmptySquare_h h (squares_h c) = Some x"
      and sr: "sq_rel h (squares_h c) (squares s) x sq"
      by (cases "getEmptySquare_h h (squares_h c)") simp_all
    obtain q h1 where x: "x = (q, h1)" by (cases x)
    from sr have r1: "repr h1 (squares_h c) (squares s)" and e1: "extends h h1"
      and q: "q < length (objects h1)" "domain_h (objects h1 ! q) < length (numbers h1)"
      "sq_of h1 q = sq"
      by (simp_all add: sq_rel_def x)
    have "\<exists>F x. backtrack_loop_h F h1 c q 0 = Some x \<and> res_rel h1 x r"
    proof (rule backtrack_loop_fwd [where n = n and s = s and sq = sq and vs = "domain sq"])
      show "backtrack_loop n s sq (domain sq) = Some r" by (rule l)
      show "repr h1 (squares_h c) (squares s)" by (rule r1)
      show "q < length (objects h1)" "domain_h (objects h1 ! q) < length (numbers h1)"
        "sq_of h1 q = sq" by (rule q)+
      show "domain sq = drop 0 (domain sq)" by simp
    next
      fix s' r' :: SudokuCSP and h' :: heap and c' :: SudokuCSP_h
      assume "backtrack n s' = Some r'" "repr h' (squares_h c') (squares s')"
        "failure_h c' = failure s'"
      then show "\<exists>F x. backtrack_h F h' c' = Some x \<and> res_rel h' x r'" by (rule Suc.IH)
    qed
    then obtain F y where lh: "backtrack_loop_h F h1 c q 0 = Some y" and rr: "res_rel h1 y r"
      by blast
    have "backtrack_h (Suc F) h c = Some y"
      using False fl full gh x lh by simp
    with res_rel_extends [OF e1 rr] show ?thesis by blast
  qed
qed

lemma solve_fwd:
  assumes s: "solve n b = Some r" and r: "repr h a b"
  shows "\<exists>F x. solve_h F h a = Some x \<and> res_rel h x r \<and> repr (snd x) a b"
proof -
  have sh: "shape9 b" using r by (rule repr_shape9)
  from copySquares_sim [OF r] obtain h1 where
    c: "copySquares_h h a = Some (length (arrays h), h1)"
    and r1: "repr h1 (length (arrays h)) b" by blast
  from s sh obtain u where u: "updateAllDomains b = Some u"
    and s1: "(case u of (valid, b1) \<Rightarrow> do { start \<leftarrow> new_SudokuCSP b1 False; backtrack n start })
        = Some r"
    by (auto simp: solve_def copySquares_id bind_eq_Some_conv)
  obtain valid b1 where u': "u = (valid, b1)" by (cases u)
  from updateAllDomains_sim [OF r1] u obtain uh where
    uh: "updateAllDomains_h h1 (length (arrays h)) = Some uh"
    and ur: "ret_rel (length (arrays h)) uh u"
    by (cases "updateAllDomains_h h1 (length (arrays h))") simp_all
  obtain validh h2 where uh': "uh = (validh, h2)" by (cases uh)
  from ur have r2: "repr h2 (length (arrays h)) b1" by (simp add: uh' u' ret_rel_pair)
  have sh1: "shape9 b1" using r2 by (rule repr_shape9)
  define start where "start = \<lparr>squares = b1, failure = False\<rparr>"
  from s1 sh1 have bs: "backtrack n start = Some r"
    by (simp add: u' new_SudokuCSP_id start_def)
  from new_SudokuCSP_sim [OF r2, of False] obtain y where
    ny: "new_SudokuCSP_h h2 (length (arrays h)) False = Some y" and ry: "res_rel h2 y start"
    unfolding start_def by blast
  obtain sth h3 where y: "y = (sth, h3)" by (cases y)
  from ry have r3: "repr h3 (squares_h sth) (squares start)" and f3: "failure_h sth = failure start"
    by (simp_all add: res_rel_def y)
  from backtrack_fwd [OF bs r3 f3] obtain F x where
    bh: "backtrack_h F h3 sth = Some x" and rr: "res_rel h3 x r" by blast
  have sv: "solve_h F h a = Some x"
    by (simp add: solve_h_def c uh uh' ny y bh)
  obtain rh h' where x: "x = (rh, h')" by (cases x)
  from sv have e: "extends h h'" unfolding x by (rule solve_h_extends)
  from rr e have "res_rel h x r" by (simp add: res_rel_def x)
  moreover from r e have "repr (snd x) a b" unfolding x by (simp add: repr_extends)
  ultimately show ?thesis using sv by blast
qed

subsection \<open>Stores of boards, separate boards, results of backtrack\<close>

lemma length_concat_uniform:
  "\<forall>r\<in>set b. length r = m \<Longrightarrow> length (concat b) = m * length b"
  by (induction b) simp_all

lemma nth_concat_uniform:
  "\<forall>r\<in>set b. length r = m \<Longrightarrow> i < length b \<Longrightarrow> j < m \<Longrightarrow> concat b ! (m * i + j) = b ! i ! j"
proof (induction b arbitrary: i)
  case Nil
  then show ?case by simp
next
  case (Cons r b)
  show ?case
  proof (cases i)
    case 0
    with Cons.prems show ?thesis by (simp add: nth_append)
  next
    case (Suc k)
    with Cons.prems have "concat b ! (m * k + j) = b ! k ! j" by (intro Cons.IH) simp_all
    moreover have "m * i + j = length r + (m * k + j)" using Cons.prems Suc by simp
    ultimately show ?thesis using Suc by (simp only: concat.simps nth_append_length_plus nth_Cons_Suc)
  qed
qed

lemma shape9_rows: "shape9 b \<Longrightarrow> \<forall>r\<in>set b. length r = 9"
  by (simp add: shape9_def list_all_iff)

lemma pos9_inj: "j < 9 \<Longrightarrow> j' < 9 \<Longrightarrow> 9 * i + j = 9 * i' + j' \<Longrightarrow> i = i' \<and> j = (j'::nat)"
  by presburger

lemma repr_heap_of_board:
  assumes sh: "shape9 b"
  shows "repr (heap_of_board b) 9 b"
proof -
  define h where "h = heap_of_board b"
  have len: "length (concat b) = 81"
    using length_concat_uniform [OF shape9_rows [OF sh]] sh by (simp add: shape9_length)
  have ar9: "arrays h ! 9 = [0..<9]" by (simp add: h_def heap_of_board_def nth_append)
  have ari: "arrays h ! i = map (\<lambda>j. 9 * i + j) [0..<9]" if "i < 9" for i
    using that by (simp add: h_def heap_of_board_def nth_append del: upt.simps)
  have c: "cell h 9 i j = 9 * i + j" if "i < 9" "j < 9" for i j
    using that by (simp add: cell_def ar9 ari del: upt.simps)
  have k: "9 * i + j < 81" if "i < 9" "j < 9" for i j :: nat using that by simp
  have o: "objects h ! (9 * i + j) =
      \<lparr>row_h = row (b ! i ! j), col_h = col (b ! i ! j), value_h = value (b ! i ! j),
        domain_h = 9 * i + j\<rparr>" if "i < 9" "j < 9" for i j
    using k [OF that] that nth_concat_uniform [OF shape9_rows [OF sh], of i j] sh
    by (simp add: h_def heap_of_board_def len nth_enumerate_eq shape9_length)
  have n: "numbers h ! (9 * i + j) = domain (b ! i ! j)" if "i < 9" "j < 9" for i j
    using k [OF that] that nth_concat_uniform [OF shape9_rows [OF sh], of i j] sh
    by (simp add: h_def heap_of_board_def len shape9_length)
  have lo: "length (objects h) = 81" and ln: "length (numbers h) = 81"
    by (simp_all add: h_def heap_of_board_def len)
  have "repr h 9 b"
    unfolding repr_def
  proof (intro conjI allI impI)
    show "shape9 b" by (rule sh)
    show "9 < length (arrays h)" by (simp add: h_def heap_of_board_def)
    show "length (arrays h ! 9) = 9" by (simp add: ar9)
  next
    fix i :: nat assume i: "i < 9"
    have "length (arrays h) = 10" by (simp add: h_def heap_of_board_def)
    with i show "arrays h ! 9 ! i < length (arrays h)"
      by (simp add: ar9 del: upt.simps)
    from i show "length (arrays h ! (arrays h ! 9 ! i)) = 9"
      by (simp add: ar9 ari del: upt.simps)
  next
    fix i j :: nat assume b: "i < 9" "j < 9"
    show "cell h 9 i j < length (objects h)" using k [OF b] by (simp add: c [OF b] lo)
    show "domain_h (objects h ! cell h 9 i j) < length (numbers h)"
      using k [OF b] by (simp add: c [OF b] o [OF b] ln)
    show "b ! i ! j = sq_of h (cell h 9 i j)"
      by (simp add: sq_of_def c [OF b] o [OF b] n [OF b])
  next
    fix i j i' j' :: nat
    assume b: "i < 9" "j < 9" "i' < 9" "j' < 9"
      and "cell h 9 i j = cell h 9 i' j'
        \<or> domain_h (objects h ! cell h 9 i j) = domain_h (objects h ! cell h 9 i' j')"
    then have "9 * i + j = 9 * i' + j'"
      by (simp add: c o)
    with pos9_inj [OF b(2) b(4)] show "i = i'" "j = j'" by simp_all
  qed
  then show ?thesis by (simp add: h_def)
qed

lemma those_map_nth:
  assumes "\<And>k. k < n \<Longrightarrow> f (int k) = Some (ys ! k)" "length ys = n"
  shows "those (map f (map int [0..<n])) = Some ys"
proof -
  have "map f (map int [0..<n]) = map Some ys"
    using assms by (intro nth_equalityI) simp_all
  then show ?thesis by (simp only: those_Some)
qed

lemma repr_view_sq_h:
  assumes r: "repr h a b" and ij: "i < 9" "j < 9"
  shows "view_sq_h h a (int i) (int j) = Some (b ! i ! j)"
  using repr_cell [OF r ij] r ij
  by (simp add: view_sq_h_def read_sq_h_def repr_get_sq_h deref_def in_range_def sq_of_def)

lemma repr_view_h:
  assumes r: "repr h a b"
  shows "view_h h a = Some b"
proof -
  have sh: "shape9 b" using r by (rule repr_shape9)
  have row: "those (map (\<lambda>j. view_sq_h h a (int i) j) (map int [0..<9])) = Some (b ! i)"
    if "i < 9" for i
    by (rule those_map_nth) (simp_all add: repr_view_sq_h [OF r that] shape9_nth [OF sh that])
  have "those (map (\<lambda>i. those (map (\<lambda>j. view_sq_h h a i j) (map int [0..<9]))) (map int [0..<9]))
      = Some b"
    using those_map_nth [where f = "\<lambda>i. those (map (\<lambda>j. view_sq_h h a i j) (map int [0..<9]))"
        and ys = b and n = 9] row shape9_length [OF sh]
    by blast
  then show ?thesis
    by (simp only: view_h_def repr_length_h [OF r] bind.bind_lunit)
qed

lemma repr_other:
  assumes r: "repr h u b" and ar: "arrays h' = arrays h"
    and lo: "length (objects h) \<le> length (objects h')"
    and ln: "length (numbers h) \<le> length (numbers h')"
    and oo: "\<And>i j. i < 9 \<Longrightarrow> j < 9 \<Longrightarrow> objects h' ! cell h u i j = objects h ! cell h u i j"
    and nn: "\<And>i j. i < 9 \<Longrightarrow> j < 9 \<Longrightarrow> numbers h' ! dref h u i j = numbers h ! dref h u i j"
  shows "repr h' u b"
proof -
  have c: "cell h' u i j = cell h u i j" for i j by (simp add: cell_def ar)
  show ?thesis
    unfolding repr_def
  proof (intro conjI allI impI)
    show "shape9 b" using r by (rule repr_shape9)
    show "u < length (arrays h')" "length (arrays h' ! u) = 9"
      using r by (simp_all add: repr_def ar)
  next
    fix i :: nat assume i: "i < 9"
    with r show "arrays h' ! u ! i < length (arrays h')"
      "length (arrays h' ! (arrays h' ! u ! i)) = 9" by (simp_all add: repr_def ar)
  next
    fix i j :: nat assume b: "i < 9" "j < 9"
    from repr_cell [OF r b] lo show "cell h' u i j < length (objects h')" by (simp add: c)
    from repr_cell [OF r b] ln show "domain_h (objects h' ! cell h' u i j) < length (numbers h')"
      by (simp add: c oo [OF b])
    from repr_cell [OF r b] nn [OF b] show "b ! i ! j = sq_of h' (cell h' u i j)"
      by (simp add: c sq_of_def oo [OF b] dref_def)
  next
    fix i1 j1 i2 j2 :: nat
    assume b: "i1 < 9" "j1 < 9" "i2 < 9" "j2 < 9"
      and "cell h' u i1 j1 = cell h' u i2 j2
        \<or> domain_h (objects h' ! cell h' u i1 j1) = domain_h (objects h' ! cell h' u i2 j2)"
    then have "cell h u i1 j1 = cell h u i2 j2
        \<or> domain_h (objects h ! cell h u i1 j1) = domain_h (objects h ! cell h u i2 j2)"
      by (simp add: c oo)
    with r b show "i1 = i2" "j1 = j2" unfolding repr_def by blast+
  qed
qed

lemma separate_unaffected:
  assumes r: "repr h u b"
    and sep: "\<And>i j i' j'. i < 9 \<Longrightarrow> j < 9 \<Longrightarrow> i' < 9 \<Longrightarrow> j' < 9 \<Longrightarrow>
        cell h u i j \<noteq> cell h w i' j' \<and> dref h u i j \<noteq> dref h w i' j'"
  shows "unaffected h w u b"
  unfolding unaffected_def
proof (intro allI impI conjI)
  fix i j :: nat and v :: int and xs :: "int list"
  assume ij: "i < 9" "j < 9"
  show "repr (set_value_h h w i j v) u b"
  proof (rule repr_other [OF r])
    fix i' j' :: nat assume b: "i' < 9" "j' < 9"
    from sep [OF b ij] show "objects (set_value_h h w i j v) ! cell h u i' j'
        = objects h ! cell h u i' j'"
      by (simp add: set_value_h_def)
    show "numbers (set_value_h h w i j v) ! dref h u i' j' = numbers h ! dref h u i' j'"
      by (simp add: set_value_h_def)
  qed (simp_all add: set_value_h_def)
  show "repr (write_domain_h h w i j xs) u b"
  proof (rule repr_other [OF r])
    fix i' j' :: nat assume b: "i' < 9" "j' < 9"
    show "objects (write_domain_h h w i j xs) ! cell h u i' j' = objects h ! cell h u i' j'"
      by (simp add: write_domain_h_def)
    from sep [OF b ij] show "numbers (write_domain_h h w i j xs) ! dref h u i' j'
        = numbers h ! dref h u i' j'"
      by (simp add: write_domain_h_def)
  qed (simp_all add: write_domain_h_def)
  show "repr (assign_domain_h h w i j xs) u b"
  proof (rule repr_other [OF r])
    fix i' j' :: nat assume b: "i' < 9" "j' < 9"
    from sep [OF b ij] show "objects (assign_domain_h h w i j xs) ! cell h u i' j'
        = objects h ! cell h u i' j'"
      by (simp add: assign_domain_h_def)
    from repr_cell [OF r b] show "numbers (assign_domain_h h w i j xs) ! dref h u i' j'
        = numbers h ! dref h u i' j'"
      by (simp add: assign_domain_h_def dref_def nth_append)
  qed (simp_all add: assign_domain_h_def)
qed

lemma copySquares_separate:
  assumes r: "repr h a b"
  shows "\<exists>h'. copySquares_h h a = Some (length (arrays h), h')
           \<and> extends h h' \<and> repr h' a b \<and> repr h' (length (arrays h)) b
           \<and> (\<forall>i<9. \<forall>j<9. length (arrays h) < arrays h' ! length (arrays h) ! i
                  \<and> length (objects h) \<le> cell h' (length (arrays h)) i j
                  \<and> length (numbers h) \<le> dref h' (length (arrays h)) i j)
           \<and> separate h' a (length (arrays h))
           \<and> unaffected h' (length (arrays h)) a b \<and> unaffected h' a (length (arrays h)) b"
proof -
  define n where "n = length (arrays h)"
  from copySquares_sim_fresh [OF r] obtain h' where
    c: "copySquares_h h a = Some (n, h')" and rn: "repr h' n b" and ra: "repr h' a b"
    and e: "extends h h'"
    and frow: "\<And>i. i < 9 \<Longrightarrow> n < arrays h' ! n ! i"
    and fcell: "\<And>i j. i < 9 \<Longrightarrow> j < 9 \<Longrightarrow> length (objects h) \<le> cell h' n i j
                  \<and> length (numbers h) \<le> dref h' n i j"
    unfolding n_def by blast
  from r have a: "a < n" and rows: "\<And>i. i < 9 \<Longrightarrow> arrays h ! a ! i < n"
    by (simp_all add: repr_def n_def)
  from e have pa: "prefix (arrays h) (arrays h')" and po: "prefix (objects h) (objects h')"
    by (simp_all add: extends_def)
  have aa: "arrays h' ! a = arrays h ! a" using pa a by (intro prefix_nth) (simp_all add: n_def)
  have ar: "arrays h' ! (arrays h ! a ! i) = arrays h ! (arrays h ! a ! i)" if "i < 9" for i
    using pa rows [OF that] by (intro prefix_nth) (simp_all add: n_def)
  have ca: "cell h' a i j = cell h a i j" if "i < 9" for i j
    by (simp add: cell_def aa ar [OF that])
  have old: "cell h' a i j < length (objects h) \<and> dref h' a i j < length (numbers h)"
    if b: "i < 9" "j < 9" for i j
  proof -
    from repr_cell [OF r b] have q: "cell h a i j < length (objects h)"
      and d: "domain_h (objects h ! cell h a i j) < length (numbers h)" by simp_all
    have "objects h' ! cell h a i j = objects h ! cell h a i j" using po q by (rule prefix_nth)
    with q d show ?thesis by (simp add: ca [OF b(1)] dref_def)
  qed
  have sep: "cell h' a i j \<noteq> cell h' n i' j' \<and> dref h' a i j \<noteq> dref h' n i' j'"
    if "i < 9" "j < 9" "i' < 9" "j' < 9" for i j i' j'
    using old [OF that(1,2)] fcell [OF that(3,4)] by simp
  have s: "separate h' a n"
    unfolding separate_def
  proof (intro conjI allI impI)
    show "a \<noteq> n" using a by simp
  next
    fix i i' :: nat assume "i < 9" "i' < 9"
    with rows [of i] frow [of i'] show "arrays h' ! a ! i \<noteq> arrays h' ! n ! i'"
      by (simp add: aa)
  next
    fix i j i' j' :: nat assume "i < 9" "j < 9" "i' < 9" "j' < 9"
    from sep [OF this] show "cell h' a i j \<noteq> cell h' n i' j'" "dref h' a i j \<noteq> dref h' n i' j'"
      by simp_all
  qed
  have u1: "unaffected h' n a b"
    by (rule separate_unaffected [OF ra]) (rule sep)
  have u2: "unaffected h' a n b"
  proof (rule separate_unaffected [OF rn])
    fix i j i' j' :: nat assume "i < 9" "j < 9" "i' < 9" "j' < 9"
    from sep [OF this(3,4,1,2)]
    show "cell h' n i j \<noteq> cell h' a i' j' \<and> dref h' n i j \<noteq> dref h' a i' j'" by auto
  qed
  from c e ra rn frow fcell s u1 u2 show ?thesis
    unfolding n_def [symmetric] by blast
qed

lemma new_SudokuCSP_h_result:
  assumes "new_SudokuCSP_h h a f = Some (c, h')"
  shows "squares_h c = length (arrays h) \<and> failure_h c = f \<and> copySquares_h h a = Some (squares_h c, h')"
proof -
  from assms obtain x where cp: "copySquares_h h a = Some x"
    and r: "(case x of (c', h1) \<Rightarrow> Some (\<lparr>squares_h = c', failure_h = f\<rparr>, h1)) = Some (c, h')"
    unfolding new_SudokuCSP_h_def by (rule bind_SomeE)
  obtain n h1 where x: "x = (n, h1)" by (cases x)
  from copySquares_h_building [of h a n h1] cp x have "n = length (arrays h)" by simp
  with r x cp show ?thesis by auto
qed

lemma new_SudokuCSP_h_repr:
  assumes n: "new_SudokuCSP_h h a f = Some (c, h')" and r: "repr h a b"
  shows "repr h' (squares_h c) b"
proof -
  from new_SudokuCSP_h_result [OF n] have sq: "squares_h c = length (arrays h)"
    and cp: "copySquares_h h a = Some (squares_h c, h')" by simp_all
  from copySquares_sim [OF r] obtain h1 where
    c1: "copySquares_h h a = Some (length (arrays h), h1)"
    and r1: "repr h1 (length (arrays h)) b" by blast
  have "Some (squares_h c, h') = Some (length (arrays h), h1)"
    by (rule trans [OF cp [symmetric] c1])
  then have "h1 = h'" by simp
  with r1 sq show ?thesis by simp
qed

lemma fail_post_extends:
  "extends h0 h \<Longrightarrow> fail_post h a r h' \<Longrightarrow> fail_post h0 a r h'"
  unfolding fail_post_def by (blast intro: repr_extends)

lemma backtrack_h_failure_aux:
  "(\<forall>h c r h'. backtrack_h n h c = Some (r, h') \<longrightarrow>
       fail_post h (squares_h c) r h'
       \<and> (squares_h r = squares_h c \<or> length (arrays h) \<le> squares_h r)) \<and>
   (\<forall>h c q i r h'. backtrack_loop_h n h c q i = Some (r, h') \<longrightarrow>
       fail_post h (squares_h c) r h' \<and> length (arrays h) \<le> squares_h r)"
proof (induction n)
  case 0
  then show ?case by simp
next
  case (Suc n)
  then have IHb: "\<And>h c r h'. backtrack_h n h c = Some (r, h') \<Longrightarrow>
       fail_post h (squares_h c) r h'
       \<and> (squares_h r = squares_h c \<or> length (arrays h) \<le> squares_h r)"
    and IHl: "\<And>h c q i r h'. backtrack_loop_h n h c q i = Some (r, h') \<Longrightarrow>
       fail_post h (squares_h c) r h' \<and> length (arrays h) \<le> squares_h r"
    by blast+
  have b: "fail_post h (squares_h c) r h'
       \<and> (squares_h r = squares_h c \<or> length (arrays h) \<le> squares_h r)"
    if res: "backtrack_h (Suc n) h c = Some (r, h')" for h c r h'
  proof -
    from res obtain full where f: "isFull_h h (squares_h c) = Some full"
      and r1: "(if full then Some (c, h)
          else do { (square, h1) \<leftarrow> getEmptySquare_h h (squares_h c);
                    backtrack_loop_h n h1 c square 0 }) = Some (r, h')"
      unfolding backtrack_h.simps by (rule bind_SomeE)
    show ?thesis
    proof (cases full)
      case True
      with r1 f show ?thesis by (auto simp: fail_post_def)
    next
      case False
      with r1 obtain x where g: "getEmptySquare_h h (squares_h c) = Some x"
        and r2: "(case x of (square, h1) \<Rightarrow> backtrack_loop_h n h1 c square 0) = Some (r, h')"
        by (simp only: if_False) (rule bind_SomeE)
      obtain q h1 where x: "x = (q, h1)" by (cases x)
      from getEmptySquare_h_extends [of h "squares_h c" q h1] g x have e: "extends h h1" by simp
      from r2 x have "backtrack_loop_h n h1 c q 0 = Some (r, h')" by simp
      from IHl [OF this] have "fail_post h1 (squares_h c) r h'"
        and "length (arrays h1) \<le> squares_h r" by simp_all
      with e extends_lengths [OF e] show ?thesis by (auto intro: fail_post_extends)
    qed
  qed
  have l: "fail_post h (squares_h c) r h' \<and> length (arrays h) \<le> squares_h r"
    if res: "backtrack_loop_h (Suc n) h c q i = Some (r, h')" for h c q i r h'
  proof -
    from res obtain sq where "deref (objects h) q = Some sq" and
      r1: "do { d \<leftarrow> deref (numbers h) (domain_h sq);
          if i < length d
          then do { (success, newSquares, h1) \<leftarrow> trial_h h (squares_h c) q i;
                    if success
                    then do { (next, h2) \<leftarrow> new_SudokuCSP_h h1 newSquares False;
                              (result, h3) \<leftarrow> backtrack_h n h2 next;
                              if \<not> failure_h result then Some (result, h3)
                              else backtrack_loop_h n h3 c q (Suc i) }
                    else backtrack_loop_h n h1 c q (Suc i) }
          else new_SudokuCSP_h h (squares_h c) True } = Some (r, h')"
      unfolding backtrack_loop_h.simps by (rule bind_SomeE)
    from r1 obtain d where "deref (numbers h) (domain_h sq) = Some d" and
      r2: "(if i < length d
          then do { (success, newSquares, h1) \<leftarrow> trial_h h (squares_h c) q i;
                    if success
                    then do { (next, h2) \<leftarrow> new_SudokuCSP_h h1 newSquares False;
                              (result, h3) \<leftarrow> backtrack_h n h2 next;
                              if \<not> failure_h result then Some (result, h3)
                              else backtrack_loop_h n h3 c q (Suc i) }
                    else backtrack_loop_h n h1 c q (Suc i) }
          else new_SudokuCSP_h h (squares_h c) True) = Some (r, h')"
      by (rule bind_SomeE)
    show ?thesis
    proof (cases "i < length d")
      case False
      with r2 have nw: "new_SudokuCSP_h h (squares_h c) True = Some (r, h')" by simp
      from new_SudokuCSP_h_result [OF nw] new_SudokuCSP_h_repr [OF nw] show ?thesis
        by (simp add: fail_post_def)
    next
      case True
      with r2 obtain x where t: "trial_h h (squares_h c) q i = Some x"
        and r3: "(case x of (success, newSquares, h1) \<Rightarrow>
                    if success
                    then do { (next, h2) \<leftarrow> new_SudokuCSP_h h1 newSquares False;
                              (result, h3) \<leftarrow> backtrack_h n h2 next;
                              if \<not> failure_h result then Some (result, h3)
                              else backtrack_loop_h n h3 c q (Suc i) }
                    else backtrack_loop_h n h1 c q (Suc i)) = Some (r, h')"
        by (simp only: if_True) (rule bind_SomeE)
      obtain success n1 h1 where x: "x = (success, n1, h1)" by (cases x)
      from trial_h_extends [of h "squares_h c" q i success n1 h1] t x
      have e1: "extends h h1" by simp
      show ?thesis
      proof (cases success)
        case False
        with r3 x have "backtrack_loop_h n h1 c q (Suc i) = Some (r, h')" by simp
        from IHl [OF this] e1 extends_lengths [OF e1] show ?thesis
          by (auto intro: fail_post_extends)
      next
        case True
        with r3 x obtain y where nw: "new_SudokuCSP_h h1 n1 False = Some y"
          and r4: "(case y of (next, h2) \<Rightarrow>
                     do { (result, h3) \<leftarrow> backtrack_h n h2 next;
                          if \<not> failure_h result then Some (result, h3)
                          else backtrack_loop_h n h3 c q (Suc i) }) = Some (r, h')"
          by (simp only: prod.case if_True) (rule bind_SomeE)
        obtain nx h2 where y: "y = (nx, h2)" by (cases y)
        from new_SudokuCSP_h_extends [of h1 n1 False nx h2] nw y
        have e2: "extends h1 h2" by simp
        from new_SudokuCSP_h_result [of h1 n1 False nx h2] nw y
        have nxa: "squares_h nx = length (arrays h1)" by simp
        from r4 [unfolded y prod.case] obtain z where bt: "backtrack_h n h2 nx = Some z"
          and r5: "(case z of (result, h3) \<Rightarrow>
                          if \<not> failure_h result then Some (result, h3)
                          else backtrack_loop_h n h3 c q (Suc i)) = Some (r, h')"
          by (rule bind_SomeE)
        obtain res h3 where z: "z = (res, h3)" by (cases z)
        from backtrack_h_extends [of n h2 nx res h3] bt z have e3: "extends h2 h3" by simp
        have e13: "extends h h3" using e1 e2 e3 by (blast intro: extends_trans)
        show ?thesis
        proof (cases "failure_h res")
          case False
          with r5 z have "r = res" "h' = h3" by simp_all
          with IHb [of h2 nx res h3] bt z False nxa extends_lengths [OF e1] extends_lengths [OF e2]
          show ?thesis by (auto simp: fail_post_def)
        next
          case True
          with r5 z have "backtrack_loop_h n h3 c q (Suc i) = Some (r, h')" by simp
          from IHl [OF this] e13 extends_lengths [OF e13] show ?thesis
            by (auto intro: fail_post_extends)
        qed
      qed
    qed
  qed
  from b l show ?case by blast
qed

lemma solve_returns:
  assumes "wf_input sqs"
  shows "\<exists>r. solve 82 sqs = Some r"
proof -
  from solve_char [OF assms, of 82] obtain valid s1 where wf1: "wf_board s1"
    and s: "solve 82 sqs = backtrack 82 \<lparr>squares = s1, failure = False\<rparr>" by blast
  from count_empty_le_81 [of s1] wf1 have "count_empty s1 < 82"
    by (simp add: wf_board_shape9 le_imp_less_Suc)
  with backtrack_returns [of "\<lparr>squares = s1, failure = False\<rparr>" 82] wf1 s show ?thesis by simp
qed

lemma solve_one_missing:
  "map_option (\<lambda>r. (failure r, values_of (squares r))) (solve 2 (squares_of_grid grid_one_missing))
     = Some (False, grid_solved)"
  by code_simp



section \<open>The claims about updateDomains\<close>

text \<open>
  Claim C6. On a 9x9 board, for a square \<open>(rw, cl)\<close> that holds a nonzero value,
  \<^verbatim>\<open>updateDomains\<close> returns, and it returns \<open>true\<close> exactly when every peer of
  \<open>(rw, cl)\<close> (the other squares of its row, column and box) has a nonempty domain
  after the pruning. The pruning is taken in both senses: the complete pruning of the
  board that was passed in (\<open>pruned\<close>, a function of the input alone), and the board
  as \<^verbatim>\<open>updateDomains\<close> leaves it. When it returns \<open>true\<close> the two boards are the
  same; when it returns \<open>false\<close> some peer has an empty domain in both.
\<close>

theorem updateDomains_true_iff_peers_nonempty:
  assumes "shape9 sqs" and "rw < 9" and "cl < 9" and "value (sqs ! rw ! cl) \<noteq> 0"
  shows "\<exists>b sqs'. updateDomains sqs (int rw) (int cl) = Some (b, sqs')
           \<and> (b \<longleftrightarrow> list_all (\<lambda>(i, j). domain (pruned sqs rw cl ! i ! j) \<noteq> []) (peers rw cl))
           \<and> (b \<longleftrightarrow> list_all (\<lambda>(i, j). domain (sqs' ! i ! j) \<noteq> []) (peers rw cl))
           \<and> (b \<longrightarrow> sqs' = pruned sqs rw cl)"
proof -
  define v where "v = value (sqs ! rw ! cl)"
  define s1 where "s1 = assign_domain sqs rw cl v"
  define A where "A = rc_cells rw cl [0..<9]"
  define B where "B = set (box_of rw cl) - {(rw, cl)}"
  from updateDomains_char2 [OF assms]
  obtain b M1 M2 where
    r: "updateDomains sqs (int rw) (int cl) = Some (b, prune_set v M2 (prune_set v M1 s1))"
    and sub: "M1 \<subseteq> A" "M2 \<subseteq> B"
    and full: "b \<longrightarrow> M1 = A \<and> M2 = B"
    and chk: "b \<longleftrightarrow> (\<forall>p\<in>set (peers rw cl).
                  domain (prune_set v M2 (prune_set v M1 s1) ! fst p ! snd p) \<noteq> [])"
    unfolding v_def s1_def A_def B_def by blast
  have P: "pruned sqs rw cl = prune_set v B (prune_set v A s1)"
    unfolding v_def s1_def A_def B_def using assms(1,2,3) by (rule pruned_char)
  have same: "b \<longrightarrow> prune_set v M2 (prune_set v M1 s1) = pruned sqs rw cl"
    using full P by simp
  have "b \<longleftrightarrow> (\<forall>p\<in>set (peers rw cl). domain (pruned sqs rw cl ! fst p ! snd p) \<noteq> [])"
  proof
    assume b
    with chk same show "\<forall>p\<in>set (peers rw cl). domain (pruned sqs rw cl ! fst p ! snd p) \<noteq> []"
      by simp
  next
    assume all: "\<forall>p\<in>set (peers rw cl). domain (pruned sqs rw cl ! fst p ! snd p) \<noteq> []"
    have "domain (prune_set v M2 (prune_set v M1 s1) ! fst p ! snd p) \<noteq> []"
      if p: "p \<in> set (peers rw cl)" for p
    proof -
      from p have bd: "fst p < 9" "snd p < 9" by (auto simp: set_peers)
      from all p have "domain (prune_set v B (prune_set v A s1) ! fst p ! snd p) \<noteq> []"
        unfolding P by blast
      with prune_set_more_empty [OF sub bd] show ?thesis by blast
    qed
    with chk show b by blast
  qed
  then have c1: "b \<longleftrightarrow> list_all (\<lambda>(i, j). domain (pruned sqs rw cl ! i ! j) \<noteq> []) (peers rw cl)"
    by (simp only: list_all_pairs)
  from chk have c2: "b \<longleftrightarrow> list_all (\<lambda>(i, j).
      domain (prune_set v M2 (prune_set v M1 s1) ! i ! j) \<noteq> []) (peers rw cl)"
    by (simp only: list_all_pairs)
  from r c1 c2 same show ?thesis by blast
qed

text \<open>
  The hypotheses of C6 hold for the first square of the grid of the specification's
  scenario, where every peer keeps a domain and the call returns \<open>true\<close>, and for square
  \<open>(0, 2)\<close> of the board \<open>board_two_fives_trial\<close>, where the peer \<open>(0, 0)\<close> has an
  empty domain and the call returns \<open>false\<close>.
\<close>

theorem updateDomains_true_iff_peers_nonempty_witness:
  "shape9 (squares_of_grid grid_two_fives) \<and> (0::nat) < 9
   \<and> value (squares_of_grid grid_two_fives ! 0 ! 0) \<noteq> 0
   \<and> list_all (\<lambda>(i, j). domain (pruned (squares_of_grid grid_two_fives) 0 0 ! i ! j) \<noteq> [])
        (peers 0 0)
   \<and> returned (updateDomains (squares_of_grid grid_two_fives) (int 0) (int 0)) = Some True
   \<and> shape9 board_two_fives_trial \<and> (2::nat) < 9
   \<and> value (board_two_fives_trial ! 0 ! 2) \<noteq> 0
   \<and> list_ex (\<lambda>(i, j). domain (pruned board_two_fives_trial 0 2 ! i ! j) = []) (peers 0 2)
   \<and> returned (updateDomains board_two_fives_trial (int 0) (int 2)) = Some False"
proof -
  have h: "shape9 (squares_of_grid grid_two_fives)" "(0::nat) < 9"
    "value (squares_of_grid grid_two_fives ! 0 ! 0) \<noteq> 0"
    "list_all (\<lambda>(i, j). domain (pruned (squares_of_grid grid_two_fives) 0 0 ! i ! j) \<noteq> [])
        (peers 0 0)"
    by code_simp+
  have k: "shape9 board_two_fives_trial" "(2::nat) < 9"
    "value (board_two_fives_trial ! 0 ! 2) \<noteq> 0"
    "list_ex (\<lambda>(i, j). domain (pruned board_two_fives_trial 0 2 ! i ! j) = []) (peers 0 2)"
    by code_simp+
  from updateDomains_true_iff_peers_nonempty [OF h(1) h(2) h(2) h(3)] h(4)
  have t: "returned (updateDomains (squares_of_grid grid_two_fives) (int 0) (int 0)) = Some True"
    by (auto simp: returned_def)
  from k(4) have "\<not> list_all (\<lambda>(i, j). domain (pruned board_two_fives_trial 0 2 ! i ! j) \<noteq> [])
        (peers 0 2)"
    by (auto simp: list_ex_iff list_all_iff)
  with updateDomains_true_iff_peers_nonempty [OF k(1) h(2) k(2) k(3)]
  have f: "returned (updateDomains board_two_fives_trial (int 0) (int 2)) = Some False"
    by (auto simp: returned_def)
  from h k t f show ?thesis by blast
qed

text \<open>
  Claim C3 as stated fails: \<^verbatim>\<open>updateDomains\<close> returns \<open>false\<close> at the first empty
  domain it meets and leaves the squares it has not visited untouched. On the board
  \<open>board_two_fives_trial\<close>, square \<open>(0, 2)\<close> holds 1, square \<open>(0, 0)\<close> has an empty
  domain, the call returns \<open>false\<close> at \<open>i = 0\<close>, and the peer \<open>(0, 3)\<close> still has 1 in
  its domain.
\<close>

theorem updateDomains_early_return_counterexample:
  "shape9 board_two_fives_trial \<and> distinct_domains board_two_fives_trial
   \<and> value (board_two_fives_trial ! 0 ! 2) = 1
   \<and> List.member (peers 0 2) (0, 3)
   \<and> returned (updateDomains board_two_fives_trial 0 2) = Some False
   \<and> domain_after 0 3 (updateDomains board_two_fives_trial 0 2) = Some [1, 2, 3, 4, 6, 7, 8, 9]"
  by code_simp

text \<open>
  Claim C3, amended. On a 9x9 board whose domains list no value twice, for a square
  \<open>(rw, cl)\<close> that holds a nonzero value \<open>v\<close>: after \<^verbatim>\<open>updateDomains\<close> the domain of
  \<open>(rw, cl)\<close> is \<open>[v]\<close>, and if \<^verbatim>\<open>updateDomains\<close> returned \<open>true\<close> then no peer has
  \<open>v\<close> in its domain.
\<close>

theorem updateDomains_prunes_peers:
  assumes "shape9 sqs" and "distinct_domains sqs" and "rw < 9" and "cl < 9"
    and "value (sqs ! rw ! cl) \<noteq> 0"
  shows "\<exists>b sqs'. updateDomains sqs (int rw) (int cl) = Some (b, sqs')
           \<and> domain (sqs' ! rw ! cl) = [value (sqs ! rw ! cl)]
           \<and> (b \<longrightarrow> list_all (\<lambda>(i, j). value (sqs ! rw ! cl) \<notin> set (domain (sqs' ! i ! j)))
                        (peers rw cl))"
proof -
  define v where "v = value (sqs ! rw ! cl)"
  define s1 where "s1 = assign_domain sqs rw cl v"
  from updateDomains_char [OF assms]
  obtain b M where r: "updateDomains sqs (int rw) (int cl) = Some (b, prune_set v M s1)"
    and sub: "M \<subseteq> set (peers rw cl)" and full: "b \<longrightarrow> M = set (peers rw cl)"
    unfolding v_def s1_def by blast
  have sh1: "shape9 s1" and dd1: "distinct_domains s1"
    using assms by (simp_all add: s1_def)
  have "(rw, cl) \<notin> M" using sub by (auto simp: set_peers)
  then have own: "domain (prune_set v M s1 ! rw ! cl) = [v]"
    using assms by (simp add: s1_def)
  have gone: "v \<notin> set (domain (prune_set v M s1 ! i ! j))" if "(i, j) \<in> M" for i j
  proof -
    from that sub have b: "i < 9" "j < 9" by (auto simp: set_peers)
    with dd1 sh1 have "distinct (domain (s1 ! i ! j))" by (simp add: distinct_domains_nth)
    with that b show ?thesis by simp
  qed
  have "b \<longrightarrow> list_all (\<lambda>(i, j). v \<notin> set (domain (prune_set v M s1 ! i ! j))) (peers rw cl)"
    using full gone unfolding list_all_pairs by (auto simp del: prune_set_nth)
  with r own show ?thesis unfolding v_def by blast
qed

text \<open>The hypotheses of the amended C3 hold for the first square of the scenario's grid.\<close>

theorem updateDomains_prunes_peers_witness:
  "shape9 (squares_of_grid grid_two_fives) \<and> distinct_domains (squares_of_grid grid_two_fives)
   \<and> (0::nat) < 9 \<and> value (squares_of_grid grid_two_fives ! 0 ! 0) \<noteq> 0
   \<and> (\<exists>b sqs'. updateDomains (squares_of_grid grid_two_fives) (int 0) (int 0) = Some (b, sqs')
           \<and> domain (sqs' ! 0 ! 0) = [value (squares_of_grid grid_two_fives ! 0 ! 0)]
           \<and> (b \<longrightarrow> list_all (\<lambda>(i, j). value (squares_of_grid grid_two_fives ! 0 ! 0)
                            \<notin> set (domain (sqs' ! i ! j))) (peers 0 0)))"
proof -
  have h: "shape9 (squares_of_grid grid_two_fives)"
    "distinct_domains (squares_of_grid grid_two_fives)"
    "(0::nat) < 9" "value (squares_of_grid grid_two_fives ! 0 ! 0) \<noteq> 0"
    by code_simp+
  from updateDomains_prunes_peers [OF h(1,2,3,3,4)] h show ?thesis by blast
qed

section \<open>Grids that solve accepts although they break the rules\<close>

text \<open>
  Claim C1 at the grid of eighty-one ones. \<^verbatim>\<open>updateAllDomains\<close> finds the
  contradiction and returns \<open>false\<close>, \<^verbatim>\<open>solve\<close> drops that result, the board is
  full, and \<^verbatim>\<open>backtrack\<close> returns it with \<open>failure = false\<close>: the returned grid is the
  input, which is no solved grid.
\<close>

theorem solve_accepts_all_ones:
  "wf_input (squares_of_grid grid_all_ones)
   \<and> result_failure (solve 1 (squares_of_grid grid_all_ones)) = Some False
   \<and> result_values (solve 1 (squares_of_grid grid_all_ones)) = Some grid_all_ones
   \<and> \<not> solved grid_all_ones"
  by code_simp

text \<open>
  Claim C2 at a full grid whose row 0 starts with two ones: \<^verbatim>\<open>solve\<close> returns a
  result with \<open>failure = false\<close>.
\<close>

theorem solve_accepts_row_duplicate:
  "wf_input (squares_of_grid grid_row_duplicate)
   \<and> grid_row_duplicate ! 0 ! 0 = 1 \<and> grid_row_duplicate ! 0 ! 1 = 1
   \<and> result_failure (solve 1 (squares_of_grid grid_row_duplicate)) = Some False"
  by code_simp

section \<open>The claims about solve and backtrack\<close>

text \<open>
  Claim C5. For a well-formed input that is completely filled and satisfies the Sudoku
  constraints, \<^verbatim>\<open>solve\<close> (with any fuel but none) returns a result with
  \<open>failure = false\<close> whose values are the values of the input.
\<close>

theorem solve_solved_grid:
  assumes "wf_input sqs" and "no_zero sqs" and "solved (values_of sqs)"
  shows "\<exists>result. solve (Suc n) sqs = Some result \<and> \<not> failure result
           \<and> values_of (squares result) = values_of sqs"
proof -
  from solve_char [OF assms(1), of "Suc n"] obtain valid s1 where
    wf1: "wf_board s1" and v1: "values_of s1 = values_of sqs"
    and s: "solve (Suc n) sqs = backtrack (Suc n) \<lparr>squares = s1, failure = False\<rparr>" by blast
  from assms(2) v1 have "no_zero s1" by (simp add: no_zero_values)
  with wf1 have "backtrack (Suc n) \<lparr>squares = s1, failure = False\<rparr>
      = Some \<lparr>squares = s1, failure = False\<rparr>"
    by (simp add: isFull_char wf_board_shape9)
  with s v1 show ?thesis by simp
qed

text \<open>The hypotheses of C5 hold for the grid \<open>grid_solved\<close>.\<close>

theorem solve_solved_grid_witness:
  "wf_input (squares_of_grid grid_solved) \<and> no_zero (squares_of_grid grid_solved)
   \<and> solved (values_of (squares_of_grid grid_solved))
   \<and> (\<exists>result. solve (Suc 0) (squares_of_grid grid_solved) = Some result \<and> \<not> failure result
           \<and> values_of (squares result) = values_of (squares_of_grid grid_solved))"
proof -
  have h: "wf_input (squares_of_grid grid_solved)" "no_zero (squares_of_grid grid_solved)"
    "solved (values_of (squares_of_grid grid_solved))"
    by code_simp+
  from solve_solved_grid [OF h, of 0] h show ?thesis by blast
qed

text \<open>
  Claim C4. For a well-formed input, if \<^verbatim>\<open>solve\<close> returns a result with
  \<open>failure = false\<close>, every square that held a nonzero value in the input holds the
  same value in the returned grid.
\<close>

theorem solve_keeps_givens:
  assumes "wf_input sqs" and "solve fuel sqs = Some result" and "\<not> failure result"
  shows "\<forall>i<9. \<forall>j<9. value (sqs ! i ! j) \<noteq> 0 \<longrightarrow>
           value (squares result ! i ! j) = value (sqs ! i ! j)"
proof -
  from solve_char [OF assms(1), of fuel] obtain valid s1 where
    wf1: "wf_board s1" and v1: "values_of s1 = values_of sqs"
    and s: "solve fuel sqs = backtrack fuel \<lparr>squares = s1, failure = False\<rparr>" by blast
  from backtrack_post [of "\<lparr>squares = s1, failure = False\<rparr>" fuel result] wf1 s assms(2)
  have "keeps_givens s1 (squares result)" by (simp add: backtrack_post_def)
  with v1 wf1 assms(1) have "keeps_givens sqs (squares result)"
    by (intro keeps_givens_values [of s1 sqs]) (simp_all add: wf_board_shape9 wf_input_def)
  then show ?thesis by (simp only: keeps_givens_nth)
qed

text \<open>
  The hypotheses of C4 hold for \<open>grid_solved\<close> with its first square emptied: \<^verbatim>\<open>solve\<close>
  succeeds, and the given 2 of square \<open>(0, 1)\<close> is in the result.
\<close>

theorem solve_keeps_givens_witness:
  "wf_input (squares_of_grid grid_one_missing)
   \<and> result_failure (solve 2 (squares_of_grid grid_one_missing)) = Some False
   \<and> value (squares_of_grid grid_one_missing ! 0 ! 1) = 2
   \<and> value (squares (the (solve 2 (squares_of_grid grid_one_missing))) ! 0 ! 1) = 2"
proof -
  have h: "wf_input (squares_of_grid grid_one_missing)" by code_simp
  have g: "value (squares_of_grid grid_one_missing ! 0 ! 1) = 2" by code_simp
  have r: "result_failure (solve 2 (squares_of_grid grid_one_missing)) = Some False"
    by code_simp
  then obtain result where s: "solve 2 (squares_of_grid grid_one_missing) = Some result"
    and f: "\<not> failure result" by (auto simp: result_failure_def)
  from solve_keeps_givens [OF h s f] g
  have "value (squares result ! 0 ! 1) = 2" by simp
  with s h r g show ?thesis by simp
qed

text \<open>
  Claim C9. For a well-formed board, \<^verbatim>\<open>backtrack\<close> returns once the fuel, which
  bounds the depth of the recursion, exceeds the number of empty squares; that number
  is at most 81; no domain has more than 9 candidates; and the board of every
  recursive call (the trial board of a candidate of the chosen square) is well-formed
  and has fewer empty squares than the caller's board.
\<close>

theorem backtrack_terminates:
  assumes "wf_board (squares sudoku)"
  shows "(\<forall>n. count_empty (squares sudoku) < n \<longrightarrow> (\<exists>result. backtrack n sudoku = Some result))
     \<and> count_empty (squares sudoku) \<le> 81
     \<and> all_squares (\<lambda>q. length (domain q) \<le> 9) (squares sudoku)
     \<and> (\<forall>square v b sqs'.
           isFull (squares sudoku) = Some False \<longrightarrow> getEmptySquare (squares sudoku) = Some square \<longrightarrow>
           v \<in> set (domain square) \<longrightarrow> trial (squares sudoku) square v = Some (b, sqs') \<longrightarrow>
           wf_board sqs' \<and> count_empty sqs' < count_empty (squares sudoku))"
proof (intro conjI allI impI)
  fix n assume "count_empty (squares sudoku) < n"
  with assms show "\<exists>result. backtrack n sudoku = Some result" by (rule backtrack_returns)
next
  show "count_empty (squares sudoku) \<le> 81"
    using assms by (intro count_empty_le_81 wf_board_shape9)
next
  show "all_squares (\<lambda>q. length (domain q) \<le> 9) (squares sudoku)"
    using assms by (auto simp: wf_board_nth all_squares_nth domain_length_le_9)
next
  fix square v b sqs'
  assume full: "isFull (squares sudoku) = Some False"
    and g: "getEmptySquare (squares sudoku) = Some square"
    and v: "v \<in> set (domain square)"
    and t: "trial (squares sudoku) square v = Some (b, sqs')"
  have sh: "shape9 (squares sudoku)" using assms by (rule wf_board_shape9)
  from full sh have "\<not> no_zero (squares sudoku)" by (simp add: isFull_char)
  from getEmptySquare_char [OF sh this] g obtain i j where ij: "i < 9" "j < 9"
    and sq: "square = squares sudoku ! i ! j" and z: "value (squares sudoku ! i ! j) = 0"
    by auto
  from trial_fewer_empty [OF assms ij z v [unfolded sq] t [unfolded sq]]
  show "wf_board sqs'" and "count_empty sqs' < count_empty (squares sudoku)" by simp_all
qed

text \<open>
  The hypothesis of C9 holds for the scenario's grid, which has 79 empty squares: a
  recursion depth of 80 is enough.
\<close>

theorem backtrack_terminates_witness:
  "wf_board (squares \<lparr>squares = squares_of_grid grid_two_fives, failure = False\<rparr>)
   \<and> count_empty (squares_of_grid grid_two_fives) = 79
   \<and> (\<exists>result. backtrack 80 \<lparr>squares = squares_of_grid grid_two_fives, failure = False\<rparr> = Some result)"
proof -
  have h: "wf_board (squares \<lparr>squares = squares_of_grid grid_two_fives, failure = False\<rparr>)"
    by code_simp
  have c: "count_empty (squares_of_grid grid_two_fives) = 79" by code_simp
  from backtrack_terminates [OF h] have
    "\<forall>n. count_empty (squares_of_grid grid_two_fives) < n \<longrightarrow>
       (\<exists>result. backtrack n \<lparr>squares = squares_of_grid grid_two_fives, failure = False\<rparr> = Some result)"
    by simp
  with c have "\<exists>result. backtrack 80 \<lparr>squares = squares_of_grid grid_two_fives, failure = False\<rparr> = Some result"
    by simp
  with h c show ?thesis by blast
qed

section \<open>The claims about copies and the caller's grid\<close>

text \<open>
  Claim C7. For every 9x9 board in the store, \<^verbatim>\<open>copySquares\<close> returns a grid made of
  new objects only (a new board array, new rows, new \<^verbatim>\<open>Square\<close> objects, new domain
  arrays), with the same squares as the source; nothing that was in the store has been
  changed; the copy and the source have no row, no \<^verbatim>\<open>Square\<close> object and no domain
  array in common; and whatever is written to the value or the domain of a square of
  the copy, the source is the same board as before, and the other way round.
\<close>

theorem copySquares_shares_nothing:
  assumes "repr h a b"
  shows "\<exists>n h'. copySquares_h h a = Some (n, h')
           \<and> extends h h' \<and> all_new h h' n
           \<and> repr h' a b \<and> repr h' n b
           \<and> separate h' a n
           \<and> unaffected h' n a b \<and> unaffected h' a n b"
proof -
  from copySquares_separate [OF assms] obtain h' where
    c: "copySquares_h h a = Some (length (arrays h), h')"
    and e: "extends h h'" and ra: "repr h' a b" and rn: "repr h' (length (arrays h)) b"
    and f: "\<forall>i<9. \<forall>j<9. length (arrays h) < arrays h' ! length (arrays h) ! i
                  \<and> length (objects h) \<le> cell h' (length (arrays h)) i j
                  \<and> length (numbers h) \<le> dref h' (length (arrays h)) i j"
    and s: "separate h' a (length (arrays h))"
    and u: "unaffected h' (length (arrays h)) a b" "unaffected h' a (length (arrays h)) b"
    by blast
  from f have "all_new h h' (length (arrays h))"
    by (auto simp: all_new_def intro: less_imp_le)
  with c e ra rn s u show ?thesis by blast
qed

text \<open>
  The hypothesis of C7 holds for the grid of the specification's scenario as the store
  \<open>heap_of_board\<close> holds it: the copy reads as the same board; after 7 is written into
  the value of square \<open>(0, 2)\<close> of the copy the source still reads as before, and after
  the domain array of square \<open>(0, 2)\<close> of the source is changed to \<open>[7]\<close> the copy
  still reads as before.
\<close>

theorem copySquares_shares_nothing_witness:
  "repr (heap_of_board (squares_of_grid grid_two_fives)) 9 (squares_of_grid grid_two_fives)
   \<and> (\<exists>n h'. copySquares_h (heap_of_board (squares_of_grid grid_two_fives)) 9 = Some (n, h')
         \<and> view_h h' 9 = Some (squares_of_grid grid_two_fives)
         \<and> view_h h' n = Some (squares_of_grid grid_two_fives)
         \<and> view_h (set_value_h h' n 0 2 7) 9 = Some (squares_of_grid grid_two_fives)
         \<and> view_h (write_domain_h h' 9 0 2 [7]) n = Some (squares_of_grid grid_two_fives))"
proof -
  have sh: "shape9 (squares_of_grid grid_two_fives)" by code_simp
  then have r: "repr (heap_of_board (squares_of_grid grid_two_fives)) 9
      (squares_of_grid grid_two_fives)" by (rule repr_heap_of_board)
  from copySquares_shares_nothing [OF r] obtain n h' where
    c: "copySquares_h (heap_of_board (squares_of_grid grid_two_fives)) 9 = Some (n, h')"
    and ra: "repr h' 9 (squares_of_grid grid_two_fives)"
    and rn: "repr h' n (squares_of_grid grid_two_fives)"
    and u1: "unaffected h' n 9 (squares_of_grid grid_two_fives)"
    and u2: "unaffected h' 9 n (squares_of_grid grid_two_fives)" by blast
  from u1 have "repr (set_value_h h' n 0 2 7) 9 (squares_of_grid grid_two_fives)"
    by (simp add: unaffected_def)
  moreover from u2 have "repr (write_domain_h h' 9 0 2 [7]) n (squares_of_grid grid_two_fives)"
    by (simp add: unaffected_def)
  ultimately show ?thesis using r c ra rn by (blast intro: repr_view_h)
qed



text \<open>
  Claim C10. Whenever \<^verbatim>\<open>solve\<close> returns, nothing that was in the store at the call
  has been changed: every array, every \<^verbatim>\<open>Square\<close> object and every domain array is at
  its address with its contents, so the grid at the argument's address reads as the
  same board after the call as before, and a second call finds the same input. The
  squares of the result are a grid that did not exist at the call. And \<^verbatim>\<open>solve\<close>
  does return for the grids that \<^verbatim>\<open>controller.js\<close> passes to it.
\<close>

theorem solve_leaves_argument_unmodified:
  "(\<forall>fuel result h'. solve_h fuel h a = Some (result, h') \<longrightarrow>
       extends h h' \<and> (\<forall>b. view_h h a = Some b \<longrightarrow> view_h h' a = Some b)
       \<and> length (arrays h) \<le> squares_h result)
   \<and> (\<forall>b. repr h a b \<longrightarrow> wf_input b \<longrightarrow>
         (\<exists>fuel result h'. solve_h fuel h a = Some (result, h')))"
proof (intro conjI allI impI)
  fix fuel result h'
  assume sv: "solve_h fuel h a = Some (result, h')"
  from sv show e: "extends h h'" by (rule solve_h_extends)
  from sv obtain n1 h1 v h2 start h3 where
    c: "copySquares_h h a = Some (n1, h1)"
    and u: "updateAllDomains_h h1 n1 = Some (v, h2)"
    and nw: "new_SudokuCSP_h h2 n1 False = Some (start, h3)"
    and bt: "backtrack_h fuel h3 start = Some (result, h')"
    by (auto simp: solve_h_def bind_eq_Some_conv)
  from copySquares_h_extends [OF c] have e1: "extends h h1"
    and f1: "fresh_board (length (objects h)) (length (numbers h)) h1 n1" by simp_all
  from updateAllDomains_h_above [OF f1 u]
  have "above (length (objects h)) (length (numbers h)) h1 h2" by simp
  then have a2: "arrays h2 = arrays h1" by (simp add: above_def)
  from new_SudokuCSP_h_result [OF nw] have st: "squares_h start = length (arrays h2)" by simp
  from new_SudokuCSP_h_extends [OF nw] have e3: "extends h2 h3" .
  from backtrack_h_failure_aux [of fuel] bt
  have "squares_h result = squares_h start \<or> length (arrays h3) \<le> squares_h result" by blast
  with st a2 extends_lengths [OF e1] extends_lengths [OF e3]
  show "length (arrays h) \<le> squares_h result" by auto
  show "view_h h' a = Some b" if "view_h h a = Some b" for b
    using e that by (rule view_h_extends)
next
  fix b assume r: "repr h a b" and wf: "wf_input b"
  from solve_returns [OF wf] obtain res where "solve 82 b = Some res" by blast
  from solve_fwd [OF this r] obtain F x where "solve_h F h a = Some x" by blast
  then show "\<exists>fuel result h'. solve_h fuel h a = Some (result, h')"
    by (cases x) blast
qed

text \<open>
  For the solved grid with its first square emptied, as the store \<open>heap_of_board\<close> holds
  it: \<^verbatim>\<open>solve\<close> returns the solved grid with \<open>failure = false\<close>, and the grid that was
  passed reads as before, the first square still empty.
\<close>

theorem solve_leaves_argument_unmodified_witness:
  "\<exists>fuel result h'.
      solve_h fuel (heap_of_board (squares_of_grid grid_one_missing)) 9 = Some (result, h')
      \<and> \<not> failure_h result
      \<and> map_option values_of (view_h h' (squares_h result)) = Some grid_solved
      \<and> view_h (heap_of_board (squares_of_grid grid_one_missing)) 9
           = Some (squares_of_grid grid_one_missing)
      \<and> view_h h' 9 = Some (squares_of_grid grid_one_missing)
      \<and> extends (heap_of_board (squares_of_grid grid_one_missing)) h'"
proof -
  define G where "G = squares_of_grid grid_one_missing"
  define H where "H = heap_of_board G"
  have sh: "shape9 G" unfolding G_def by code_simp
  then have r: "repr H 9 G" unfolding H_def by (rule repr_heap_of_board)
  from solve_one_missing obtain res where s: "solve 2 G = Some res"
    and f: "\<not> failure res" and v: "values_of (squares res) = grid_solved"
    unfolding G_def by auto
  from solve_fwd [OF s r] obtain F x where sv: "solve_h F H 9 = Some x"
    and rr: "res_rel H x res" by blast
  obtain result h' where x: "x = (result, h')" by (cases x)
  from rr have rres: "repr h' (squares_h result) (squares res)"
    and fh: "failure_h result = failure res" by (simp_all add: res_rel_def x)
  from solve_leaves_argument_unmodified [of H 9] sv [unfolded x] repr_view_h [OF r]
  have e: "extends H h'" and vw: "view_h h' 9 = Some G" by blast+
  from repr_view_h [OF rres] v
  have "map_option values_of (view_h h' (squares_h result)) = Some grid_solved" by simp
  with sv x f fh repr_view_h [OF r] vw e show ?thesis
    unfolding G_def H_def by auto
qed


end
